theory Spec2Isabelle
  imports Complex_Main
begin

section \<open>Constants of the event scheduler\<close>

text \<open>
  The constants of \<^verbatim>\<open>src/index.js\<close>, lines 8 to 20. Times of day are whole minutes
  (the format \<^verbatim>\<open>hh:mm a\<close> has no finer unit), so the one-hour
  \<^verbatim>\<open>TIME_SLOT_INTERVAL\<close> is 60. Fitness values and the results of
  \<^verbatim>\<open>Math.random()\<close> are exact rationals.
\<close>

definition NUMB_OF_ELITE_EVENTS :: nat where
  "NUMB_OF_ELITE_EVENTS = 2"

definition MUTATION_RATE :: rat where
  "MUTATION_RATE = 2 / 10"

definition TOURNAMENT_SELECTION_SIZE_EVENTS :: nat where
  "TOURNAMENT_SELECTION_SIZE_EVENTS = 5"

definition TIME_SLOT_INTERVAL :: int where
  "TIME_SLOT_INTERVAL = 60"

definition POPULATION_SIZE :: nat where
  "POPULATION_SIZE = 20"

definition MAX_GENERATIONS :: nat where
  "MAX_GENERATIONS = 200"

section \<open>Values, objects and the store\<close>

text \<open>
  Every \<^verbatim>\<open>throw\<close> of the program and every failing property access is a value:
  \<open>NoAvailableRooms\<close> is the \<^verbatim>\<open>Error\<close> of \<^verbatim>\<open>getAvailableRoom\<close>,
  \<open>TypeError\<close> a property read on \<^verbatim>\<open>null\<close> or \<^verbatim>\<open>undefined\<close>,
  \<open>RangeError\<close> an \<^verbatim>\<open>Array(n)\<close> of negative length.
\<close>

datatype error = NoAvailableRooms | TypeError | RangeError

text \<open>\<^verbatim>\<open>Math.random()\<close> returns a number that is at least 0 and below 1.\<close>

typedef unit_interval = "{u :: rat. 0 \<le> u \<and> u < 1}"
  by (rule exI [of _ 0]) simp

text \<open>
  Objects live in a store and are named by their address; \<open>None\<close> stands for
  \<^verbatim>\<open>null\<close> and \<^verbatim>\<open>undefined\<close>. A time slot is a time in minutes.
\<close>

record Room =
  r_number :: string
  availabilitySchedule :: "bool option list"

record Event =
  e_id :: nat
  e_name :: string
  e_room :: "nat option"
  e_time_slot :: "int option"

record Data =
  d_rooms :: "nat list"
  d_events :: "Event list"
  EVENT_NAMES :: "string list"

record ScheduleEvents =
  s_data :: Data
  s_events :: "nat option list"
  numOfConflicts :: nat
  s_fitness :: rat
  eventNum :: nat
  isFitnessChanged :: bool

record PopulationEvents =
  p_size :: nat
  p_data :: Data
  schedules :: "nat option list"

record world =
  EVENT_START_TIME :: int
  EVENT_END_TIME :: int
  roomObj :: "nat \<Rightarrow> Room"
  roomNext :: nat
  eventObj :: "nat \<Rightarrow> Event"
  eventNext :: nat
  schedObj :: "nat \<Rightarrow> ScheduleEvents"
  schedNext :: nat
  randomSource :: "nat \<Rightarrow> unit_interval"
  randomCalls :: nat

text \<open>
  A JavaScript array read out of range is \<^verbatim>\<open>undefined\<close>; a write at or
  beyond the length extends the array, leaving holes that read as \<^verbatim>\<open>undefined\<close>.
\<close>

definition js_get :: "'a option list \<Rightarrow> nat \<Rightarrow> 'a option" where
  "js_get xs i = (if i < length xs then xs ! i else None)"

definition js_set :: "'a option list \<Rightarrow> nat \<Rightarrow> 'a option \<Rightarrow> 'a option list" where
  "js_set xs i v =
     (if i < length xs then xs[i := v] else xs @ replicate (i - length xs) None @ [v])"

text \<open>
  A counting loop whose bound does not change while it runs: the body is applied to each
  index in turn, and an exception thrown by the body leaves the loop.
\<close>

primrec for_each :: "nat list \<Rightarrow> (nat \<Rightarrow> 'a \<Rightarrow> error + 'a) \<Rightarrow> 'a \<Rightarrow> error + 'a" where
  "for_each [] body acc = Inr acc"
| "for_each (i # rest) body acc =
     (case body i acc of Inl e \<Rightarrow> Inl e | Inr acc' \<Rightarrow> for_each rest body acc')"

definition sched_update :: "nat \<Rightarrow> (ScheduleEvents \<Rightarrow> ScheduleEvents) \<Rightarrow> world \<Rightarrow> world" where
  "sched_update a f w = w\<lparr>schedObj := (schedObj w)(a := f (schedObj w a))\<rparr>"

definition event_update :: "nat \<Rightarrow> (Event \<Rightarrow> Event) \<Rightarrow> world \<Rightarrow> world" where
  "event_update a f w = w\<lparr>eventObj := (eventObj w)(a := f (eventObj w a))\<rparr>"

section \<open>Math.random\<close>

definition Math_random :: "world \<Rightarrow> rat \<times> world" where
  "Math_random w =
     (Rep_unit_interval (randomSource w (randomCalls w)), w\<lparr>randomCalls := Suc (randomCalls w)\<rparr>)"

text \<open>\<^verbatim>\<open>Math.floor(Math.random() * n)\<close>\<close>

definition random_index :: "nat \<Rightarrow> world \<Rightarrow> nat \<times> world" where
  "random_index n w = (case Math_random w of (u, w') \<Rightarrow> (nat \<lfloor>u * of_nat n\<rfloor>, w'))"

section \<open>Event and Room\<close>

text \<open>\<^verbatim>\<open>new Event(id, name)\<close>, and the two setters of lines 47 to 53.\<close>

definition new_Event :: "nat \<Rightarrow> string \<Rightarrow> world \<Rightarrow> nat \<times> world" where
  "new_Event i n w =
     (eventNext w,
      w\<lparr>eventObj := (eventObj w)(eventNext w :=
           \<lparr>e_id = i, e_name = n, e_room = None, e_time_slot = None\<rparr>),
        eventNext := Suc (eventNext w)\<rparr>)"

definition set_room :: "nat \<Rightarrow> nat option \<Rightarrow> world \<Rightarrow> world" where
  "set_room e room w = event_update e (\<lambda>ev. ev\<lparr>e_room := room\<rparr>) w"

definition set_timeSlot :: "nat \<Rightarrow> int option \<Rightarrow> world \<Rightarrow> world" where
  "set_timeSlot e timeSlot w = event_update e (\<lambda>ev. ev\<lparr>e_time_slot := timeSlot\<rparr>) w"

definition new_Room :: "string \<Rightarrow> bool option list \<Rightarrow> world \<Rightarrow> nat \<times> world" where
  "new_Room num sched w =
     (roomNext w,
      w\<lparr>roomObj := (roomObj w)(roomNext w := \<lparr>r_number = num, availabilitySchedule = sched\<rparr>),
        roomNext := Suc (roomNext w)\<rparr>)"

text \<open>
  \<^verbatim>\<open>Room.isAvailable\<close>: the index is the floor of the hours since
  \<^verbatim>\<open>EVENT_START_TIME\<close>; a negative index or one beyond the schedule reads
  \<^verbatim>\<open>undefined\<close>, which every caller takes as false. A time slot that is
  \<^verbatim>\<open>undefined\<close> has no \<^verbatim>\<open>diff\<close>.
\<close>

definition isAvailable :: "world \<Rightarrow> nat \<Rightarrow> int option \<Rightarrow> error + bool" where
  "isAvailable w room timeSlot =
     (case timeSlot of
        None \<Rightarrow> Inl TypeError
      | Some t \<Rightarrow>
          (let index = (t - EVENT_START_TIME w) div 60
           in Inr (0 \<le> index \<and>
                   js_get (availabilitySchedule (roomObj w room)) (nat index) = Some True)))"

section \<open>Data: the problem instance\<close>

fun show_nat :: "nat \<Rightarrow> string" where
  "show_nat n =
     (if n < 10 then [char_of (48 + n)] else show_nat (n div 10) @ [char_of (48 + n mod 10)])"

declare show_nat.simps [simp del]

definition default_EVENT_NAMES :: "string list" where
  "default_EVENT_NAMES =
     [''Speed Programming'', ''Speed Wiring'', ''Cyber Quiz'', ''SDP Evaluation'',
      ''Poster Designing'', ''Website Designing'', ''Database Designing'', ''Algorithm Design'']"

text \<open>
  The body of the loop of lines 89 to 101 for room \<open>i\<close>: an array of
  \<open>totalTimeSlots\<close> entries, all true (a negative length throws), whose first
  \<open>i\<close> entries are then set to false, and the new room pushed to the list.
\<close>

definition new_Data_room :: "int \<Rightarrow> nat \<Rightarrow> nat list \<times> world \<Rightarrow> error + (nat list \<times> world)" where
  "new_Data_room totalTimeSlots i acc =
     (case acc of (rooms, w) \<Rightarrow>
        if totalTimeSlots < 0 then Inl RangeError
        else
          (let availability =
                 fold (\<lambda>j s. js_set s j (Some False)) [0..<i]
                   (replicate (nat totalTimeSlots) (Some True))
           in case new_Room (''Room '' @ show_nat (i + 1)) availability w of
                (room, w') \<Rightarrow> Inr (rooms @ [room], w')))"

text \<open>
  The constructor of \<^verbatim>\<open>Data\<close>. The start and the end time arrive parsed, in
  minutes; the constructor stores them in the two global variables. An empty list of
  names is replaced by the eight default names. The events of a \<^verbatim>\<open>Data\<close> are
  only ever read, so they are kept as values.
\<close>

definition new_Data :: "int \<Rightarrow> string list \<Rightarrow> int \<Rightarrow> int \<Rightarrow> world \<Rightarrow> error + (Data \<times> world)" where
  "new_Data initialAvailableRooms eventNames startTime endTime w0 =
     (let w = w0\<lparr>EVENT_START_TIME := startTime, EVENT_END_TIME := endTime\<rparr>;
          totalTimeSlots = (EVENT_END_TIME w - EVENT_START_TIME w) div 60
      in case for_each [0..<nat initialAvailableRooms] (new_Data_room totalTimeSlots) ([], w) of
           Inl e \<Rightarrow> Inl e
         | Inr (rooms, w') \<Rightarrow>
             (let names = (if length eventNames > 0 then eventNames else default_EVENT_NAMES)
              in Inr (\<lparr>d_rooms = rooms,
                       d_events = map (\<lambda>(index, eventName).
                           \<lparr>e_id = index, e_name = eventName, e_room = None, e_time_slot = None\<rparr>)
                         (enumerate 0 names),
                       EVENT_NAMES = names\<rparr>, w')))"

section \<open>ScheduleEvents: one chromosome\<close>

definition new_ScheduleEvents :: "Data \<Rightarrow> world \<Rightarrow> nat \<times> world" where
  "new_ScheduleEvents d w =
     (schedNext w,
      w\<lparr>schedObj := (schedObj w)(schedNext w :=
           \<lparr>s_data = d, s_events = [], numOfConflicts = 0, s_fitness = - 1, eventNum = 0,
            isFitnessChanged = True\<rparr>),
        schedNext := Suc (schedNext w)\<rparr>)"

text \<open>The getter \<^verbatim>\<open>events\<close> of lines 133 to 136 marks the fitness as changed.\<close>

definition events_get :: "nat \<Rightarrow> world \<Rightarrow> nat option list \<times> world" where
  "events_get this w =
     (let w' = sched_update this (\<lambda>s. s\<lparr>isFitnessChanged := True\<rparr>) w
      in (s_events (schedObj w' this), w'))"

text \<open>
  The inner loop body of \<^verbatim>\<open>calculateFitness\<close> (lines 172 to 180), with the running
  number of conflicts \<open>n\<close>. The method \<^verbatim>\<open>equals\<close> of a time compares the
  instants; it reads a property of its argument, so an unset time slot throws.
\<close>

definition pair_conflict :: "world \<Rightarrow> nat option list \<Rightarrow> nat \<Rightarrow> nat \<Rightarrow> nat \<Rightarrow> error + nat" where
  "pair_conflict w events i j n =
     (if j \<ge> i then
        (case (js_get events i, js_get events j) of
           (Some ei, Some ej) \<Rightarrow>
             (case (e_time_slot (eventObj w ei), e_time_slot (eventObj w ej)) of
                (Some ti, Some tj) \<Rightarrow>
                  if ti = tj \<and> e_id (eventObj w ei) \<noteq> e_id (eventObj w ej) then
                    (if e_room (eventObj w ei) = e_room (eventObj w ej) then Inr (n + 1)
                     else Inr n)
                  else Inr n
              | _ \<Rightarrow> Inl TypeError)
         | _ \<Rightarrow> Inl TypeError)
      else Inr n)"

text \<open>The outer loop body (lines 168 to 180).\<close>

definition event_conflicts :: "world \<Rightarrow> nat option list \<Rightarrow> nat \<Rightarrow> nat \<Rightarrow> error + nat" where
  "event_conflicts w events i n =
     (case js_get events i of
        None \<Rightarrow> Inl TypeError
      | Some ei \<Rightarrow>
          (case e_room (eventObj w ei) of
             None \<Rightarrow> Inl TypeError
           | Some room \<Rightarrow>
               (case isAvailable w room (e_time_slot (eventObj w ei)) of
                  Inl e \<Rightarrow> Inl e
                | Inr available \<Rightarrow>
                    for_each [0..<length events] (pair_conflict w events i)
                      (if \<not> available then n + 1 else n))))"

text \<open>
  \<^verbatim>\<open>calculateFitness\<close>: the counter is reset, the array is read through the getter,
  and the loops count. The loops read nothing of the schedule but the local array, so the
  count is written to \<^verbatim>\<open>_numOfConflicts\<close> once, when they end.
\<close>

definition calculateFitness :: "nat \<Rightarrow> world \<Rightarrow> error + (rat \<times> world)" where
  "calculateFitness this w0 =
     (let w1 = sched_update this (\<lambda>s. s\<lparr>numOfConflicts := 0\<rparr>) w0
      in case events_get this w1 of
           (events, w2) \<Rightarrow>
             (case for_each [0..<length events] (event_conflicts w2 events) 0 of
                Inl e \<Rightarrow> Inl e
              | Inr n \<Rightarrow>
                  Inr (1 / (1 * of_nat (n + 1)),
                       sched_update this (\<lambda>s. s\<lparr>numOfConflicts := n\<rparr>) w2)))"

text \<open>The getter \<^verbatim>\<open>fitness\<close> of lines 142 to 149.\<close>

definition fitness_get :: "nat \<Rightarrow> world \<Rightarrow> error + (rat \<times> world)" where
  "fitness_get this w =
     (if isFitnessChanged (schedObj w this) then
        (case calculateFitness this w of
           Inl e \<Rightarrow> Inl e
         | Inr (f, w1) \<Rightarrow>
             (let w2 = sched_update this (\<lambda>s. s\<lparr>s_fitness := f\<rparr>) w1;
                  w3 = sched_update this (\<lambda>s. s\<lparr>isFitnessChanged := False\<rparr>) w2
              in Inr (s_fitness (schedObj w3 this), w3)))
      else Inr (s_fitness (schedObj w this), w))"

text \<open>\<^verbatim>\<open>getRandomTimeSlot\<close>: the loop of lines 190 to 193, then the random pick.\<close>

function availableTimeSlots_loop :: "int \<Rightarrow> int \<Rightarrow> int list \<Rightarrow> int list" where
  "availableTimeSlots_loop currentTime endTime slots =
     (if currentTime < endTime
      then availableTimeSlots_loop (currentTime + TIME_SLOT_INTERVAL) endTime (slots @ [currentTime])
      else slots)"
  by pat_completeness auto
termination
  by (relation "measure (\<lambda>(c, e, s). nat (e - c))") (auto simp: TIME_SLOT_INTERVAL_def)

declare availableTimeSlots_loop.simps [simp del]

definition getRandomTimeSlot :: "world \<Rightarrow> int option \<times> world" where
  "getRandomTimeSlot w =
     (let availableTimeSlots = availableTimeSlots_loop (EVENT_START_TIME w) (EVENT_END_TIME w) []
      in case random_index (length availableTimeSlots) w of
           (k, w') \<Rightarrow> (js_get (map Some availableTimeSlots) k, w'))"

text \<open>
  \<^verbatim>\<open>getAvailableRoom\<close>: the rooms are filtered by \<^verbatim>\<open>isAvailable\<close>, which
  throws for an unset time slot as soon as there is a room to ask.
\<close>

fun filter_available :: "world \<Rightarrow> int option \<Rightarrow> nat list \<Rightarrow> error + nat list" where
  "filter_available w timeSlot [] = Inr []"
| "filter_available w timeSlot (room # rooms) =
     (case isAvailable w room timeSlot of
        Inl e \<Rightarrow> Inl e
      | Inr available \<Rightarrow>
          (case filter_available w timeSlot rooms of
             Inl e \<Rightarrow> Inl e
           | Inr rest \<Rightarrow> Inr (if available then room # rest else rest)))"

definition getAvailableRoom :: "nat \<Rightarrow> int option \<Rightarrow> world \<Rightarrow> error + (nat option \<times> world)" where
  "getAvailableRoom this timeSlot w =
     (case filter_available w timeSlot (d_rooms (s_data (schedObj w this))) of
        Inl e \<Rightarrow> Inl e
      | Inr availableRooms \<Rightarrow>
          if length availableRooms = 0 then Inl NoAvailableRooms
          else (case random_index (length availableRooms) w of
                  (k, w') \<Rightarrow> Inr (js_get (map Some availableRooms) k, w')))"

text \<open>\<^verbatim>\<open>initialize\<close>: one round of the loop of lines 152 to 158, and the loop.\<close>

definition initialize_step :: "nat \<Rightarrow> nat \<Rightarrow> world \<Rightarrow> error + world" where
  "initialize_step this i w =
     (case new_Event (eventNum (schedObj w this)) (e_name (d_events (s_data (schedObj w this)) ! i)) w of
        (newEvent, w1) \<Rightarrow>
          (let w2 = sched_update this (\<lambda>s. s\<lparr>eventNum := eventNum s + 1\<rparr>) w1
           in case getRandomTimeSlot w2 of
                (timeSlot, w3) \<Rightarrow>
                  (let w4 = set_timeSlot newEvent timeSlot w3
                   in case getAvailableRoom this (e_time_slot (eventObj w4 newEvent)) w4 of
                        Inl e \<Rightarrow> Inl e
                      | Inr (room, w5) \<Rightarrow>
                          Inr (sched_update this (\<lambda>s. s\<lparr>s_events := s_events s @ [Some newEvent]\<rparr>)
                                 (set_room newEvent room w5)))))"

definition initialize :: "nat \<Rightarrow> world \<Rightarrow> error + world" where
  "initialize this w =
     for_each [0..<length (d_events (s_data (schedObj w this)))] (initialize_step this) w"

section \<open>PopulationEvents\<close>

text \<open>
  The constructor of a population builds \<open>sz\<close> schedules, one after the other, each
  initialized.
\<close>

definition new_PopulationEvents_step ::
    "Data \<Rightarrow> nat \<Rightarrow> nat option list \<times> world \<Rightarrow> error + (nat option list \<times> world)" where
  "new_PopulationEvents_step d i acc =
     (case acc of (scheds, w) \<Rightarrow>
        (case new_ScheduleEvents d w of
           (a, w1) \<Rightarrow>
             (case initialize a w1 of
                Inl e \<Rightarrow> Inl e
              | Inr w2 \<Rightarrow> Inr (scheds @ [Some a], w2))))"

definition new_PopulationEvents :: "nat \<Rightarrow> Data \<Rightarrow> world \<Rightarrow> error + (PopulationEvents \<times> world)" where
  "new_PopulationEvents sz d w =
     (case for_each [0..<sz] (new_PopulationEvents_step d) ([], w) of
        Inl e \<Rightarrow> Inl e
      | Inr (scheds, w') \<Rightarrow> Inr (\<lparr>p_size = sz, p_data = d, schedules = scheds\<rparr>, w'))"

section \<open>Sorting by fitness\<close>

text \<open>
  \<^verbatim>\<open>schedules.sort((a, b) => b.fitness - a.fitness)\<close>. The sort of the language is
  stable, leaves \<^verbatim>\<open>undefined\<close> entries at the end without comparing them, and
  compares every other entry at least once when there are two or more of them. A
  comparison reads the getter \<^verbatim>\<open>fitness\<close> of both sides, which writes to that
  schedule alone; after the first read of every entry the getters return the stored
  values. So the entries are read in turn and then ordered by falling fitness.
\<close>

fun refresh_fitness :: "nat list \<Rightarrow> world \<Rightarrow> error + world" where
  "refresh_fitness [] w = Inr w"
| "refresh_fitness (a # rest) w =
     (case fitness_get a w of Inl e \<Rightarrow> Inl e | Inr (f, w1) \<Rightarrow> refresh_fitness rest w1)"

definition sort_by_fitness :: "nat option list \<Rightarrow> world \<Rightarrow> error + (nat option list \<times> world)" where
  "sort_by_fitness xs w =
     (let defined = List.map_filter (\<lambda>x. x) xs;
          holes = filter (\<lambda>x. x = None) xs
      in if length defined < 2 then Inr (map Some defined @ holes, w)
         else
           (case refresh_fitness defined w of
              Inl e \<Rightarrow> Inl e
            | Inr w1 \<Rightarrow>
                Inr (map Some (sort_key (\<lambda>a. - s_fitness (schedObj w1 a)) defined) @ holes, w1)))"

section \<open>GeneticAlgorithmEvents\<close>

text \<open>
  One round of the loop of \<^verbatim>\<open>_crossoverSchedule\<close> (lines 270 to 276): the coin, the
  assignment (its left side reads \<^verbatim>\<open>crossoverSchedule.events\<close>, then its right
  side reads the parent's), and the next test of the loop, which reads
  \<^verbatim>\<open>crossoverSchedule.events\<close> again.
\<close>

definition crossover_step :: "nat \<Rightarrow> nat option \<Rightarrow> nat option \<Rightarrow> nat \<Rightarrow> world \<Rightarrow> error + world" where
  "crossover_step crossoverSched schedule1 schedule2 i w =
     (case Math_random w of
        (u, w1) \<Rightarrow>
          (case events_get crossoverSched w1 of
             (target, w2) \<Rightarrow>
               (case (if u > 1 / 2 then schedule1 else schedule2) of
                  None \<Rightarrow> Inl TypeError
                | Some parent \<Rightarrow>
                    (case events_get parent w2 of
                       (pevents, w3) \<Rightarrow>
                         (let w4 = sched_update crossoverSched
                                     (\<lambda>s. s\<lparr>s_events := js_set (s_events s) i (js_get pevents i)\<rparr>) w3
                          in Inr (snd (events_get crossoverSched w4)))))))"

definition crossoverSchedule :: "nat option \<Rightarrow> nat option \<Rightarrow> world \<Rightarrow> error + (nat \<times> world)" where
  "crossoverSchedule schedule1 schedule2 w =
     (case schedule1 of
        None \<Rightarrow> Inl TypeError
      | Some s1 \<Rightarrow>
          (case new_ScheduleEvents (s_data (schedObj w s1)) w of
             (c, w1) \<Rightarrow>
               (case initialize c w1 of
                  Inl e \<Rightarrow> Inl e
                | Inr w2 \<Rightarrow>
                    (case events_get c w2 of
                       (evs, w3) \<Rightarrow>
                         (case for_each [0..<length evs] (crossover_step c schedule1 schedule2) w3 of
                            Inl e \<Rightarrow> Inl e
                          | Inr w4 \<Rightarrow> Inr (c, w4))))))"

text \<open>
  One round of the loop of \<^verbatim>\<open>_mutateSchedule\<close> (lines 283 to 287), ending with the
  next test of the loop, which reads \<^verbatim>\<open>mutateSchedule.events\<close>.
\<close>

definition mutate_step :: "nat \<Rightarrow> nat \<Rightarrow> nat \<Rightarrow> world \<Rightarrow> error + world" where
  "mutate_step mutateSched schedule i w =
     (case Math_random w of
        (u, w1) \<Rightarrow>
          (if MUTATION_RATE > u then
             (case events_get mutateSched w1 of
                (target, w2) \<Rightarrow>
                  (case events_get schedule w2 of
                     (sevents, w3) \<Rightarrow>
                       (let w4 = sched_update mutateSched
                                   (\<lambda>s. s\<lparr>s_events := js_set (s_events s) i (js_get sevents i)\<rparr>) w3
                        in Inr (snd (events_get mutateSched w4)))))
           else Inr (snd (events_get mutateSched w1))))"

definition mutateSchedule :: "nat option \<Rightarrow> world \<Rightarrow> error + (nat \<times> world)" where
  "mutateSchedule mutateSched w =
     (case mutateSched of
        None \<Rightarrow> Inl TypeError
      | Some m \<Rightarrow>
          (case new_ScheduleEvents (s_data (schedObj w m)) w of
             (schedule, w1) \<Rightarrow>
               (case initialize schedule w1 of
                  Inl e \<Rightarrow> Inl e
                | Inr w2 \<Rightarrow>
                    (case events_get m w2 of
                       (evs, w3) \<Rightarrow>
                         (case for_each [0..<length evs] (mutate_step m schedule) w3 of
                            Inl e \<Rightarrow> Inl e
                          | Inr w4 \<Rightarrow> Inr (m, w4))))))"

text \<open>\<^verbatim>\<open>_selectTournamentPopulation\<close> (lines 291 to 302).\<close>

definition tournament_step ::
    "PopulationEvents \<Rightarrow> nat \<Rightarrow> PopulationEvents \<times> world \<Rightarrow> error + (PopulationEvents \<times> world)" where
  "tournament_step pop i acc =
     (case acc of (tournamentPop, w) \<Rightarrow>
        (case random_index POPULATION_SIZE w of
           (k, w1) \<Rightarrow>
             Inr (tournamentPop\<lparr>schedules := schedules tournamentPop @ [js_get (schedules pop) k]\<rparr>, w1)))"

definition selectTournamentPopulation ::
    "PopulationEvents \<Rightarrow> world \<Rightarrow> error + (PopulationEvents \<times> world)" where
  "selectTournamentPopulation pop w =
     (case new_PopulationEvents 0 (p_data pop) w of
        Inl e \<Rightarrow> Inl e
      | Inr (tournamentPop, w0) \<Rightarrow>
          (case for_each [0..<TOURNAMENT_SELECTION_SIZE_EVENTS] (tournament_step pop) (tournamentPop, w0) of
             Inl e \<Rightarrow> Inl e
           | Inr (tp, w1) \<Rightarrow>
               (case sort_by_fitness (schedules tp) w1 of
                  Inl e \<Rightarrow> Inl e
                | Inr (ordered, w2) \<Rightarrow> Inr (tp\<lparr>schedules := ordered\<rparr>, w2))))"

text \<open>\<^verbatim>\<open>_crossoverPopulation\<close> (lines 241 to 258): the elites, then the children.\<close>

definition crossoverPopulation_step ::
    "PopulationEvents \<Rightarrow> nat \<Rightarrow> PopulationEvents \<times> world \<Rightarrow> error + (PopulationEvents \<times> world)" where
  "crossoverPopulation_step pop i acc =
     (case acc of (crossoverPop, w) \<Rightarrow>
        (case selectTournamentPopulation pop w of
           Inl e \<Rightarrow> Inl e
         | Inr (t1, w1) \<Rightarrow>
             (case selectTournamentPopulation pop w1 of
                Inl e \<Rightarrow> Inl e
              | Inr (t2, w2) \<Rightarrow>
                  (case crossoverSchedule (js_get (schedules t1) 0) (js_get (schedules t2) 0) w2 of
                     Inl e \<Rightarrow> Inl e
                   | Inr (child, w3) \<Rightarrow>
                       Inr (crossoverPop\<lparr>schedules := schedules crossoverPop @ [Some child]\<rparr>, w3)))))"

definition crossoverPopulation :: "PopulationEvents \<Rightarrow> world \<Rightarrow> error + (PopulationEvents \<times> world)" where
  "crossoverPopulation pop w =
     (case new_PopulationEvents 0 (p_data pop) w of
        Inl e \<Rightarrow> Inl e
      | Inr (crossoverPop, w0) \<Rightarrow>
          (let elites = fold (\<lambda>i cp. cp\<lparr>schedules := schedules cp @ [js_get (schedules pop) i]\<rparr>)
                          [0..<NUMB_OF_ELITE_EVENTS] crossoverPop
           in for_each [NUMB_OF_ELITE_EVENTS..<POPULATION_SIZE] (crossoverPopulation_step pop)
                (elites, w0)))"

text \<open>\<^verbatim>\<open>_mutatePopulation\<close> (lines 260 to 266) and \<^verbatim>\<open>evolve\<close>.\<close>

definition mutatePopulation_step :: "PopulationEvents \<Rightarrow> nat \<Rightarrow> world \<Rightarrow> error + world" where
  "mutatePopulation_step population i w =
     (case mutateSchedule (js_get (schedules population) i) w of
        Inl e \<Rightarrow> Inl e
      | Inr (m, w1) \<Rightarrow> Inr w1)"

definition mutatePopulation :: "PopulationEvents \<Rightarrow> world \<Rightarrow> error + (PopulationEvents \<times> world)" where
  "mutatePopulation population w =
     (case for_each [NUMB_OF_ELITE_EVENTS..<POPULATION_SIZE] (mutatePopulation_step population) w of
        Inl e \<Rightarrow> Inl e
      | Inr w' \<Rightarrow> Inr (population, w'))"

definition evolve :: "PopulationEvents \<Rightarrow> world \<Rightarrow> error + (PopulationEvents \<times> world)" where
  "evolve population w =
     (case crossoverPopulation population w of
        Inl e \<Rightarrow> Inl e
      | Inr (crossoverPop, w1) \<Rightarrow> mutatePopulation crossoverPop w1)"

section \<open>The search loop of the request handler\<close>

text \<open>
  One generation (lines 380 to 382): the population is evolved and sorted again.
\<close>

definition next_generation :: "PopulationEvents \<Rightarrow> world \<Rightarrow> error + (PopulationEvents \<times> world)" where
  "next_generation population w =
     (case evolve population w of
        Inl e \<Rightarrow> Inl e
      | Inr (p, w1) \<Rightarrow>
          (case sort_by_fitness (schedules p) w1 of
             Inl e \<Rightarrow> Inl e
           | Inr (ordered, w2) \<Rightarrow> Inr (p\<lparr>schedules := ordered\<rparr>, w2)))"

text \<open>
  The loop of lines 379 to 383; its test reads the fitness of the first schedule. The
  result is the generation number and the population when the loop ends.
\<close>

function search_loop ::
    "nat \<Rightarrow> PopulationEvents \<Rightarrow> world \<Rightarrow> error + ((nat \<times> PopulationEvents) \<times> world)" where
  "search_loop generationNumber population w =
     (case js_get (schedules population) 0 of
        None \<Rightarrow> Inl TypeError
      | Some first \<Rightarrow>
          (case fitness_get first w of
             Inl e \<Rightarrow> Inl e
           | Inr (f, w1) \<Rightarrow>
               if f \<noteq> 1 \<and> generationNumber < MAX_GENERATIONS then
                 (case next_generation population w1 of
                    Inl e \<Rightarrow> Inl e
                  | Inr (p, w2) \<Rightarrow> search_loop (generationNumber + 1) p w2)
               else Inr ((generationNumber, population), w1)))"
  by pat_completeness auto
termination
  by (relation "measure (\<lambda>(g, p, w). MAX_GENERATIONS - g)") auto

declare search_loop.simps [simp del]

text \<open>
  The handler from the construction of the data to the best schedule (lines 372 to 385):
  the result is the generation number, the best schedule and its fitness.
\<close>

definition best_schedule ::
    "int \<Rightarrow> string list \<Rightarrow> int \<Rightarrow> int \<Rightarrow> world \<Rightarrow> error + ((nat \<times> nat \<times> rat) \<times> world)" where
  "best_schedule numRooms eventNames startTime endTime w =
     (case new_Data numRooms eventNames startTime endTime w of
        Inl e \<Rightarrow> Inl e
      | Inr (d, w1) \<Rightarrow>
          (case new_PopulationEvents POPULATION_SIZE d w1 of
             Inl e \<Rightarrow> Inl e
           | Inr (p0, w2) \<Rightarrow>
               (case sort_by_fitness (schedules p0) w2 of
                  Inl e \<Rightarrow> Inl e
                | Inr (ordered, w3) \<Rightarrow>
                    (case search_loop 0 (p0\<lparr>schedules := ordered\<rparr>) w3 of
                       Inl e \<Rightarrow> Inl e
                     | Inr ((generationNumber, population), w4) \<Rightarrow>
                         (case js_get (schedules population) 0 of
                            None \<Rightarrow> Inl TypeError
                          | Some bestSchedule \<Rightarrow>
                              (case fitness_get bestSchedule w4 of
                                 Inl e \<Rightarrow> Inl e
                               | Inr (f, w5) \<Rightarrow> Inr ((generationNumber, bestSchedule, f), w5)))))))"

section \<open>Vocabulary of the properties\<close>

text \<open>
  The conflicts of a schedule, as a count over its array of events: an entry is assigned
  when it is an Event with a room and a time slot; an event is in an unavailable room when
  \<^verbatim>\<open>isAvailable\<close> answers false for its slot; two events are double booked when they
  have different ids, the same room and the same time slot.
\<close>

definition assigned :: "world \<Rightarrow> nat option \<Rightarrow> bool" where
  "assigned w x = (case x of None \<Rightarrow> False
     | Some e \<Rightarrow> e_room (eventObj w e) \<noteq> None \<and> e_time_slot (eventObj w e) \<noteq> None)"

definition event_of :: "world \<Rightarrow> nat option list \<Rightarrow> nat \<Rightarrow> Event" where
  "event_of w events i = eventObj w (the (events ! i))"

definition room_unavailable :: "world \<Rightarrow> Event \<Rightarrow> bool" where
  "room_unavailable w ev = (isAvailable w (the (e_room ev)) (e_time_slot ev) = Inr False)"

definition double_booked :: "Event \<Rightarrow> Event \<Rightarrow> bool" where
  "double_booked a b = (e_id a \<noteq> e_id b \<and> e_room a = e_room b \<and> e_time_slot a = e_time_slot b)"

text \<open>
  The positions with an unavailable room, the pairs of positions \<open>i < j\<close> that are double
  booked, the number of conflicts, and the fitness that belongs to it.
\<close>

definition unavailable_events :: "world \<Rightarrow> nat option list \<Rightarrow> nat set" where
  "unavailable_events w events =
     {i. i < length events \<and> room_unavailable w (event_of w events i)}"

definition double_bookings :: "world \<Rightarrow> nat option list \<Rightarrow> (nat \<times> nat) set" where
  "double_bookings w events =
     {(i, j). i < j \<and> j < length events \<and>
        double_booked (event_of w events i) (event_of w events j)}"

definition conflict_count :: "world \<Rightarrow> nat option list \<Rightarrow> nat" where
  "conflict_count w events = card (unavailable_events w events) + card (double_bookings w events)"

definition fitness_of :: "world \<Rightarrow> nat \<Rightarrow> rat" where
  "fitness_of w a = 1 / (1 + of_nat (conflict_count w (s_events (schedObj w a))))"

text \<open>
  What an operation leaves alone. Addresses below \<open>eventNext\<close> and \<open>schedNext\<close> are the
  objects that exist. The cache of schedule \<open>a\<close> is coherent when it is marked as changed
  or holds the fitness of the current assignments. Two stores are the same store when the
  times, the rooms and the random source agree and the objects that existed are kept, the
  Events with all their fields. A frame \<open>M\<close> allows the arrays of the schedules in \<open>M\<close>
  to change and keeps every other array and the coherence of its cache.
\<close>

definition allocated :: "world \<Rightarrow> nat option list \<Rightarrow> bool" where
  "allocated w evs = list_all (\<lambda>x. case x of None \<Rightarrow> False | Some e \<Rightarrow> e < eventNext w) evs"

definition coherent :: "world \<Rightarrow> nat \<Rightarrow> bool" where
  "coherent w a = (isFitnessChanged (schedObj w a) \<or> s_fitness (schedObj w a) = fitness_of w a)"

definition same_store :: "world \<Rightarrow> world \<Rightarrow> bool" where
  "same_store w w' =
     (EVENT_START_TIME w' = EVENT_START_TIME w \<and> EVENT_END_TIME w' = EVENT_END_TIME w \<and>
      roomObj w' = roomObj w \<and> roomNext w' = roomNext w \<and> randomSource w' = randomSource w \<and>
      eventNext w \<le> eventNext w' \<and> (\<forall>e<eventNext w. eventObj w' e = eventObj w e) \<and>
      schedNext w \<le> schedNext w' \<and>
      (\<forall>a<schedNext w. s_data (schedObj w' a) = s_data (schedObj w a)))"

definition frame :: "nat set \<Rightarrow> world \<Rightarrow> world \<Rightarrow> bool" where
  "frame M w w' =
     (same_store w w' \<and>
      (\<forall>a<schedNext w. a \<notin> M \<longrightarrow>
         s_events (schedObj w' a) = s_events (schedObj w a) \<and>
         (allocated w (s_events (schedObj w a)) \<longrightarrow> coherent w a \<longrightarrow> coherent w' a)))"

text \<open>Steps that write nothing but the cached fitness, its flag and the conflict counter.\<close>

definition cache_step :: "nat \<Rightarrow> world \<Rightarrow> world \<Rightarrow> bool" where
  "cache_step a w w' =
     (w' = w\<lparr>schedObj := schedObj w'\<rparr> \<and> (\<forall>b. b \<noteq> a \<longrightarrow> schedObj w' b = schedObj w b) \<and>
      s_data (schedObj w' a) = s_data (schedObj w a) \<and>
      s_events (schedObj w' a) = s_events (schedObj w a) \<and>
      eventNum (schedObj w' a) = eventNum (schedObj w a))"

definition caches_only :: "world \<Rightarrow> world \<Rightarrow> bool" where
  "caches_only w w' =
     (w' = w\<lparr>schedObj := schedObj w'\<rparr> \<and>
      (\<forall>b. s_data (schedObj w' b) = s_data (schedObj w b) \<and>
           s_events (schedObj w' b) = s_events (schedObj w b) \<and>
           eventNum (schedObj w' b) = eventNum (schedObj w b)))"

text \<open>
  A well-formed entry at position \<open>i\<close> is an existing Event with id \<open>i\<close>, a room and a
  time slot; a fresh entry is moreover an Event created since the store \<open>w0\<close>.
\<close>

definition entry_ok :: "world \<Rightarrow> nat \<Rightarrow> nat option \<Rightarrow> bool" where
  "entry_ok w i x =
     (case x of None \<Rightarrow> False
      | Some e \<Rightarrow> e < eventNext w \<and> e_id (eventObj w e) = i \<and>
          e_room (eventObj w e) \<noteq> None \<and> e_time_slot (eventObj w e) \<noteq> None)"

definition entries_ok :: "world \<Rightarrow> nat option list \<Rightarrow> bool" where
  "entries_ok w evs = (\<forall>i<length evs. entry_ok w i (evs ! i))"

definition fresh_entry :: "world \<Rightarrow> world \<Rightarrow> nat \<Rightarrow> nat option \<Rightarrow> bool" where
  "fresh_entry w0 w i x =
     (case x of None \<Rightarrow> False | Some e \<Rightarrow> eventNext w0 \<le> e \<and> entry_ok w i x)"

text \<open>The invariant of the loop of \<^verbatim>\<open>initialize\<close> after \<open>k\<close> rounds.\<close>

definition init_inv :: "nat \<Rightarrow> world \<Rightarrow> nat \<Rightarrow> world \<Rightarrow> bool" where
  "init_inv a w1 k w =
     (EVENT_START_TIME w = EVENT_START_TIME w1 \<and> EVENT_END_TIME w = EVENT_END_TIME w1 \<and>
      roomObj w = roomObj w1 \<and> roomNext w = roomNext w1 \<and> randomSource w = randomSource w1 \<and>
      schedNext w = schedNext w1 \<and> (\<forall>b. b \<noteq> a \<longrightarrow> schedObj w b = schedObj w1 b) \<and>
      s_data (schedObj w a) = s_data (schedObj w1 a) \<and>
      isFitnessChanged (schedObj w a) = isFitnessChanged (schedObj w1 a) \<and>
      eventNext w1 \<le> eventNext w \<and> (\<forall>e<eventNext w1. eventObj w e = eventObj w1 e) \<and>
      eventNum (schedObj w a) = k \<and> length (s_events (schedObj w a)) = k \<and>
      (\<forall>i<k. fresh_entry w1 w i (s_events (schedObj w a) ! i)))"

text \<open>
  A stronger frame for the operations that build a schedule: a schedule outside \<open>M\<close> is
  unchanged, or only its flag was raised by the getter \<^verbatim>\<open>events\<close>.
\<close>

definition touches :: "nat set \<Rightarrow> world \<Rightarrow> world \<Rightarrow> bool" where
  "touches M w w' =
     (EVENT_START_TIME w' = EVENT_START_TIME w \<and> EVENT_END_TIME w' = EVENT_END_TIME w \<and>
      roomObj w' = roomObj w \<and> roomNext w' = roomNext w \<and> randomSource w' = randomSource w \<and>
      eventNext w \<le> eventNext w' \<and> (\<forall>e<eventNext w. eventObj w' e = eventObj w e) \<and>
      schedNext w \<le> schedNext w' \<and>
      (\<forall>b<schedNext w. s_data (schedObj w' b) = s_data (schedObj w b) \<and>
         (b \<notin> M \<longrightarrow> schedObj w' b = schedObj w b \<or>
                    schedObj w' b = (schedObj w b)\<lparr>isFitnessChanged := True\<rparr>)))"

definition added_schedule :: "Data \<Rightarrow> nat \<Rightarrow> world \<Rightarrow> world \<Rightarrow> bool" where
  "added_schedule d a w w' =
     (a = schedNext w \<and> schedNext w' = Suc a \<and> touches {} w w' \<and>
      s_data (schedObj w' a) = d \<and> isFitnessChanged (schedObj w' a) \<and>
      length (s_events (schedObj w' a)) = length (d_events d) \<and>
      (\<forall>i<length (d_events d). fresh_entry w w' i (s_events (schedObj w' a) ! i)))"

text \<open>
  The invariants of the loops of \<^verbatim>\<open>_crossoverSchedule\<close> and \<^verbatim>\<open>_mutateSchedule\<close>:
  after \<open>k\<close> rounds the first \<open>k\<close> positions of the child hold what a parent holds there;
  a position of the mutated schedule holds what it held or what the fresh schedule holds.
\<close>

definition from_parent :: "world \<Rightarrow> nat option \<Rightarrow> nat option \<Rightarrow> nat \<Rightarrow> nat option \<Rightarrow> bool" where
  "from_parent w s1 s2 i x =
     (\<exists>p. (s1 = Some p \<or> s2 = Some p) \<and> x = js_get (s_events (schedObj w p)) i)"

definition cross_inv :: "nat \<Rightarrow> nat option \<Rightarrow> nat option \<Rightarrow> world \<Rightarrow> nat \<Rightarrow> world \<Rightarrow> bool" where
  "cross_inv c s1 s2 w0 k w =
     (touches {c} w0 w \<and> eventNext w = eventNext w0 \<and> eventObj w = eventObj w0 \<and>
      schedNext w = schedNext w0 \<and>
      (\<forall>b. b \<noteq> c \<longrightarrow> s_events (schedObj w b) = s_events (schedObj w0 b)) \<and>
      s_data (schedObj w c) = s_data (schedObj w0 c) \<and> isFitnessChanged (schedObj w c) \<and>
      length (s_events (schedObj w c)) = length (s_events (schedObj w0 c)) \<and>
      (\<forall>i<k. from_parent w0 s1 s2 i (s_events (schedObj w c) ! i)))"

definition mut_inv :: "nat \<Rightarrow> nat \<Rightarrow> world \<Rightarrow> nat \<Rightarrow> world \<Rightarrow> bool" where
  "mut_inv m t w0 k w =
     (touches {m} w0 w \<and> eventNext w = eventNext w0 \<and> eventObj w = eventObj w0 \<and>
      schedNext w = schedNext w0 \<and>
      (\<forall>b. b \<noteq> m \<longrightarrow> s_events (schedObj w b) = s_events (schedObj w0 b)) \<and>
      s_data (schedObj w m) = s_data (schedObj w0 m) \<and> isFitnessChanged (schedObj w m) \<and>
      length (s_events (schedObj w m)) = length (s_events (schedObj w0 m)) \<and>
      (\<forall>i<length (s_events (schedObj w0 m)).
          s_events (schedObj w m) ! i = s_events (schedObj w0 m) ! i \<or>
          s_events (schedObj w m) ! i = js_get (s_events (schedObj w0 t)) i))"

definition fresh_schedule :: "Data \<Rightarrow> nat \<Rightarrow> world \<Rightarrow> world \<Rightarrow> bool" where
  "fresh_schedule d a w w' =
     (a = schedNext w \<and> s_data (schedObj w' a) = d \<and> isFitnessChanged (schedObj w' a) \<and>
      length (s_events (schedObj w' a)) = length (d_events d) \<and>
      (\<forall>i<length (d_events d). fresh_entry w w' i (s_events (schedObj w' a) ! i)))"

text \<open>
  A quiet step allocates nothing and changes no array: it only reads fitness values. The
  picks of a tournament are entries of the population.
\<close>

definition quiet :: "world \<Rightarrow> world \<Rightarrow> bool" where
  "quiet w w' =
     (frame {} w w' \<and> schedNext w' = schedNext w \<and> eventNext w' = eventNext w \<and>
      eventObj w' = eventObj w \<and>
      (\<forall>b. s_events (schedObj w' b) = s_events (schedObj w b) \<and>
           s_data (schedObj w' b) = s_data (schedObj w b)))"

definition picks :: "PopulationEvents \<Rightarrow> nat option set" where
  "picks pop = {js_get (schedules pop) k | k. k < POPULATION_SIZE}"

definition tour_inv :: "PopulationEvents \<Rightarrow> world \<Rightarrow> nat \<Rightarrow> PopulationEvents \<times> world \<Rightarrow> bool" where
  "tour_inv pop w k acc =
     (quiet w (snd acc) \<and> length (schedules (fst acc)) = k \<and>
      set (schedules (fst acc)) \<subseteq> picks pop \<and> p_data (fst acc) = p_data pop)"

text \<open>The invariants of the loops of \<^verbatim>\<open>_crossoverPopulation\<close> and \<^verbatim>\<open>_mutatePopulation\<close>.\<close>

definition pop_alloc :: "world \<Rightarrow> PopulationEvents \<Rightarrow> bool" where
  "pop_alloc w pop = (\<forall>a. Some a \<in> set (schedules pop) \<longrightarrow> a < schedNext w)"

definition cpop_inv :: "PopulationEvents \<Rightarrow> world \<Rightarrow> nat \<Rightarrow> PopulationEvents \<times> world \<Rightarrow> bool" where
  "cpop_inv pop w0 k acc =
     (frame {} w0 (snd acc) \<and> schedNext w0 \<le> schedNext (snd acc) \<and>
      length (schedules (fst acc)) = k \<and>
      take NUMB_OF_ELITE_EVENTS (schedules (fst acc)) =
        [js_get (schedules pop) 0, js_get (schedules pop) 1] \<and>
      (\<forall>j. NUMB_OF_ELITE_EVENTS \<le> j \<and> j < k \<longrightarrow>
         (\<exists>c. schedules (fst acc) ! j = Some c \<and> schedNext w0 \<le> c \<and> c < schedNext (snd acc))))"

definition mpop_inv :: "nat \<Rightarrow> world \<Rightarrow> nat \<Rightarrow> world \<Rightarrow> bool" where
  "mpop_inv lo w0 k w = (frame {a. lo \<le> a} w0 w \<and> schedNext w0 \<le> schedNext w)"

text \<open>
  A well-formed schedule of the data \<open>D\<close> exists, has one well-formed entry for each event
  of \<open>D\<close> and a coherent cache. A well-formed population has \<open>POPULATION_SIZE\<close> such
  schedules. It is sorted best first when every cache is valid and the first schedule has
  the largest fitness.
\<close>

definition sched_ok :: "Data \<Rightarrow> world \<Rightarrow> nat \<Rightarrow> bool" where
  "sched_ok D w a =
     (a < schedNext w \<and> s_data (schedObj w a) = D \<and>
      length (s_events (schedObj w a)) = length (d_events D) \<and>
      entries_ok w (s_events (schedObj w a)) \<and> coherent w a)"

definition members_ok :: "Data \<Rightarrow> world \<Rightarrow> nat option list \<Rightarrow> bool" where
  "members_ok D w xs = (\<forall>x\<in>set xs. \<exists>a. x = Some a \<and> sched_ok D w a)"

definition pop_ok :: "Data \<Rightarrow> world \<Rightarrow> PopulationEvents \<Rightarrow> bool" where
  "pop_ok D w pop = (length (schedules pop) = POPULATION_SIZE \<and> members_ok D w (schedules pop))"

definition best_first :: "world \<Rightarrow> PopulationEvents \<Rightarrow> bool" where
  "best_first w pop =
     (\<exists>first. js_get (schedules pop) 0 = Some first \<and>
        (\<forall>a. Some a \<in> set (schedules pop) \<longrightarrow>
           \<not> isFitnessChanged (schedObj w a) \<and> s_fitness (schedObj w a) = fitness_of w a \<and>
           fitness_of w a \<le> fitness_of w first))"

text \<open>
  The day has a time slot, and at every time slot of the day some room of the data is
  available: then \<^verbatim>\<open>getAvailableRoom\<close> never throws.
\<close>

definition feasible :: "Data \<Rightarrow> world \<Rightarrow> bool" where
  "feasible D w =
     (availableTimeSlots_loop (EVENT_START_TIME w) (EVENT_END_TIME w) [] \<noteq> [] \<and>
      (\<forall>t\<in>set (availableTimeSlots_loop (EVENT_START_TIME w) (EVENT_END_TIME w) []).
          \<exists>r\<in>set (d_rooms D). isAvailable w r (Some t) = Inr True))"

text \<open>
  The schedules of a population and the best fitness among them. The trace of the search
  loop lists the population and the store at every test of the loop, so it follows
  \<open>search_loop\<close> step by step; the trace of a run starts as the handler does.
\<close>

definition members :: "PopulationEvents \<Rightarrow> nat set" where
  "members pop = {a. Some a \<in> set (schedules pop)}"

definition best_fitness :: "world \<Rightarrow> PopulationEvents \<Rightarrow> rat" where
  "best_fitness w pop = Max (fitness_of w ` members pop)"

function search_trace :: "nat \<Rightarrow> PopulationEvents \<Rightarrow> world \<Rightarrow> (PopulationEvents \<times> world) list" where
  "search_trace generationNumber population w =
     (case js_get (schedules population) 0 of
        None \<Rightarrow> [(population, w)]
      | Some first \<Rightarrow>
          (case fitness_get first w of
             Inl e \<Rightarrow> [(population, w)]
           | Inr (f, w1) \<Rightarrow>
               if f \<noteq> 1 \<and> generationNumber < MAX_GENERATIONS then
                 (case next_generation population w1 of
                    Inl e \<Rightarrow> [(population, w1)]
                  | Inr (p, w2) \<Rightarrow> (population, w1) # search_trace (generationNumber + 1) p w2)
               else [(population, w1)]))"
  by pat_completeness auto
termination
  by (relation "measure (\<lambda>(g, p, w). MAX_GENERATIONS - g)") auto

text \<open>The invariants of the loops of the two constructors.\<close>

definition npop_inv :: "Data \<Rightarrow> world \<Rightarrow> nat \<Rightarrow> nat option list \<times> world \<Rightarrow> bool" where
  "npop_inv D w0 k acc =
     (frame {} w0 (snd acc) \<and> length (fst acc) = k \<and> members_ok D (snd acc) (fst acc) \<and>
      (\<forall>a. Some a \<in> set (fst acc) \<longrightarrow> schedNext w0 \<le> a))"

definition room_availability :: "int \<Rightarrow> nat \<Rightarrow> bool option list" where
  "room_availability totalTimeSlots i =
     fold (\<lambda>j s. js_set s j (Some False)) [0..<i] (replicate (nat totalTimeSlots) (Some True))"

definition data_inv :: "int \<Rightarrow> world \<Rightarrow> nat \<Rightarrow> nat list \<times> world \<Rightarrow> bool" where
  "data_inv nslots w0 i acc =
     (fst acc = [roomNext w0..<roomNext w0 + i] \<and>
      snd acc = w0\<lparr>roomObj := roomObj (snd acc), roomNext := roomNext w0 + i\<rparr> \<and>
      (\<forall>r<roomNext w0. roomObj (snd acc) r = roomObj w0 r) \<and>
      (\<forall>j<i. roomObj (snd acc) (roomNext w0 + j) =
         \<lparr>r_number = ''Room '' @ show_nat (j + 1), availabilitySchedule = room_availability nslots j\<rparr>))"

definition data_events :: "string list \<Rightarrow> Event list" where
  "data_events names =
     map (\<lambda>(index, eventName). \<lparr>e_id = index, e_name = eventName, e_room = None, e_time_slot = None\<rparr>)
       (enumerate 0 (if length names > 0 then names else default_EVENT_NAMES))"

definition run_trace :: "int \<Rightarrow> string list \<Rightarrow> int \<Rightarrow> int \<Rightarrow> world \<Rightarrow> (PopulationEvents \<times> world) list" where
  "run_trace numRooms eventNames startTime endTime w =
     (case new_Data numRooms eventNames startTime endTime w of
        Inl e \<Rightarrow> []
      | Inr (d, w1) \<Rightarrow>
          (case new_PopulationEvents POPULATION_SIZE d w1 of
             Inl e \<Rightarrow> []
           | Inr (p0, w2) \<Rightarrow>
               (case sort_by_fitness (schedules p0) w2 of
                  Inl e \<Rightarrow> []
                | Inr (ordered, w3) \<Rightarrow> search_trace 0 (p0\<lparr>schedules := ordered\<rparr>) w3)))"

text \<open>The room and the time slot at every position of a schedule, by value.\<close>

definition assignments :: "world \<Rightarrow> nat \<Rightarrow> (nat option \<times> int option) option list" where
  "assignments w a =
     map (map_option (\<lambda>e. (e_room (eventObj w e), e_time_slot (eventObj w e))))
       (s_events (schedObj w a))"

text \<open>
  The writes to the assignments of a schedule that the program has: the two setters of an
  Event (lines 47 to 53), which take the Event itself, and the assignment to a position of
  the array read through the getter \<^verbatim>\<open>events\<close> of a schedule (as in lines 272, 274
  and 285).
\<close>

datatype assignment_write =
    SetRoom nat "nat option"
  | SetTimeSlot nat "int option"
  | SetEvent nat nat "nat option"

primrec write_assignment :: "assignment_write \<Rightarrow> world \<Rightarrow> world" where
  "write_assignment (SetRoom e room) w = set_room e room w"
| "write_assignment (SetTimeSlot e timeSlot) w = set_timeSlot e timeSlot w"
| "write_assignment (SetEvent this i x) w =
     (case events_get this w of
        (target, w1) \<Rightarrow> sched_update this (\<lambda>s. s\<lparr>s_events := js_set (s_events s) i x\<rparr>) w1)"

text \<open>
  A sequence of writes, and the writes that go through the getter \<^verbatim>\<open>events\<close> of
  schedule \<open>a\<close>.
\<close>

definition write_assignments :: "assignment_write list \<Rightarrow> world \<Rightarrow> world" where
  "write_assignments ws w = fold write_assignment ws w"

primrec through_getter :: "nat \<Rightarrow> assignment_write \<Rightarrow> bool" where
  "through_getter a (SetRoom e room) = False"
| "through_getter a (SetTimeSlot e timeSlot) = False"
| "through_getter a (SetEvent this i x) = (this = a)"

section \<open>Example worlds\<close>

definition example_rooms :: "nat \<Rightarrow> Room" where
  "example_rooms =
     (\<lambda>r. \<lparr>r_number = ''Room 1'', availabilitySchedule = [Some True, Some True, Some True]\<rparr>)
       (Suc 0 := \<lparr>r_number = ''Room 2'', availabilitySchedule = [Some False, Some True, Some True]\<rparr>)"

definition example_data :: Data where
  "example_data =
     \<lparr>d_rooms = [0, 1],
      d_events = [\<lparr>e_id = 0, e_name = ''Quiz'', e_room = None, e_time_slot = None\<rparr>,
                  \<lparr>e_id = 1, e_name = ''Wiring'', e_room = None, e_time_slot = None\<rparr>],
      EVENT_NAMES = [''Quiz'', ''Wiring'']\<rparr>"

definition example_events :: "nat \<Rightarrow> Event" where
  "example_events =
     (\<lambda>e. \<lparr>e_id = 0, e_name = ''Quiz'', e_room = Some 0, e_time_slot = Some 540\<rparr>)
       (Suc 0 := \<lparr>e_id = 1, e_name = ''Wiring'', e_room = Some 0, e_time_slot = Some 540\<rparr>)"

definition example_schedule :: ScheduleEvents where
  "example_schedule =
     \<lparr>s_data = example_data, s_events = [Some 0, Some 1], numOfConflicts = 0, s_fitness = - 1,
      eventNum = 2, isFitnessChanged = True\<rparr>"

definition example_world :: world where
  "example_world =
     \<lparr>EVENT_START_TIME = 540, EVENT_END_TIME = 720, roomObj = example_rooms, roomNext = 2,
      eventObj = example_events, eventNext = 2, schedObj = (\<lambda>a. example_schedule), schedNext = 1,
      randomSource = (\<lambda>k. Abs_unit_interval 0), randomCalls = 0\<rparr>"

text \<open>
  A store with twenty schedules of the example data, all with the two events in room 1 at
  the first slot, and the population of these schedules.
\<close>

definition generation_world :: world where
  "generation_world =
     \<lparr>EVENT_START_TIME = 540, EVENT_END_TIME = 720, roomObj = example_rooms, roomNext = 2,
      eventObj = example_events, eventNext = 2, schedObj = (\<lambda>a. example_schedule), schedNext = 20,
      randomSource = (\<lambda>k. Abs_unit_interval 0), randomCalls = 0\<rparr>"

definition example_population :: PopulationEvents where
  "example_population = \<lparr>p_size = 20, p_data = example_data, schedules = map Some [0..<20]\<rparr>"

text \<open>The example schedule with its fitness read: the cache holds one half.\<close>

definition cached_world :: world where
  "cached_world =
     \<lparr>EVENT_START_TIME = 540, EVENT_END_TIME = 720, roomObj = example_rooms, roomNext = 2,
      eventObj = example_events, eventNext = 2,
      schedObj = (\<lambda>a. \<lparr>s_data = example_data, s_events = [Some 0, Some 1], numOfConflicts = 1,
                        s_fitness = 1 / 2, eventNum = 2, isFitnessChanged = False\<rparr>),
      schedNext = 1, randomSource = (\<lambda>k. Abs_unit_interval 0), randomCalls = 0\<rparr>"

text \<open>
  Two schedules that share no Event: schedule \<open>a\<close> holds the Events \<open>2a\<close> and \<open>2a + 1\<close>,
  the first at the first hour and the second at the second hour, both in room 1. The
  random source always gives 0.
\<close>

definition sharing_events :: "nat \<Rightarrow> Event" where
  "sharing_events e =
     (if even e then \<lparr>e_id = 0, e_name = ''Quiz'', e_room = Some 0, e_time_slot = Some 540\<rparr>
      else \<lparr>e_id = 1, e_name = ''Wiring'', e_room = Some 0, e_time_slot = Some 600\<rparr>)"

definition sharing_world :: world where
  "sharing_world =
     \<lparr>EVENT_START_TIME = 540, EVENT_END_TIME = 720, roomObj = example_rooms, roomNext = 2,
      eventObj = sharing_events, eventNext = 4,
      schedObj = (\<lambda>a. \<lparr>s_data = example_data, s_events = [Some (2 * a), Some (2 * a + 1)],
                        numOfConflicts = 0, s_fitness = - 1, eventNum = 2, isFitnessChanged = True\<rparr>),
      schedNext = 2, randomSource = (\<lambda>k. Abs_unit_interval 0), randomCalls = 0\<rparr>"

section \<open>The fitness of a schedule\<close>

lemma for_each_add:
  assumes "\<And>j n. j \<in> set js \<Longrightarrow> body j n = Inr (n + g j)"
  shows "for_each js body n = Inr (n + sum_list (map g js))"
  using assms by (induction js arbitrary: n) (simp_all add: add.assoc)

lemma pair_conflict_assigned:
  assumes "list_all (assigned w) events" "i < length events" "j < length events"
  shows "pair_conflict w events i j n =
     Inr (n + (if i \<le> j \<and> double_booked (event_of w events i) (event_of w events j) then 1 else 0))"
proof -
  from assms have "assigned w (events ! i)" "assigned w (events ! j)"
    by (simp_all add: list_all_length)
  then show ?thesis using assms(2,3)
    by (auto simp: pair_conflict_def js_get_def assigned_def double_booked_def event_of_def
        split: option.splits)
qed

lemma event_conflicts_assigned:
  assumes "list_all (assigned w) events" "i < length events"
  shows "event_conflicts w events i n =
     Inr (n + ((if room_unavailable w (event_of w events i) then 1 else 0) +
       sum_list (map (\<lambda>j. if i \<le> j \<and> double_booked (event_of w events i) (event_of w events j) then 1 else 0)
          [0..<length events])))"
proof -
  from assms have a: "assigned w (events ! i)"
    by (simp add: list_all_length)
  then obtain e r t where e: "events ! i = Some e" "e_room (eventObj w e) = Some r"
      "e_time_slot (eventObj w e) = Some t"
    by (auto simp: assigned_def split: option.splits)
  obtain b where b: "isAvailable w r (Some t) = Inr b"
    by (simp add: isAvailable_def Let_def)
  have inner: "\<And>m. for_each [0..<length events] (pair_conflict w events i) m =
      Inr (m + sum_list (map (\<lambda>j. if i \<le> j \<and> double_booked (event_of w events i) (event_of w events j) then 1 else 0)
          [0..<length events]))"
    by (rule for_each_add) (simp add: pair_conflict_assigned [OF assms(1) assms(2)])
  show ?thesis using e b assms(2)
    by (simp add: event_conflicts_def js_get_def inner room_unavailable_def event_of_def)
qed

lemma sum_list_indicator:
  "sum_list (map (\<lambda>i. if P i then 1 else 0) [0..<n]) = card {i. i < n \<and> P i}"
proof -
  have "sum_list (map (\<lambda>i. if P i then 1 else 0) [0..<n]) = (\<Sum>i\<in>{0..<n}. if P i then 1 else (0::nat))"
    by (simp add: interv_sum_list_conv_sum_set_nat)
  also have "\<dots> = card {i \<in> {0..<n}. P i}"
    by (simp add: sum.If_cases Int_def)
  also have "{i \<in> {0..<n}. P i} = {i. i < n \<and> P i}" by auto
  finally show ?thesis .
qed

lemma sum_list_pairs:
  "sum_list (map (\<lambda>i. sum_list (map (\<lambda>j. if Q i j then 1 else 0) [0..<n])) [0..<n])
     = card {(i, j). i < n \<and> j < n \<and> Q i j}"
proof -
  have "sum_list (map (\<lambda>i. sum_list (map (\<lambda>j. if Q i j then 1 else 0) [0..<n])) [0..<n])
      = (\<Sum>i\<in>{0..<n}. card {j. j < n \<and> Q i j})"
    by (simp only: sum_list_indicator) (simp add: interv_sum_list_conv_sum_set_nat)
  also have "\<dots> = card (SIGMA i:{0..<n}. {j. j < n \<and> Q i j})"
    by (simp add: card_SigmaI)
  also have "(SIGMA i:{0..<n}. {j. j < n \<and> Q i j}) = {(i, j). i < n \<and> j < n \<and> Q i j}"
    by auto
  finally show ?thesis .
qed

lemma conflict_loops:
  assumes "list_all (assigned w) events"
  shows "for_each [0..<length events] (event_conflicts w events) 0 = Inr (conflict_count w events)"
proof -
  let ?u = "\<lambda>i. if room_unavailable w (event_of w events i) then 1 else (0::nat)"
  let ?Q = "\<lambda>i j. i \<le> j \<and> double_booked (event_of w events i) (event_of w events j)"
  let ?d = "\<lambda>i. sum_list (map (\<lambda>j. if ?Q i j then 1 else (0::nat)) [0..<length events])"
  have "for_each [0..<length events] (event_conflicts w events) 0 =
      Inr (0 + sum_list (map (\<lambda>i. ?u i + ?d i) [0..<length events]))"
    by (rule for_each_add) (simp add: event_conflicts_assigned [OF assms])
  also have "sum_list (map (\<lambda>i. ?u i + ?d i) [0..<length events]) =
      sum_list (map ?u [0..<length events]) + sum_list (map ?d [0..<length events])"
    by (simp add: sum_list_addf)
  also have "sum_list (map ?u [0..<length events]) = card (unavailable_events w events)"
    by (simp add: sum_list_indicator unavailable_events_def)
  also have "sum_list (map ?d [0..<length events]) =
      card {(i, j). i < length events \<and> j < length events \<and> ?Q i j}"
    by (rule sum_list_pairs)
  also have "{(i, j). i < length events \<and> j < length events \<and> ?Q i j} = double_bookings w events"
    by (auto simp: double_bookings_def double_booked_def le_less)
  finally show ?thesis by (simp add: conflict_count_def)
qed

lemma sched_update_simps [simp]:
  "schedObj (sched_update a f w) = (schedObj w)(a := f (schedObj w a))"
  "eventObj (sched_update a f w) = eventObj w"
  "roomObj (sched_update a f w) = roomObj w"
  "EVENT_START_TIME (sched_update a f w) = EVENT_START_TIME w"
  "EVENT_END_TIME (sched_update a f w) = EVENT_END_TIME w"
  "roomNext (sched_update a f w) = roomNext w"
  "eventNext (sched_update a f w) = eventNext w"
  "schedNext (sched_update a f w) = schedNext w"
  "randomSource (sched_update a f w) = randomSource w"
  "randomCalls (sched_update a f w) = randomCalls w"
  by (simp_all add: sched_update_def)

lemma sched_update_sched_update [simp]:
  "sched_update a f (sched_update a g w) = sched_update a (\<lambda>s. f (g s)) w"
  by (simp add: sched_update_def)

lemma fitness_value: "1 / (1 * of_nat (n + 1)) = (1 / (1 + of_nat n) :: rat)"
proof -
  have "(of_nat (n + 1) :: rat) = 1 + of_nat n" by simp
  then show ?thesis by (simp only: mult_1)
qed

lemma assigned_env:
  "eventObj w' = eventObj w \<Longrightarrow> assigned w' = assigned w"
  by (rule ext) (simp add: assigned_def split: option.splits)

lemma pair_conflict_env:
  "eventObj w' = eventObj w \<Longrightarrow> pair_conflict w' = pair_conflict w"
  by (intro ext) (simp add: pair_conflict_def split: option.splits)

lemma isAvailable_env:
  "roomObj w' = roomObj w \<Longrightarrow> EVENT_START_TIME w' = EVENT_START_TIME w \<Longrightarrow> isAvailable w' = isAvailable w"
  by (intro ext) (simp add: isAvailable_def split: option.splits)

lemma event_conflicts_env:
  "eventObj w' = eventObj w \<Longrightarrow> roomObj w' = roomObj w \<Longrightarrow> EVENT_START_TIME w' = EVENT_START_TIME w
    \<Longrightarrow> event_conflicts w' = event_conflicts w"
proof -
  assume a: "eventObj w' = eventObj w" "roomObj w' = roomObj w"
    "EVENT_START_TIME w' = EVENT_START_TIME w"
  have p: "pair_conflict w' = pair_conflict w" by (rule pair_conflict_env [OF a(1)])
  have q: "isAvailable w' = isAvailable w" by (rule isAvailable_env [OF a(2,3)])
  show ?thesis unfolding event_conflicts_def p q a(1) ..
qed

lemma conflict_loops_env:
  assumes "list_all (assigned w) events" "eventObj w2 = eventObj w" "roomObj w2 = roomObj w"
    "EVENT_START_TIME w2 = EVENT_START_TIME w"
  shows "for_each [0..<length events] (event_conflicts w2 events) 0 = Inr (conflict_count w events)"
  using conflict_loops [OF assms(1)] event_conflicts_env [OF assms(2,3,4)] by simp

lemma calculateFitness_assigned:
  assumes "list_all (assigned w) (s_events (schedObj w this))"
  shows "calculateFitness this w =
     Inr (fitness_of w this,
          sched_update this (\<lambda>s. s\<lparr>isFitnessChanged := True,
                                   numOfConflicts := conflict_count w (s_events (schedObj w this))\<rparr>) w)"
  by (simp add: calculateFitness_def events_get_def Let_def conflict_loops_env [OF assms]
      fitness_of_def fitness_value del: of_nat_add)

lemma upt_2: "[0..<2] = [0, Suc 0]"
  by (simp add: upt_rec)


section \<open>Loops, frames and the operations of a schedule\<close>

lemma for_each_append:
  "for_each (xs @ ys) body acc =
     (case for_each xs body acc of Inl e \<Rightarrow> Inl e | Inr a \<Rightarrow> for_each ys body a)"
  by (induction xs arbitrary: acc) (simp_all split: sum.splits)

lemma for_each_invariant:
  assumes "for_each xs body acc = Inr r" and "P acc"
    and "\<And>i a a'. i \<in> set xs \<Longrightarrow> P a \<Longrightarrow> body i a = Inr a' \<Longrightarrow> P a'"
  shows "P r"
  using assms
proof (induction xs arbitrary: acc)
  case Nil
  then show ?case by simp
next
  case (Cons i xs)
  from Cons.prems(1) obtain a where a: "body i acc = Inr a" "for_each xs body a = Inr r"
    by (auto split: sum.splits)
  have "P a" using Cons.prems(3) [of i acc a] Cons.prems(2) a(1) by simp
  show ?case
  proof (rule Cons.IH [OF a(2) \<open>P a\<close>])
    fix j b b' assume "j \<in> set xs" "P b" "body j b = Inr b'"
    then show "P b'" using Cons.prems(3) [of j b b'] by simp
  qed
qed

lemma for_each_upt_invariant:
  assumes "for_each [m..<n] body acc = Inr r" and "m \<le> n" and "P m acc"
    and "\<And>i a a'. m \<le> i \<Longrightarrow> i < n \<Longrightarrow> P i a \<Longrightarrow> body i a = Inr a' \<Longrightarrow> P (Suc i) a'"
  shows "P n r"
  using assms
proof (induction n arbitrary: r)
  case 0
  then show ?case by simp
next
  case (Suc n)
  show ?case
  proof (cases "m \<le> n")
    case True
    with Suc.prems(1) obtain a where a: "for_each [m..<n] body acc = Inr a" "body n a = Inr r"
      by (auto simp: for_each_append split: sum.splits)
    have "P n a"
      using Suc.IH [OF a(1) True Suc.prems(3)] Suc.prems(4) by simp
    then show ?thesis using Suc.prems(4) [of n a r] True a(2) by simp
  next
    case False
    with Suc.prems(2) have "m = Suc n" by simp
    with Suc.prems(1,3) show ?thesis by simp
  qed
qed

lemma for_each_upt_total:
  assumes "m \<le> n" and "P m acc"
    and "\<And>i a. m \<le> i \<Longrightarrow> i < n \<Longrightarrow> P i a \<Longrightarrow> \<exists>a'. body i a = Inr a' \<and> P (Suc i) a'"
  shows "\<exists>r. for_each [m..<n] body acc = Inr r \<and> P n r"
  using assms
proof (induction n)
  case 0
  then show ?case by simp
next
  case (Suc n)
  show ?case
  proof (cases "m \<le> n")
    case True
    from Suc.IH [OF True Suc.prems(2)] Suc.prems(3)
    obtain a where a: "for_each [m..<n] body acc = Inr a" "P n a" by auto
    from Suc.prems(3) [of n a] True a(2) obtain r where "body n a = Inr r" "P (Suc n) r"
      by auto
    with a(1) True show ?thesis by (simp add: for_each_append)
  next
    case False
    with Suc.prems(1) have "m = Suc n" by simp
    with Suc.prems(2) show ?thesis by simp
  qed
qed

lemma for_each_Inr_body:
  assumes "for_each xs body acc = Inr r" "i \<in> set xs"
  shows "\<exists>a a'. body i a = Inr a'"
  using assms
  by (induction xs arbitrary: acc) (auto split: sum.splits)

lemma event_conflicts_Inr_assigned:
  assumes "event_conflicts w events i n = Inr n'"
  shows "i < length events \<and> assigned w (events ! i)"
  using assms
  by (auto simp: event_conflicts_def js_get_def assigned_def isAvailable_def
      split: option.splits if_splits sum.splits)

lemma conflict_loops_Inr_assigned:
  assumes "for_each [0..<length events] (event_conflicts w events) n = Inr r"
  shows "list_all (assigned w) events"
proof -
  have "assigned w (events ! i)" if "i < length events" for i
  proof -
    from that have "i \<in> set [0..<length events]" by simp
    from for_each_Inr_body [OF assms this] show ?thesis
      using event_conflicts_Inr_assigned by blast
  qed
  then show ?thesis by (simp add: list_all_length)
qed

lemma calculateFitness_Inr:
  assumes "calculateFitness this w = Inr (f, w')"
  shows "list_all (assigned w) (s_events (schedObj w this)) \<and> f = fitness_of w this \<and>
    w' = sched_update this (\<lambda>s. s\<lparr>isFitnessChanged := True,
           numOfConflicts := conflict_count w (s_events (schedObj w this))\<rparr>) w"
proof -
  let ?w2 = "sched_update this (\<lambda>s. s\<lparr>numOfConflicts := 0, isFitnessChanged := True\<rparr>) w"
  from assms obtain n where
    "for_each [0..<length (s_events (schedObj w this))] (event_conflicts ?w2 (s_events (schedObj w this))) 0 = Inr n"
    by (auto simp: calculateFitness_def events_get_def Let_def split: sum.splits)
  then have "list_all (assigned ?w2) (s_events (schedObj w this))"
    by (rule conflict_loops_Inr_assigned)
  then have a: "list_all (assigned w) (s_events (schedObj w this))"
    by (simp add: assigned_env [of ?w2 w])
  from assms calculateFitness_assigned [OF a] show ?thesis using a by simp
qed

lemma same_store_refl: "same_store w w"
  by (simp add: same_store_def)

lemma same_store_trans: "same_store w w' \<Longrightarrow> same_store w' w'' \<Longrightarrow> same_store w w''"
  unfolding same_store_def by (auto intro: order_trans)

lemma allocated_mono: "allocated w evs \<Longrightarrow> eventNext w \<le> eventNext w' \<Longrightarrow> allocated w' evs"
  unfolding allocated_def list_all_iff by (auto split: option.splits)

lemma event_of_same:
  assumes "same_store w w'" "allocated w evs" "i < length evs"
  shows "event_of w' evs i = event_of w evs i"
proof -
  from assms(2,3) obtain e where "evs ! i = Some e" "e < eventNext w"
    by (auto simp: allocated_def list_all_length split: option.splits)
  with assms(1) show ?thesis by (simp add: event_of_def same_store_def)
qed

lemma room_unavailable_same:
  "same_store w w' \<Longrightarrow> room_unavailable w' ev = room_unavailable w ev"
  by (simp add: room_unavailable_def same_store_def isAvailable_env [of w' w])

lemma conflict_count_same:
  assumes "same_store w w'" "allocated w evs"
  shows "conflict_count w' evs = conflict_count w evs"
proof -
  have u: "unavailable_events w' evs = unavailable_events w evs"
    unfolding unavailable_events_def
    using event_of_same [OF assms] room_unavailable_same [OF assms(1)] by auto
  have d: "double_bookings w' evs = double_bookings w evs"
    unfolding double_bookings_def
    using event_of_same [OF assms] by auto
  show ?thesis by (simp add: conflict_count_def u d)
qed

lemma fitness_of_same:
  assumes "same_store w w'" "s_events (schedObj w' a) = s_events (schedObj w a)"
    "allocated w (s_events (schedObj w a))"
  shows "fitness_of w' a = fitness_of w a"
  by (simp add: fitness_of_def assms(2) conflict_count_same [OF assms(1,3)])

lemma frameI:
  assumes "same_store w w'"
    and "\<And>a. a < schedNext w \<Longrightarrow> a \<notin> M \<Longrightarrow> s_events (schedObj w' a) = s_events (schedObj w a)"
    and "\<And>a. a < schedNext w \<Longrightarrow> a \<notin> M \<Longrightarrow> allocated w (s_events (schedObj w a)) \<Longrightarrow>
           isFitnessChanged (schedObj w' a) \<or>
           (s_fitness (schedObj w' a) = s_fitness (schedObj w a) \<and>
            (isFitnessChanged (schedObj w a) \<longrightarrow> isFitnessChanged (schedObj w' a))) \<or>
           s_fitness (schedObj w' a) = fitness_of w a"
  shows "frame M w w'"
  unfolding frame_def
proof (intro conjI allI impI)
  show "same_store w w'" by fact
next
  fix a assume a: "a < schedNext w" "a \<notin> M"
  show "s_events (schedObj w' a) = s_events (schedObj w a)" using assms(2) a .
next
  fix a assume a: "a < schedNext w" "a \<notin> M" and al: "allocated w (s_events (schedObj w a))"
    and c: "coherent w a"
  have f: "fitness_of w' a = fitness_of w a"
    using fitness_of_same [OF assms(1) assms(2) [OF a] al] .
  from assms(3) [OF a al] c show "coherent w' a"
    unfolding coherent_def f by auto
qed

lemma frame_refl: "frame M w w"
  by (rule frameI) (simp_all add: same_store_refl)

lemma frame_same_store: "frame M w w' \<Longrightarrow> same_store w w'"
  by (simp add: frame_def)

lemma frame_trans:
  assumes "frame M w w'" "frame M' w' w''"
  shows "frame (M \<union> M') w w''"
  unfolding frame_def
proof (intro conjI allI impI)
  show "same_store w w''"
    using assms by (auto simp: frame_def intro: same_store_trans)
next
  fix a assume a: "a < schedNext w" "a \<notin> M \<union> M'"
  from assms(1) have le: "schedNext w \<le> schedNext w'" by (simp add: frame_def same_store_def)
  with a have a': "a < schedNext w'" by simp
  from assms a a' show e: "s_events (schedObj w'' a) = s_events (schedObj w a)"
    by (simp add: frame_def)
next
  fix a assume a: "a < schedNext w" "a \<notin> M \<union> M'" and al: "allocated w (s_events (schedObj w a))"
    and c: "coherent w a"
  from assms(1) have le: "schedNext w \<le> schedNext w'" "eventNext w \<le> eventNext w'"
    by (simp_all add: frame_def same_store_def)
  with a have a': "a < schedNext w'" by simp
  from assms(1) a have e: "s_events (schedObj w' a) = s_events (schedObj w a)"
    by (simp add: frame_def)
  from assms(1) a al c have c': "coherent w' a" by (simp add: frame_def)
  have al': "allocated w' (s_events (schedObj w' a))"
    unfolding e using al le(2) by (rule allocated_mono)
  from assms(2) a a' al' c' show "coherent w'' a" by (simp add: frame_def)
qed

lemma frame_mono: "frame M w w' \<Longrightarrow> M \<subseteq> M' \<Longrightarrow> frame M' w w'"
  unfolding frame_def by blast

lemma frame_fresh:
  assumes "frame M w w'" "\<And>a. a \<in> M \<Longrightarrow> a < schedNext w \<Longrightarrow> a \<in> M'"
  shows "frame M' w w'"
  using assms unfolding frame_def by blast

lemma frame_trans_empty: "frame {} w w' \<Longrightarrow> frame {} w' w'' \<Longrightarrow> frame {} w w''"
  using frame_trans [of "{}" w w' "{}" w''] by simp

lemma Rep_unit_interval_bounds:
  "0 \<le> Rep_unit_interval u" "Rep_unit_interval u < 1"
  using Rep_unit_interval [of u] by simp_all

lemma random_index_bound:
  assumes "0 < n"
  shows "fst (random_index n w) < n"
proof -
  let ?u = "Rep_unit_interval (randomSource w (randomCalls w))"
  have "?u * of_nat n < of_nat n"
    using Rep_unit_interval_bounds(2) [of "randomSource w (randomCalls w)"] assms by simp
  then have "\<lfloor>?u * of_nat n\<rfloor> < int n"
    by (simp add: floor_less_iff)
  moreover have "0 \<le> \<lfloor>?u * of_nat n\<rfloor>"
    using Rep_unit_interval_bounds(1) [of "randomSource w (randomCalls w)"] by simp
  ultimately have "nat \<lfloor>?u * of_nat n\<rfloor> < n" by linarith
  then show ?thesis by (simp add: random_index_def Math_random_def)
qed

lemma random_index_world:
  "snd (random_index n w) = w\<lparr>randomCalls := Suc (randomCalls w)\<rparr>"
  by (simp add: random_index_def Math_random_def)

lemma Math_random_world:
  "snd (Math_random w) = w\<lparr>randomCalls := Suc (randomCalls w)\<rparr>"
  by (simp add: Math_random_def)

lemma frame_randomCalls: "frame M w (w\<lparr>randomCalls := k\<rparr>)"
  by (rule frameI) (simp_all add: same_store_def)

lemma events_get_fst [simp]: "fst (events_get a w) = s_events (schedObj w a)"
  by (simp add: events_get_def)

lemma events_get_snd [simp]:
  "snd (events_get a w) = sched_update a (\<lambda>s. s\<lparr>isFitnessChanged := True\<rparr>) w"
  by (simp add: events_get_def)

lemma events_get_eq:
  "events_get a w = (s_events (schedObj w a), sched_update a (\<lambda>s. s\<lparr>isFitnessChanged := True\<rparr>) w)"
  by (simp add: events_get_def)

lemma frame_sched_update_cache:
  assumes "s_data (g (schedObj w a)) = s_data (schedObj w a)"
    and "s_events (g (schedObj w a)) = s_events (schedObj w a)"
    and "isFitnessChanged (g (schedObj w a)) \<or>
         (s_fitness (g (schedObj w a)) = s_fitness (schedObj w a) \<and>
          (isFitnessChanged (schedObj w a) \<longrightarrow> isFitnessChanged (g (schedObj w a)))) \<or>
         s_fitness (g (schedObj w a)) = fitness_of w a"
  shows "frame M w (sched_update a g w)"
  using assms by (intro frameI) (auto simp: same_store_def)

lemma frame_sched_update_events:
  assumes "s_data (g (schedObj w a)) = s_data (schedObj w a)"
  shows "frame {a} w (sched_update a g w)"
  using assms by (intro frameI) (auto simp: same_store_def)

lemma frame_events_get: "frame M w (snd (events_get a w))"
  by (simp add: frame_sched_update_cache)

lemma cache_step_fields:
  assumes "cache_step a w w'"
  shows "EVENT_START_TIME w' = EVENT_START_TIME w" "EVENT_END_TIME w' = EVENT_END_TIME w"
    "roomObj w' = roomObj w" "roomNext w' = roomNext w" "eventObj w' = eventObj w"
    "eventNext w' = eventNext w" "schedNext w' = schedNext w"
    "randomSource w' = randomSource w" "randomCalls w' = randomCalls w"
proof -
  from assms have e: "w' = w\<lparr>schedObj := schedObj w'\<rparr>" by (simp add: cache_step_def)
  show "EVENT_START_TIME w' = EVENT_START_TIME w" by (subst e) simp
  show "EVENT_END_TIME w' = EVENT_END_TIME w" by (subst e) simp
  show "roomObj w' = roomObj w" by (subst e) simp
  show "roomNext w' = roomNext w" by (subst e) simp
  show "eventObj w' = eventObj w" by (subst e) simp
  show "eventNext w' = eventNext w" by (subst e) simp
  show "schedNext w' = schedNext w" by (subst e) simp
  show "randomSource w' = randomSource w" by (subst e) simp
  show "randomCalls w' = randomCalls w" by (subst e) simp
qed

lemma cache_step_sched_update:
  assumes "s_data (g (schedObj w a)) = s_data (schedObj w a)"
    "s_events (g (schedObj w a)) = s_events (schedObj w a)"
    "eventNum (g (schedObj w a)) = eventNum (schedObj w a)"
  shows "cache_step a w (sched_update a g w)"
  using assms by (simp add: cache_step_def sched_update_def)

lemma cache_step_refl: "cache_step a w w"
  by (simp add: cache_step_def)

lemma cache_step_frame:
  assumes "cache_step a w w'"
    and "isFitnessChanged (schedObj w' a) \<or>
         (s_fitness (schedObj w' a) = s_fitness (schedObj w a) \<and>
          (isFitnessChanged (schedObj w a) \<longrightarrow> isFitnessChanged (schedObj w' a))) \<or>
         s_fitness (schedObj w' a) = fitness_of w a"
  shows "frame M w w'"
proof (rule frameI)
  show "same_store w w'"
    using assms(1) cache_step_fields [OF assms(1)]
    by (auto simp: same_store_def cache_step_def)
next
  fix b assume "b < schedNext w" "b \<notin> M"
  show "s_events (schedObj w' b) = s_events (schedObj w b)"
    using assms(1) by (cases "b = a") (auto simp: cache_step_def)
next
  fix b assume "b < schedNext w" "b \<notin> M"
  show "isFitnessChanged (schedObj w' b) \<or>
         (s_fitness (schedObj w' b) = s_fitness (schedObj w b) \<and>
          (isFitnessChanged (schedObj w b) \<longrightarrow> isFitnessChanged (schedObj w' b))) \<or>
         s_fitness (schedObj w' b) = fitness_of w b"
    using assms by (cases "b = a") (auto simp: cache_step_def)
qed

lemma fitness_get_cases:
  assumes "fitness_get a w = Inr (f, w')"
  shows "cache_step a w w' \<and> \<not> isFitnessChanged (schedObj w' a) \<and> s_fitness (schedObj w' a) = f \<and>
     (if isFitnessChanged (schedObj w a)
      then list_all (assigned w) (s_events (schedObj w a)) \<and> f = fitness_of w a
      else f = s_fitness (schedObj w a) \<and> w' = w)"
proof (cases "isFitnessChanged (schedObj w a)")
  case True
  with assms obtain f1 w1 where c: "calculateFitness a w = Inr (f1, w1)"
    by (auto simp: fitness_get_def split: sum.splits)
  note r = calculateFitness_Inr [OF c]
  from assms True c have w': "w' = sched_update a (\<lambda>s. s\<lparr>isFitnessChanged := False\<rparr>)
      (sched_update a (\<lambda>s. s\<lparr>s_fitness := f1\<rparr>) w1)" and f: "f = f1"
    by (auto simp: fitness_get_def Let_def)
  have "cache_step a w w'" unfolding w' using r
    by (simp add: cache_step_def sched_update_def)
  moreover have "\<not> isFitnessChanged (schedObj w' a)" "s_fitness (schedObj w' a) = f"
    unfolding w' f by simp_all
  ultimately show ?thesis using True r f by simp
next
  case False
  with assms show ?thesis by (auto simp: fitness_get_def cache_step_refl)
qed

lemma fitness_get_frame:
  assumes "fitness_get a w = Inr (f, w')"
  shows "frame M w w'"
proof (rule cache_step_frame)
  from fitness_get_cases [OF assms] show "cache_step a w w'" by simp
  from fitness_get_cases [OF assms]
  show "isFitnessChanged (schedObj w' a) \<or>
         (s_fitness (schedObj w' a) = s_fitness (schedObj w a) \<and>
          (isFitnessChanged (schedObj w a) \<longrightarrow> isFitnessChanged (schedObj w' a))) \<or>
         s_fitness (schedObj w' a) = fitness_of w a"
    by (auto split: if_splits)
qed

lemma fitness_get_result:
  assumes "fitness_get a w = Inr (f, w')"
  shows "\<not> isFitnessChanged (schedObj w' a)" "s_fitness (schedObj w' a) = f"
    "coherent w a \<Longrightarrow> f = fitness_of w a"
    "\<not> isFitnessChanged (schedObj w b) \<Longrightarrow> \<not> isFitnessChanged (schedObj w' b)"
    "b \<noteq> a \<Longrightarrow> schedObj w' b = schedObj w b"
  using fitness_get_cases [OF assms]
  by (auto simp: coherent_def cache_step_def split: if_splits)

lemma fitness_get_total:
  assumes "list_all (assigned w) (s_events (schedObj w a))"
  shows "\<exists>f w'. fitness_get a w = Inr (f, w')"
  by (simp add: fitness_get_def calculateFitness_assigned [OF assms] Let_def)

lemma caches_only_refl: "caches_only w w"
  by (simp add: caches_only_def)

lemma caches_only_fields:
  assumes "caches_only w w'"
  shows "EVENT_START_TIME w' = EVENT_START_TIME w" "EVENT_END_TIME w' = EVENT_END_TIME w"
    "roomObj w' = roomObj w" "roomNext w' = roomNext w" "eventObj w' = eventObj w"
    "eventNext w' = eventNext w" "schedNext w' = schedNext w"
    "randomSource w' = randomSource w" "randomCalls w' = randomCalls w"
    "s_data (schedObj w' b) = s_data (schedObj w b)"
    "s_events (schedObj w' b) = s_events (schedObj w b)"
    "eventNum (schedObj w' b) = eventNum (schedObj w b)"
proof -
  from assms have e: "w' = w\<lparr>schedObj := schedObj w'\<rparr>" by (simp add: caches_only_def)
  show "EVENT_START_TIME w' = EVENT_START_TIME w" by (subst e) simp
  show "EVENT_END_TIME w' = EVENT_END_TIME w" by (subst e) simp
  show "roomObj w' = roomObj w" by (subst e) simp
  show "roomNext w' = roomNext w" by (subst e) simp
  show "eventObj w' = eventObj w" by (subst e) simp
  show "eventNext w' = eventNext w" by (subst e) simp
  show "schedNext w' = schedNext w" by (subst e) simp
  show "randomSource w' = randomSource w" by (subst e) simp
  show "randomCalls w' = randomCalls w" by (subst e) simp
  from assms show "s_data (schedObj w' b) = s_data (schedObj w b)"
    "s_events (schedObj w' b) = s_events (schedObj w b)"
    "eventNum (schedObj w' b) = eventNum (schedObj w b)"
    by (simp_all add: caches_only_def)
qed

lemma caches_only_trans:
  assumes "caches_only w w'" "caches_only w' w''"
  shows "caches_only w w''"
proof -
  from assms have e: "w' = w\<lparr>schedObj := schedObj w'\<rparr>" "w'' = w'\<lparr>schedObj := schedObj w''\<rparr>"
    by (simp_all add: caches_only_def)
  have "w'' = w\<lparr>schedObj := schedObj w''\<rparr>"
    by (subst e(2), subst e(1)) simp
  with assms show ?thesis by (simp add: caches_only_def)
qed

lemma cache_step_caches_only: "cache_step a w w' \<Longrightarrow> caches_only w w'"
  unfolding cache_step_def caches_only_def by metis

lemma refresh_fitness_spec:
  assumes "refresh_fitness as w = Inr w'"
  shows "frame {} w w' \<and> caches_only w w' \<and>
    (\<forall>a\<in>set as. \<not> isFitnessChanged (schedObj w' a)) \<and>
    (\<forall>b. \<not> isFitnessChanged (schedObj w b) \<longrightarrow> \<not> isFitnessChanged (schedObj w' b))"
  using assms
proof (induction as arbitrary: w)
  case Nil
  then show ?case by (simp add: frame_refl caches_only_refl)
next
  case (Cons a as)
  from Cons.prems obtain f w1 where g: "fitness_get a w = Inr (f, w1)"
    and r: "refresh_fitness as w1 = Inr w'"
    by (auto split: sum.splits)
  note ih = Cons.IH [OF r]
  note fr = fitness_get_frame [OF g, of "{}"]
  note res = fitness_get_result [OF g]
  from fitness_get_cases [OF g] have co: "caches_only w w1"
    by (blast intro: cache_step_caches_only)
  have "frame {} w w'" using frame_trans_empty [OF fr] ih by simp
  moreover have "caches_only w w'" using caches_only_trans [OF co] ih by simp
  moreover have "\<forall>b\<in>set (a # as). \<not> isFitnessChanged (schedObj w' b)"
    using ih res(1) by auto
  moreover have "\<forall>b. \<not> isFitnessChanged (schedObj w b) \<longrightarrow> \<not> isFitnessChanged (schedObj w' b)"
    using ih res(4) by blast
  ultimately show ?case by simp
qed

lemma map_Some_map_filter: "map Some (List.map_filter (\<lambda>x. x) xs) = filter (\<lambda>x. x \<noteq> None) xs"
  by (induction xs) (auto simp: List.map_filter_simps split: option.splits)

lemma sort_by_fitness_spec:
  assumes "sort_by_fitness xs w = Inr (ys, w')"
  shows "frame {} w w' \<and> caches_only w w' \<and> set ys = set xs \<and> length ys = length xs \<and>
    (\<forall>b. \<not> isFitnessChanged (schedObj w b) \<longrightarrow> \<not> isFitnessChanged (schedObj w' b))"
proof -
  let ?d = "List.map_filter (\<lambda>x. x) xs"
  let ?h = "filter (\<lambda>x. x = None) xs"
  have setd: "set (map Some ?d) \<union> set ?h = set xs"
    unfolding map_Some_map_filter by auto
  have lend: "length (map Some ?d) + length ?h = length xs"
    unfolding map_Some_map_filter
    using sum_length_filter_compl [of "\<lambda>x. x \<noteq> None" xs] by simp
  show ?thesis
  proof (cases "length ?d < 2")
    case True
    with assms have "ys = map Some ?d @ ?h" "w' = w"
      by (auto simp: sort_by_fitness_def Let_def)
    then show ?thesis
      using setd lend by (simp add: frame_refl caches_only_refl)
  next
    case False
    with assms have r: "refresh_fitness ?d w = Inr w'"
      and ys: "ys = map Some (sort_key (\<lambda>a. - s_fitness (schedObj w' a)) ?d) @ ?h"
      by (auto simp: sort_by_fitness_def Let_def split: sum.splits)
    have "set ys = set xs" unfolding ys using setd by simp
    moreover have "length ys = length xs" unfolding ys using lend by simp
    ultimately show ?thesis
      using refresh_fitness_spec [OF r] by simp
  qed
qed

lemma sort_by_fitness_sorted:
  assumes "sort_by_fitness xs w = Inr (ys, w')" "\<forall>x\<in>set xs. x \<noteq> None" "2 \<le> length xs"
  shows "\<exists>as. ys = map Some as \<and> sorted (map (\<lambda>a. - s_fitness (schedObj w' a)) as) \<and>
    (\<forall>a\<in>set as. \<not> isFitnessChanged (schedObj w' a))"
proof -
  let ?d = "List.map_filter (\<lambda>x. x) xs"
  have all: "filter (\<lambda>x. x \<noteq> None) xs = xs" using assms(2) by (simp add: filter_id_conv)
  have h: "filter (\<lambda>x. x = None) xs = []" using assms(2) by (simp add: filter_empty_conv)
  have d: "map Some ?d = xs" using map_Some_map_filter [of xs] all by simp
  then have "length ?d = length xs" by (metis length_map)
  with assms(3) have "\<not> length ?d < 2" by simp
  with assms(1) have r: "refresh_fitness ?d w = Inr w'"
    and ys: "ys = map Some (sort_key (\<lambda>a. - s_fitness (schedObj w' a)) ?d)"
    by (auto simp: sort_by_fitness_def Let_def h split: sum.splits)
  from refresh_fitness_spec [OF r]
  have "\<forall>a\<in>set (sort_key (\<lambda>a. - s_fitness (schedObj w' a)) ?d). \<not> isFitnessChanged (schedObj w' a)"
    by simp
  with ys show ?thesis by (intro exI conjI) (rule ys, rule sorted_sort_key, assumption)
qed

lemma filter_available_Inr:
  assumes "filter_available w ts rooms = Inr avail"
  shows "(rooms \<noteq> [] \<longrightarrow> ts \<noteq> None) \<and> avail = filter (\<lambda>r. isAvailable w r ts = Inr True) rooms"
  using assms
proof (induction rooms arbitrary: avail)
  case Nil
  then show ?case by simp
next
  case (Cons r rooms)
  from Cons.prems obtain b rest where b: "isAvailable w r ts = Inr b"
    and rest: "filter_available w ts rooms = Inr rest"
    and av: "avail = (if b then r # rest else rest)"
    by (auto split: sum.splits)
  from b have "ts \<noteq> None" by (auto simp: isAvailable_def split: option.splits)
  with Cons.IH [OF rest] b av show ?case by auto
qed

lemma filter_available_total:
  "filter_available w (Some t) rooms = Inr (filter (\<lambda>r. isAvailable w r (Some t) = Inr True) rooms)"
  by (induction rooms) (auto simp: isAvailable_def Let_def)

lemma getAvailableRoom_Inr:
  assumes "getAvailableRoom this ts w = Inr (room, w')"
  shows "\<exists>t r. ts = Some t \<and> room = Some r \<and> r \<in> set (d_rooms (s_data (schedObj w this))) \<and>
    isAvailable w r (Some t) = Inr True \<and> w' = w\<lparr>randomCalls := Suc (randomCalls w)\<rparr>"
proof -
  let ?rooms = "d_rooms (s_data (schedObj w this))"
  from assms obtain avail where fa: "filter_available w ts ?rooms = Inr avail"
    by (auto simp: getAvailableRoom_def split: sum.splits)
  with assms have ne: "avail \<noteq> []"
    by (auto simp: getAvailableRoom_def split: if_splits)
  note f = filter_available_Inr [OF fa]
  from ne f have "?rooms \<noteq> []" by auto
  with f obtain t where t: "ts = Some t" by auto
  let ?k = "fst (random_index (length avail) w)"
  from ne have k: "?k < length avail" by (simp add: random_index_bound)
  from assms fa ne have room: "room = js_get (map Some avail) ?k"
    and w': "w' = snd (random_index (length avail) w)"
    by (auto simp: getAvailableRoom_def split: prod.splits)
  from room k have "room = Some (avail ! ?k)" by (simp add: js_get_def)
  moreover from k have "avail ! ?k \<in> set avail" by simp
  with f have "avail ! ?k \<in> set ?rooms" "isAvailable w (avail ! ?k) ts = Inr True" by auto
  ultimately show ?thesis using t w' by (simp add: random_index_world)
qed

lemma getRandomTimeSlot_world:
  "snd (getRandomTimeSlot w) = w\<lparr>randomCalls := Suc (randomCalls w)\<rparr>"
  by (simp add: getRandomTimeSlot_def random_index_def Math_random_def Let_def)

lemma initialize_step_Inr:
  assumes "initialize_step this i w = Inr w'"
  shows "\<exists>t r. fst (getRandomTimeSlot w) = Some t \<and> r \<in> set (d_rooms (s_data (schedObj w this))) \<and>
    isAvailable w r (Some t) = Inr True \<and>
    EVENT_START_TIME w' = EVENT_START_TIME w \<and> EVENT_END_TIME w' = EVENT_END_TIME w \<and>
    roomObj w' = roomObj w \<and> roomNext w' = roomNext w \<and> randomSource w' = randomSource w \<and>
    randomCalls w' = Suc (Suc (randomCalls w)) \<and>
    eventNext w' = Suc (eventNext w) \<and>
    eventObj w' = (eventObj w)(eventNext w :=
       \<lparr>e_id = eventNum (schedObj w this), e_name = e_name (d_events (s_data (schedObj w this)) ! i),
        e_room = Some r, e_time_slot = Some t\<rparr>) \<and>
    schedNext w' = schedNext w \<and>
    schedObj w' = (schedObj w)(this := (schedObj w this)
       \<lparr>s_events := s_events (schedObj w this) @ [Some (eventNext w)],
        eventNum := Suc (eventNum (schedObj w this))\<rparr>)"
proof -
  let ?s = "schedObj w this"
  let ?ev = "\<lparr>e_id = eventNum ?s, e_name = e_name (d_events (s_data ?s) ! i), e_room = None,
     e_time_slot = None\<rparr>"
  let ?w1 = "w\<lparr>eventObj := (eventObj w)(eventNext w := ?ev), eventNext := Suc (eventNext w)\<rparr>"
  let ?w2 = "sched_update this (\<lambda>s. s\<lparr>eventNum := eventNum s + 1\<rparr>) ?w1"
  let ?slot = "fst (getRandomTimeSlot ?w2)"
  let ?w3 = "snd (getRandomTimeSlot ?w2)"
  let ?w4 = "set_timeSlot (eventNext w) ?slot ?w3"
  have slot_eq: "?slot = fst (getRandomTimeSlot w)"
    by (simp add: getRandomTimeSlot_def random_index_def Math_random_def Let_def)
  from assms obtain room w5 where
    g: "getAvailableRoom this (e_time_slot (eventObj ?w4 (eventNext w))) ?w4 = Inr (room, w5)"
    and w': "w' = sched_update this (\<lambda>s. s\<lparr>s_events := s_events s @ [Some (eventNext w)]\<rparr>)
                (set_room (eventNext w) room w5)"
    by (auto simp: initialize_step_def new_Event_def Let_def split: prod.splits sum.splits)
  have ts: "e_time_slot (eventObj ?w4 (eventNext w)) = ?slot"
    by (simp add: set_timeSlot_def event_update_def)
  from getAvailableRoom_Inr [OF g] obtain t r where
    t: "?slot = Some t" and room: "room = Some r"
    and r: "r \<in> set (d_rooms (s_data (schedObj ?w4 this)))" "isAvailable ?w4 r (Some t) = Inr True"
    and w5: "w5 = ?w4\<lparr>randomCalls := Suc (randomCalls ?w4)\<rparr>"
    unfolding ts by auto
  have r1: "r \<in> set (d_rooms (s_data ?s))"
    using r(1) by (simp add: set_timeSlot_def event_update_def getRandomTimeSlot_world)
  have r2: "isAvailable w r (Some t) = Inr True"
    using r(2) by (simp add: isAvailable_def set_timeSlot_def event_update_def getRandomTimeSlot_world)
  show ?thesis
    apply (rule exI [of _ t], rule exI [of _ r])
    using t r1 r2 unfolding slot_eq w' w5 room
    by (simp add: set_timeSlot_def set_room_def event_update_def getRandomTimeSlot_world
        sched_update_def fun_eq_iff)
qed

lemma init_inv_step:
  assumes "init_inv a w1 k w" "initialize_step a i w = Inr w'"
  shows "init_inv a w1 (Suc k) w'"
proof -
  from initialize_step_Inr [OF assms(2)] obtain t r where
    f: "EVENT_START_TIME w' = EVENT_START_TIME w" "EVENT_END_TIME w' = EVENT_END_TIME w"
      "roomObj w' = roomObj w" "roomNext w' = roomNext w" "randomSource w' = randomSource w"
      "eventNext w' = Suc (eventNext w)" "schedNext w' = schedNext w"
    and eo: "eventObj w' = (eventObj w)(eventNext w :=
       \<lparr>e_id = eventNum (schedObj w a), e_name = e_name (d_events (s_data (schedObj w a)) ! i),
        e_room = Some r, e_time_slot = Some t\<rparr>)"
    and so: "schedObj w' = (schedObj w)(a := (schedObj w a)
       \<lparr>s_events := s_events (schedObj w a) @ [Some (eventNext w)],
        eventNum := Suc (eventNum (schedObj w a))\<rparr>)"
    by blast
  note inv = assms(1) [unfolded init_inv_def]
  have entries: "fresh_entry w1 w' j (s_events (schedObj w' a) ! j)" if "j < Suc k" for j
  proof (cases "j < k")
    case True
    with inv have "fresh_entry w1 w j (s_events (schedObj w a) ! j)" by simp
    then show ?thesis using True inv
      by (auto simp: so eo f fresh_entry_def entry_ok_def nth_append split: option.splits)
  next
    case False
    with that have "j = k" by simp
    then show ?thesis using inv
      by (simp add: so eo f fresh_entry_def entry_ok_def nth_append)
  qed
  show ?thesis
    unfolding init_inv_def
    using inv entries by (simp add: f so eo)
qed

lemma initialize_new:
  assumes "new_ScheduleEvents d w = (a, w1)" "initialize a w1 = Inr w2"
  shows "a = schedNext w \<and> init_inv a w1 (length (d_events d)) w2 \<and>
    schedNext w1 = Suc (schedNext w) \<and> s_data (schedObj w1 a) = d \<and>
    isFitnessChanged (schedObj w1 a) \<and> eventNext w1 = eventNext w \<and> eventObj w1 = eventObj w \<and>
    (\<forall>b. b \<noteq> a \<longrightarrow> schedObj w1 b = schedObj w b) \<and>
    EVENT_START_TIME w1 = EVENT_START_TIME w \<and> EVENT_END_TIME w1 = EVENT_END_TIME w \<and>
    roomObj w1 = roomObj w \<and> roomNext w1 = roomNext w \<and> randomSource w1 = randomSource w"
proof -
  from assms(1) have a: "a = schedNext w"
    and w1: "w1 = w\<lparr>schedObj := (schedObj w)(schedNext w :=
           \<lparr>s_data = d, s_events = [], numOfConflicts = 0, s_fitness = - 1, eventNum = 0,
            isFitnessChanged = True\<rparr>), schedNext := Suc (schedNext w)\<rparr>"
    by (auto simp: new_ScheduleEvents_def)
  have d: "s_data (schedObj w1 a) = d" by (simp add: w1 a)
  have i0: "init_inv a w1 0 w1" by (simp add: init_inv_def w1 a)
  from assms(2) have loop: "for_each [0..<length (d_events d)] (initialize_step a) w1 = Inr w2"
    by (simp add: initialize_def d)
  have "init_inv a w1 (length (d_events d)) w2"
    by (rule for_each_upt_invariant [where P = "init_inv a w1", OF loop])
      (auto intro: init_inv_step i0)
  then show ?thesis using a d by (simp add: w1)
qed

lemma touches_refl: "touches M w w"
  by (simp add: touches_def)

lemma touches_frame:
  assumes "touches M w w'"
  shows "frame M w w'"
proof (rule frameI)
  show "same_store w w'" using assms by (simp add: touches_def same_store_def)
next
  fix a assume "a < schedNext w" "a \<notin> M"
  with assms have "schedObj w' a = schedObj w a \<or>
      schedObj w' a = (schedObj w a)\<lparr>isFitnessChanged := True\<rparr>"
    by (simp add: touches_def)
  then show "s_events (schedObj w' a) = s_events (schedObj w a)" by auto
next
  fix a assume "a < schedNext w" "a \<notin> M"
  with assms have "schedObj w' a = schedObj w a \<or>
      schedObj w' a = (schedObj w a)\<lparr>isFitnessChanged := True\<rparr>"
    by (simp add: touches_def)
  then show "isFitnessChanged (schedObj w' a) \<or>
           (s_fitness (schedObj w' a) = s_fitness (schedObj w a) \<and>
            (isFitnessChanged (schedObj w a) \<longrightarrow> isFitnessChanged (schedObj w' a))) \<or>
           s_fitness (schedObj w' a) = fitness_of w a"
    by auto
qed

lemma touches_trans:
  assumes "touches M w w'" "touches M' w' w''"
  shows "touches (M \<union> M') w w''"
proof -
  have le: "schedNext w \<le> schedNext w'" "eventNext w \<le> eventNext w'"
    using assms(1) by (simp_all add: touches_def)
  have "schedObj w'' b = schedObj w b \<or> schedObj w'' b = (schedObj w b)\<lparr>isFitnessChanged := True\<rparr>"
    if b: "b < schedNext w" "b \<notin> M \<union> M'" for b
  proof -
    from b le have b': "b < schedNext w'" by simp
    from assms(1) b have 1: "schedObj w' b = schedObj w b \<or>
        schedObj w' b = (schedObj w b)\<lparr>isFitnessChanged := True\<rparr>" by (simp add: touches_def)
    from assms(2) b b' have 2: "schedObj w'' b = schedObj w' b \<or>
        schedObj w'' b = (schedObj w' b)\<lparr>isFitnessChanged := True\<rparr>" by (simp add: touches_def)
    from 1 2 show ?thesis by auto
  qed
  moreover have "s_data (schedObj w'' b) = s_data (schedObj w b)" if b: "b < schedNext w" for b
    using assms b le by (simp add: touches_def)
  moreover have "eventObj w'' e = eventObj w e" if "e < eventNext w" for e
    using assms that le by (simp add: touches_def)
  ultimately show ?thesis
    using assms unfolding touches_def by (auto intro: order_trans)
qed

lemma touches_mono: "touches M w w' \<Longrightarrow> M \<subseteq> M' \<Longrightarrow> touches M' w w'"
  unfolding touches_def by blast

lemma touches_fresh:
  assumes "touches M w w'" "\<And>a. a \<in> M \<Longrightarrow> a < schedNext w \<Longrightarrow> a \<in> M'"
  shows "touches M' w w'"
  using assms unfolding touches_def by blast

lemma touches_randomCalls: "touches M w (w\<lparr>randomCalls := k\<rparr>)"
  by (simp add: touches_def)

lemma touches_events_get: "touches M w (snd (events_get a w))"
  by (simp add: touches_def sched_update_def)

lemma touches_sched_update:
  assumes "s_data (g (schedObj w a)) = s_data (schedObj w a)"
  shows "touches {a} w (sched_update a g w)"
  using assms by (simp add: touches_def sched_update_def)

lemma initialize_new_added:
  assumes "new_ScheduleEvents d w = (a, w1)" "initialize a w1 = Inr w2"
  shows "added_schedule d a w w2"
proof -
  note n = initialize_new [OF assms]
  then have inv: "init_inv a w1 (length (d_events d)) w2" by blast
  note i = inv [unfolded init_inv_def]
  have t: "touches {} w w2"
    unfolding touches_def using n i by auto
  have fr: "fresh_entry w w2 j (s_events (schedObj w2 a) ! j)" if "j < length (d_events d)" for j
    using i that n by (auto simp: fresh_entry_def split: option.splits)
  show ?thesis
    unfolding added_schedule_def using n i t fr by auto
qed

lemma crossover_step_Inr:
  assumes "crossover_step c s1 s2 i w = Inr w'" "s1 \<noteq> Some c" "s2 \<noteq> Some c"
  shows "\<exists>p. (s1 = Some p \<or> s2 = Some p) \<and> p \<noteq> c \<and>
    touches {c} w w' \<and> eventNext w' = eventNext w \<and> eventObj w' = eventObj w \<and>
    schedNext w' = schedNext w \<and>
    (\<forall>b. b \<noteq> c \<longrightarrow> s_events (schedObj w' b) = s_events (schedObj w b)) \<and>
    s_data (schedObj w' c) = s_data (schedObj w c) \<and> isFitnessChanged (schedObj w' c) \<and>
    s_events (schedObj w' c) = js_set (s_events (schedObj w c)) i (js_get (s_events (schedObj w p)) i)"
proof -
  let ?u = "fst (Math_random w)"
  let ?w1 = "snd (Math_random w)"
  let ?po = "if ?u > 1 / 2 then s1 else s2"
  from assms(1) obtain p where p: "?po = Some p"
    by (cases ?po) (simp_all add: crossover_step_def case_prod_beta)
  with assms(2,3) have pc: "p \<noteq> c" by (auto split: if_splits)
  from p have pp: "s1 = Some p \<or> s2 = Some p" by (auto split: if_splits)
  let ?w2 = "snd (events_get c ?w1)"
  let ?w3 = "snd (events_get p ?w2)"
  let ?w4 = "sched_update c (\<lambda>s. s\<lparr>s_events := js_set (s_events s) i (js_get (fst (events_get p ?w2)) i)\<rparr>) ?w3"
  from assms(1) p have w': "w' = snd (events_get c ?w4)"
    by (simp add: crossover_step_def Let_def case_prod_beta del: events_get_snd events_get_fst)
  have t: "touches {c} w w'"
    unfolding w' using pc
    by (simp add: touches_def sched_update_def Math_random_def)
  show ?thesis
    apply (rule exI [of _ p])
    using pp pc t unfolding w'
    by (simp add: sched_update_def Math_random_def)
qed

lemma cross_inv_step:
  assumes "cross_inv c s1 s2 w0 k w" "crossover_step c s1 s2 k w = Inr w'"
    "s1 \<noteq> Some c" "s2 \<noteq> Some c" "k < length (s_events (schedObj w0 c))"
  shows "cross_inv c s1 s2 w0 (Suc k) w'"
proof -
  note inv = assms(1) [unfolded cross_inv_def]
  from crossover_step_Inr [OF assms(2,3,4)] obtain p where
    p: "s1 = Some p \<or> s2 = Some p" "p \<noteq> c"
    and t: "touches {c} w w'"
    and f: "eventNext w' = eventNext w" "eventObj w' = eventObj w" "schedNext w' = schedNext w"
      "s_data (schedObj w' c) = s_data (schedObj w c)" "isFitnessChanged (schedObj w' c)"
    and o: "\<forall>b. b \<noteq> c \<longrightarrow> s_events (schedObj w' b) = s_events (schedObj w b)"
    and e: "s_events (schedObj w' c) =
       js_set (s_events (schedObj w c)) k (js_get (s_events (schedObj w p)) k)"
    by blast
  from inv assms(5) have kl: "k < length (s_events (schedObj w c))" by simp
  from inv p(2) have pe: "s_events (schedObj w p) = s_events (schedObj w0 p)" by simp
  have e': "s_events (schedObj w' c) =
      (s_events (schedObj w c))[k := js_get (s_events (schedObj w0 p)) k]"
    using e kl by (simp add: js_set_def pe)
  have tt: "touches {c} w0 w'"
    using touches_trans [OF _ t, of "{c}" w0] inv by simp
  have fp: "from_parent w0 s1 s2 j (s_events (schedObj w' c) ! j)" if "j < Suc k" for j
  proof (cases "j = k")
    case True
    then show ?thesis using p(1) kl by (auto simp: e' from_parent_def)
  next
    case False
    with that have "j < k" by simp
    with inv have "from_parent w0 s1 s2 j (s_events (schedObj w c) ! j)" by simp
    with False show ?thesis by (simp add: e')
  qed
  show ?thesis
    unfolding cross_inv_def using inv tt f o fp by (simp add: e')
qed

lemma added_scheduleD:
  assumes "added_schedule d a w w'"
  shows "a = schedNext w" "schedNext w' = Suc a" "touches {} w w'"
    "s_data (schedObj w' a) = d" "isFitnessChanged (schedObj w' a)"
    "length (s_events (schedObj w' a)) = length (d_events d)"
    "\<And>i. i < length (d_events d) \<Longrightarrow> fresh_entry w w' i (s_events (schedObj w' a) ! i)"
  using assms by (auto simp: added_schedule_def)

lemma cross_invD:
  assumes "cross_inv c s1 s2 w0 k w"
  shows "touches {c} w0 w" "eventNext w = eventNext w0" "eventObj w = eventObj w0"
    "schedNext w = schedNext w0"
    "\<And>b. b \<noteq> c \<Longrightarrow> s_events (schedObj w b) = s_events (schedObj w0 b)"
    "s_data (schedObj w c) = s_data (schedObj w0 c)" "isFitnessChanged (schedObj w c)"
    "length (s_events (schedObj w c)) = length (s_events (schedObj w0 c))"
    "\<And>i. i < k \<Longrightarrow> from_parent w0 s1 s2 i (s_events (schedObj w c) ! i)"
  using assms by (auto simp: cross_inv_def)

lemma touches_old_events:
  assumes "touches M w w'" "b < schedNext w" "b \<notin> M"
  shows "s_events (schedObj w' b) = s_events (schedObj w b)"
proof -
  from assms have "schedObj w' b = schedObj w b \<or>
      schedObj w' b = (schedObj w b)\<lparr>isFitnessChanged := True\<rparr>"
    by (simp add: touches_def)
  then show ?thesis by auto
qed

lemma crossoverSchedule_Inr:
  assumes "crossoverSchedule s1 s2 w = Inr (c, w')"
    and "\<And>p. s1 = Some p \<or> s2 = Some p \<Longrightarrow> p < schedNext w"
  shows "\<exists>p1. s1 = Some p1 \<and> c = schedNext w \<and> schedNext w' = Suc c \<and> touches {} w w' \<and>
    s_data (schedObj w' c) = s_data (schedObj w p1) \<and> isFitnessChanged (schedObj w' c) \<and>
    length (s_events (schedObj w' c)) = length (d_events (s_data (schedObj w p1))) \<and>
    (\<forall>i<length (s_events (schedObj w' c)). from_parent w s1 s2 i (s_events (schedObj w' c) ! i))"
proof -
  from assms(1) obtain p1 where p1: "s1 = Some p1"
    by (cases s1) (simp_all add: crossoverSchedule_def)
  let ?d = "s_data (schedObj w p1)"
  let ?n = "length (d_events ?d)"
  obtain c0 w1 where n: "new_ScheduleEvents ?d w = (c0, w1)" by (cases "new_ScheduleEvents ?d w")
  from assms(1) p1 n obtain w2 where i: "initialize c0 w1 = Inr w2"
    by (auto simp: crossoverSchedule_def split: sum.splits)
  let ?w3 = "snd (events_get c0 w2)"
  from assms(1) p1 n i have c: "c = c0"
    and loop: "for_each [0..<length (s_events (schedObj w2 c0))] (crossover_step c0 s1 s2) ?w3 = Inr w'"
    by (auto simp: crossoverSchedule_def events_get_eq split: sum.splits)
  note ad = added_scheduleD [OF initialize_new_added [OF n i]]
  note c0 = ad(1)
  note len = ad(6)
  have neq: "s1 \<noteq> Some c0" "s2 \<noteq> Some c0"
    using assms(2) [of c0] c0 by auto
  have inv0: "cross_inv c0 s1 s2 ?w3 0 ?w3"
    by (simp add: cross_inv_def touches_refl)
  have inv: "cross_inv c0 s1 s2 ?w3 ?n w'"
    using loop unfolding len
  proof (rule for_each_upt_invariant [where P = "cross_inv c0 s1 s2 ?w3"])
    show "0 \<le> ?n" by simp
    show "cross_inv c0 s1 s2 ?w3 0 ?w3" by (rule inv0)
  next
    fix k a a' assume "k < ?n" "cross_inv c0 s1 s2 ?w3 k a" "crossover_step c0 s1 s2 k a = Inr a'"
    then show "cross_inv c0 s1 s2 ?w3 (Suc k) a'"
      using neq len by (intro cross_inv_step) simp_all
  qed
  note iv = cross_invD [OF inv]
  have t3: "touches {} w ?w3"
    using touches_trans [OF ad(3) touches_events_get [of "{}" w2 c0]] by simp
  have t: "touches {} w w'"
  proof (rule touches_fresh)
    show "touches ({} \<union> {c0}) w w'"
      by (rule touches_trans [OF t3 iv(1)])
  qed (simp add: c0)
  have ev3: "s_events (schedObj ?w3 p) = s_events (schedObj w p)" if "p < schedNext w" for p
    using touches_old_events [OF t3 that] by simp
  have ln: "length (s_events (schedObj w' c0)) = ?n" using iv(8) len by simp
  have fp: "from_parent w s1 s2 j (s_events (schedObj w' c0) ! j)"
    if "j < length (s_events (schedObj w' c0))" for j
  proof -
    from that ln have "j < ?n" by simp
    from iv(9) [OF this] obtain p where p: "s1 = Some p \<or> s2 = Some p"
      "s_events (schedObj w' c0) ! j = js_get (s_events (schedObj ?w3 p)) j"
      unfolding from_parent_def by blast
    from assms(2) [OF p(1)] have "p < schedNext w" .
    with p ev3 [of p] show ?thesis unfolding from_parent_def by auto
  qed
  have sn: "schedNext w' = Suc c0" using iv(4) ad(2) by simp
  have d: "s_data (schedObj w' c0) = ?d" using iv(6) ad(4) by simp
  have fl: "isFitnessChanged (schedObj w' c0)" using iv(7) .
  show ?thesis
    apply (rule exI [of _ p1])
    using p1 c c0 sn t d fl ln fp by simp
qed

lemma mut_invD:
  assumes "mut_inv m t w0 k w"
  shows "touches {m} w0 w" "eventNext w = eventNext w0" "eventObj w = eventObj w0"
    "schedNext w = schedNext w0"
    "\<And>b. b \<noteq> m \<Longrightarrow> s_events (schedObj w b) = s_events (schedObj w0 b)"
    "s_data (schedObj w m) = s_data (schedObj w0 m)" "isFitnessChanged (schedObj w m)"
    "length (s_events (schedObj w m)) = length (s_events (schedObj w0 m))"
    "\<And>i. i < length (s_events (schedObj w0 m)) \<Longrightarrow>
          s_events (schedObj w m) ! i = s_events (schedObj w0 m) ! i \<or>
          s_events (schedObj w m) ! i = js_get (s_events (schedObj w0 t)) i"
  using assms by (auto simp: mut_inv_def)

lemma mutate_step_Inr:
  assumes "mutate_step m t i w = Inr w'" "t \<noteq> m"
  shows "touches {m} w w'" "eventNext w' = eventNext w" "eventObj w' = eventObj w"
    "schedNext w' = schedNext w"
    "\<And>b. b \<noteq> m \<Longrightarrow> s_events (schedObj w' b) = s_events (schedObj w b)"
    "s_data (schedObj w' m) = s_data (schedObj w m)" "isFitnessChanged (schedObj w' m)"
    "s_events (schedObj w' m) = s_events (schedObj w m) \<or>
     s_events (schedObj w' m) = js_set (s_events (schedObj w m)) i (js_get (s_events (schedObj w t)) i)"
proof -
  let ?w1 = "snd (Math_random w)"
  let ?w3 = "snd (events_get t (snd (events_get m ?w1)))"
  let ?w4 = "sched_update m (\<lambda>s. s\<lparr>s_events := js_set (s_events s) i
      (js_get (fst (events_get t (snd (events_get m ?w1)))) i)\<rparr>) ?w3"
  from assms(1) have w': "w' = snd (events_get m ?w4) \<or> w' = snd (events_get m ?w1)"
    by (simp add: mutate_step_def Let_def case_prod_beta del: events_get_snd events_get_fst
        split: if_splits)
  then show "touches {m} w w'" "eventNext w' = eventNext w" "eventObj w' = eventObj w"
    "schedNext w' = schedNext w"
    "\<And>b. b \<noteq> m \<Longrightarrow> s_events (schedObj w' b) = s_events (schedObj w b)"
    "s_data (schedObj w' m) = s_data (schedObj w m)" "isFitnessChanged (schedObj w' m)"
    "s_events (schedObj w' m) = s_events (schedObj w m) \<or>
     s_events (schedObj w' m) = js_set (s_events (schedObj w m)) i (js_get (s_events (schedObj w t)) i)"
    using assms(2)
    by (auto simp: touches_def sched_update_def Math_random_def)
qed

lemma mut_inv_step:
  assumes "mut_inv m t w0 k w" "mutate_step m t k w = Inr w'" "t \<noteq> m"
    "k < length (s_events (schedObj w0 m))"
  shows "mut_inv m t w0 (Suc k) w'"
proof -
  note iv = mut_invD [OF assms(1)]
  note st = mutate_step_Inr [OF assms(2,3)]
  have kl: "k < length (s_events (schedObj w m))" using iv(8) assms(4) by simp
  have te: "s_events (schedObj w t) = s_events (schedObj w0 t)" using iv(5) assms(3) by simp
  from st(8) have e: "s_events (schedObj w' m) = s_events (schedObj w m) \<or>
      s_events (schedObj w' m) = (s_events (schedObj w m))[k := js_get (s_events (schedObj w0 t)) k]"
    using kl by (simp add: js_set_def te)
  have len: "length (s_events (schedObj w' m)) = length (s_events (schedObj w0 m))"
    using e iv(8) by auto
  have ent: "s_events (schedObj w' m) ! j = s_events (schedObj w0 m) ! j \<or>
      s_events (schedObj w' m) ! j = js_get (s_events (schedObj w0 t)) j"
    if "j < length (s_events (schedObj w0 m))" for j
    using e iv(9) [OF that] kl by (cases "j = k") auto
  have tt: "touches {m} w0 w'"
    using touches_trans [OF iv(1) st(1)] by simp
  show ?thesis
    unfolding mut_inv_def
    using tt st(2,3,4,5,6,7) iv(2,3,4,5,6) len ent by simp
qed

lemma fresh_scheduleD:
  assumes "fresh_schedule d a w w'"
  shows "a = schedNext w" "s_data (schedObj w' a) = d" "isFitnessChanged (schedObj w' a)"
    "length (s_events (schedObj w' a)) = length (d_events d)"
    "\<And>i. i < length (d_events d) \<Longrightarrow> fresh_entry w w' i (s_events (schedObj w' a) ! i)"
  using assms by (auto simp: fresh_schedule_def)

lemma added_schedule_fresh: "added_schedule d a w w' \<Longrightarrow> fresh_schedule d a w w'"
  by (auto simp: added_schedule_def fresh_schedule_def)

lemma mutateSchedule_Inr:
  assumes "mutateSchedule mo w = Inr (r, w')" and "\<And>m. mo = Some m \<Longrightarrow> m < schedNext w"
  shows "\<exists>m. mo = Some m \<and> r = m \<and> schedNext w' = Suc (schedNext w) \<and> touches {m} w w' \<and>
    fresh_schedule (s_data (schedObj w m)) (schedNext w) w w' \<and>
    s_data (schedObj w' m) = s_data (schedObj w m) \<and> isFitnessChanged (schedObj w' m) \<and>
    length (s_events (schedObj w' m)) = length (s_events (schedObj w m)) \<and>
    (\<forall>i<length (s_events (schedObj w m)).
        s_events (schedObj w' m) ! i = s_events (schedObj w m) ! i \<or>
        s_events (schedObj w' m) ! i = js_get (s_events (schedObj w' (schedNext w))) i)"
proof -
  from assms(1) obtain m where m: "mo = Some m"
    by (cases mo) (simp_all add: mutateSchedule_def)
  from assms(2) [OF m] have ml: "m < schedNext w" .
  let ?d = "s_data (schedObj w m)"
  obtain t w1 where n: "new_ScheduleEvents ?d w = (t, w1)" by (cases "new_ScheduleEvents ?d w")
  from assms(1) m n obtain w2 where i: "initialize t w1 = Inr w2"
    by (auto simp: mutateSchedule_def split: sum.splits)
  let ?w3 = "snd (events_get m w2)"
  from assms(1) m n i have r: "r = m"
    and loop: "for_each [0..<length (s_events (schedObj w2 m))] (mutate_step m t) ?w3 = Inr w'"
    by (auto simp: mutateSchedule_def events_get_eq split: sum.splits)
  note ad = added_scheduleD [OF initialize_new_added [OF n i]]
  from ad(1) ml have tm: "t \<noteq> m" by simp
  have em: "s_events (schedObj w2 m) = s_events (schedObj w m)"
    using touches_old_events [OF ad(3) ml] by simp
  have e3: "s_events (schedObj ?w3 b) = s_events (schedObj w2 b)" for b
    by (simp add: sched_update_def)
  let ?n = "length (s_events (schedObj w m))"
  have inv: "mut_inv m t ?w3 ?n w'"
    using loop unfolding em
  proof (rule for_each_upt_invariant [where P = "mut_inv m t ?w3"])
    show "0 \<le> ?n" by simp
    show "mut_inv m t ?w3 0 ?w3" by (simp add: mut_inv_def touches_refl)
  next
    fix k a a' assume "k < ?n" "mut_inv m t ?w3 k a" "mutate_step m t k a = Inr a'"
    then show "mut_inv m t ?w3 (Suc k) a'"
      using tm em by (intro mut_inv_step) (simp_all add: sched_update_def)
  qed
  note iv = mut_invD [OF inv]
  have t3: "touches {} w ?w3"
    using touches_trans [OF ad(3) touches_events_get [of "{}" w2 m]] by simp
  have t: "touches {m} w w'"
    using touches_trans [OF t3 iv(1)] by simp
  have te: "s_events (schedObj w' t) = s_events (schedObj w2 t)"
    using iv(5) [OF tm] by (simp add: e3)
  have sn: "schedNext w' = Suc (schedNext w)" using iv(4) ad(1,2) by simp
  have dt: "s_data (schedObj w' t) = ?d"
  proof -
    have "t < schedNext ?w3" using ad(2) by simp
    with iv(1) have "s_data (schedObj w' t) = s_data (schedObj ?w3 t)" by (simp add: touches_def)
    then show ?thesis using ad(4) tm by (simp add: sched_update_def)
  qed
  have ft: "isFitnessChanged (schedObj w' t)"
  proof -
    have tl: "t < schedNext ?w3" using ad(2) by simp
    from iv(1) tl tm have "schedObj w' t = schedObj ?w3 t \<or>
        schedObj w' t = (schedObj ?w3 t)\<lparr>isFitnessChanged := True\<rparr>"
      by (simp add: touches_def)
    then show ?thesis using ad(5) tm by (auto simp: sched_update_def)
  qed
  have fe: "fresh_entry w w' j (s_events (schedObj w' t) ! j)" if "j < length (d_events ?d)" for j
    using ad(7) [OF that] iv(2,3) unfolding te
    by (simp add: fresh_entry_def entry_ok_def sched_update_def split: option.splits)
  have fs: "fresh_schedule ?d t w w'"
    unfolding fresh_schedule_def using ad(1) dt ft ad(6) te fe by simp
  have dm: "s_data (schedObj w' m) = s_data (schedObj w m)"
  proof -
    from ad(3) ml have "s_data (schedObj w2 m) = s_data (schedObj w m)" by (simp add: touches_def)
    with iv(6) show ?thesis by (simp add: sched_update_def)
  qed
  have lm: "length (s_events (schedObj w' m)) = length (s_events (schedObj w m))"
    using iv(8) by (simp add: e3 em)
  have en: "s_events (schedObj w' m) ! j = s_events (schedObj w m) ! j \<or>
        s_events (schedObj w' m) ! j = js_get (s_events (schedObj w' t)) j"
    if "j < length (s_events (schedObj w m))" for j
  proof -
    from that have "j < length (s_events (schedObj ?w3 m))" by (simp add: e3 em)
    from iv(9) [OF this] show ?thesis using tm by (simp add: e3 em te)
  qed
  show ?thesis
    apply (rule exI [of _ m])
    using m r sn t fs dm iv(7) lm en ad(1) by simp
qed

section \<open>Tournaments, crossover and mutation of a population\<close>

lemma quietD:
  assumes "quiet w w'"
  shows "frame {} w w'" "schedNext w' = schedNext w" "eventNext w' = eventNext w"
    "eventObj w' = eventObj w" "s_events (schedObj w' b) = s_events (schedObj w b)"
    "s_data (schedObj w' b) = s_data (schedObj w b)"
  using assms by (auto simp: quiet_def)

lemma quiet_refl: "quiet w w"
  by (simp add: quiet_def frame_refl)

lemma quiet_trans: "quiet w w' \<Longrightarrow> quiet w' w'' \<Longrightarrow> quiet w w''"
  unfolding quiet_def using frame_trans_empty by auto

lemma quiet_randomCalls: "quiet w (w\<lparr>randomCalls := k\<rparr>)"
  by (simp add: quiet_def frame_randomCalls)

lemma caches_only_quiet:
  assumes "frame {} w w'" "caches_only w w'"
  shows "quiet w w'"
  unfolding quiet_def using assms caches_only_fields [OF assms(2)] by simp

lemma sort_by_fitness_quiet:
  assumes "sort_by_fitness xs w = Inr (ys, w')"
  shows "quiet w w'"
  using sort_by_fitness_spec [OF assms] by (blast intro: caches_only_quiet)

lemma new_PopulationEvents_0 [simp]:
  "new_PopulationEvents 0 d w = Inr (\<lparr>p_size = 0, p_data = d, schedules = []\<rparr>, w)"
  by (simp add: new_PopulationEvents_def)

lemma tournament_step_inv:
  assumes "tour_inv pop w k acc" "tournament_step pop i acc = Inr acc'"
  shows "tour_inv pop w (Suc k) acc'"
proof -
  obtain tp w1 where acc: "acc = (tp, w1)" by (cases acc)
  let ?k = "fst (random_index POPULATION_SIZE w1)"
  from assms(2) have acc': "acc' = (tp\<lparr>schedules := schedules tp @ [js_get (schedules pop) ?k]\<rparr>,
      snd (random_index POPULATION_SIZE w1))"
    by (simp add: tournament_step_def acc case_prod_beta)
  have "?k < POPULATION_SIZE" by (rule random_index_bound) (simp add: POPULATION_SIZE_def)
  then have "js_get (schedules pop) ?k \<in> picks pop" by (auto simp: picks_def)
  moreover have "quiet w (snd acc')"
    using assms(1) quiet_trans [OF _ quiet_randomCalls]
    by (simp add: tour_inv_def acc acc' random_index_world)
  ultimately show ?thesis using assms(1) by (simp add: tour_inv_def acc acc')
qed

lemma selectTournamentPopulation_Inr:
  assumes "selectTournamentPopulation pop w = Inr (tp, w')"
  shows "quiet w w' \<and> length (schedules tp) = TOURNAMENT_SELECTION_SIZE_EVENTS \<and>
    set (schedules tp) \<subseteq> picks pop"
proof -
  let ?tp0 = "\<lparr>p_size = 0, p_data = p_data pop, schedules = []\<rparr>"
  from assms obtain tp1 w1 where
    loop: "for_each [0..<TOURNAMENT_SELECTION_SIZE_EVENTS] (tournament_step pop) (?tp0, w) = Inr (tp1, w1)"
    by (auto simp: selectTournamentPopulation_def split: sum.splits)
  from assms loop obtain ys where s: "sort_by_fitness (schedules tp1) w1 = Inr (ys, w')"
    and tp: "tp = tp1\<lparr>schedules := ys\<rparr>"
    by (auto simp: selectTournamentPopulation_def split: sum.splits)
  have "tour_inv pop w TOURNAMENT_SELECTION_SIZE_EVENTS (tp1, w1)"
    using loop
  proof (rule for_each_upt_invariant [where P = "tour_inv pop w"])
    show "tour_inv pop w 0 (?tp0, w)" by (simp add: tour_inv_def quiet_refl)
  next
    fix k a a' assume "tour_inv pop w k a" "tournament_step pop k a = Inr a'"
    then show "tour_inv pop w (Suc k) a'" by (rule tournament_step_inv)
  qed simp
  then have i: "quiet w w1" "length (schedules tp1) = TOURNAMENT_SELECTION_SIZE_EVENTS"
    "set (schedules tp1) \<subseteq> picks pop"
    by (simp_all add: tour_inv_def)
  from sort_by_fitness_spec [OF s] have "set ys = set (schedules tp1)" "length ys = length (schedules tp1)"
    by simp_all
  with i quiet_trans [OF i(1) sort_by_fitness_quiet [OF s]] show ?thesis
    by (simp add: tp)
qed

lemma picks_alloc:
  assumes "pop_alloc w pop" "Some a \<in> picks pop"
  shows "a < schedNext w \<and> Some a \<in> set (schedules pop)"
proof -
  from assms(2) obtain k where "Some a = js_get (schedules pop) k" by (auto simp: picks_def)
  then have "Some a \<in> set (schedules pop)"
    by (auto simp: js_get_def split: if_splits)
  with assms(1) show ?thesis by (simp add: pop_alloc_def)
qed

lemma js_get_0_in_set:
  assumes "js_get xs 0 = Some a"
  shows "Some a \<in> set xs"
  using assms by (cases xs) (auto simp: js_get_def)

lemma crossoverPopulation_step_Inr:
  assumes "crossoverPopulation_step pop i (cp, w) = Inr (cp', w')" "pop_alloc w pop"
  shows "\<exists>t1 w1 t2 w2 c. selectTournamentPopulation pop w = Inr (t1, w1) \<and>
    selectTournamentPopulation pop w1 = Inr (t2, w2) \<and>
    crossoverSchedule (js_get (schedules t1) 0) (js_get (schedules t2) 0) w2 = Inr (c, w') \<and>
    cp' = cp\<lparr>schedules := schedules cp @ [Some c]\<rparr> \<and>
    quiet w w2 \<and> c = schedNext w \<and> schedNext w' = Suc c \<and> touches {} w2 w' \<and> frame {} w w' \<and>
    (\<forall>p. js_get (schedules t1) 0 = Some p \<or> js_get (schedules t2) 0 = Some p \<longrightarrow>
        p < schedNext w \<and> Some p \<in> set (schedules pop))"
proof -
  from assms(1) obtain t1 w1 where t1: "selectTournamentPopulation pop w = Inr (t1, w1)"
    by (auto simp: crossoverPopulation_step_def split: sum.splits)
  from assms(1) t1 obtain t2 w2 where t2: "selectTournamentPopulation pop w1 = Inr (t2, w2)"
    by (auto simp: crossoverPopulation_step_def split: sum.splits)
  from assms(1) t1 t2 obtain c where
    c: "crossoverSchedule (js_get (schedules t1) 0) (js_get (schedules t2) 0) w2 = Inr (c, w')"
    and cp': "cp' = cp\<lparr>schedules := schedules cp @ [Some c]\<rparr>"
    by (auto simp: crossoverPopulation_step_def split: sum.splits)
  note s1 = selectTournamentPopulation_Inr [OF t1]
  note s2 = selectTournamentPopulation_Inr [OF t2]
  from s1 s2 have q: "quiet w w2" by (blast intro: quiet_trans)
  note qd = quietD [OF q]
  have par: "p < schedNext w \<and> Some p \<in> set (schedules pop)"
    if "js_get (schedules t1) 0 = Some p \<or> js_get (schedules t2) 0 = Some p" for p
  proof -
    from that have "Some p \<in> set (schedules t1) \<or> Some p \<in> set (schedules t2)"
      by (auto dest: js_get_0_in_set)
    with s1 s2 have "Some p \<in> picks pop" by auto
    with picks_alloc [OF assms(2)] show ?thesis by simp
  qed
  have par2: "p < schedNext w2"
    if "js_get (schedules t1) 0 = Some p \<or> js_get (schedules t2) 0 = Some p" for p
    using par [OF that] qd(2) by simp
  from crossoverSchedule_Inr [OF c par2] have cs: "c = schedNext w2" "schedNext w' = Suc c"
    "touches {} w2 w'"
    by auto
  have fr: "frame {} w w'"
    using frame_trans_empty [OF qd(1) touches_frame [OF cs(3)]] .
  show ?thesis
    using t1 t2 c cp' q cs fr par qd(2) by auto
qed

lemma cpop_inv_step:
  assumes "cpop_inv pop w0 k acc" "crossoverPopulation_step pop i acc = Inr acc'"
    "pop_alloc w0 pop" "NUMB_OF_ELITE_EVENTS \<le> k"
  shows "cpop_inv pop w0 (Suc k) acc'"
proof -
  obtain cp w where acc: "acc = (cp, w)" by (cases acc)
  obtain cp' w' where acc': "acc' = (cp', w')" by (cases acc')
  from assms(1) have iv: "frame {} w0 w" "schedNext w0 \<le> schedNext w" "length (schedules cp) = k"
    "take NUMB_OF_ELITE_EVENTS (schedules cp) = [js_get (schedules pop) 0, js_get (schedules pop) 1]"
    "\<And>j. NUMB_OF_ELITE_EVENTS \<le> j \<Longrightarrow> j < k \<Longrightarrow>
       \<exists>c. schedules cp ! j = Some c \<and> schedNext w0 \<le> c \<and> c < schedNext w"
    by (auto simp: cpop_inv_def acc)
  have pa: "pop_alloc w pop" using assms(3) iv(2) by (auto simp: pop_alloc_def)
  from crossoverPopulation_step_Inr [OF assms(2) [unfolded acc acc'] pa] obtain c where
    cp': "cp' = cp\<lparr>schedules := schedules cp @ [Some c]\<rparr>"
    and c: "c = schedNext w" "schedNext w' = Suc c" "frame {} w w'"
    by blast
  have "frame {} w0 w'" using frame_trans_empty [OF iv(1) c(3)] .
  moreover have "schedNext w0 \<le> schedNext w'" using iv(2) c by simp
  moreover have "length (schedules cp') = Suc k" using iv(3) by (simp add: cp')
  moreover have "take NUMB_OF_ELITE_EVENTS (schedules cp') =
      [js_get (schedules pop) 0, js_get (schedules pop) 1]"
    using iv(3,4) assms(4) by (simp add: cp')
  moreover have "\<exists>c. schedules cp' ! j = Some c \<and> schedNext w0 \<le> c \<and> c < schedNext w'"
    if "NUMB_OF_ELITE_EVENTS \<le> j" "j < Suc k" for j
  proof (cases "j < k")
    case True
    from iv(5) [OF that(1) True] obtain d where "schedules cp ! j = Some d" "schedNext w0 \<le> d"
      "d < schedNext w" by blast
    then show ?thesis using True iv(3) c by (auto simp: cp' nth_append)
  next
    case False
    with that have "j = k" by simp
    then show ?thesis using iv(2,3) c by (simp add: cp' nth_append)
  qed
  ultimately show ?thesis by (simp add: cpop_inv_def acc')
qed

lemma crossoverPopulation_Inr:
  assumes "crossoverPopulation pop w = Inr (cp, w')" "pop_alloc w pop"
  shows "cpop_inv pop w POPULATION_SIZE (cp, w')"
proof -
  let ?cp0 = "\<lparr>p_size = 0, p_data = p_data pop, schedules = []\<rparr>"
  let ?el = "fold (\<lambda>i cp. cp\<lparr>schedules := schedules cp @ [js_get (schedules pop) i]\<rparr>)
      [0..<NUMB_OF_ELITE_EVENTS] ?cp0"
  have el: "schedules ?el = [js_get (schedules pop) 0, js_get (schedules pop) 1]"
    by (simp add: NUMB_OF_ELITE_EVENTS_def upt_2)
  from assms(1) have loop: "for_each [NUMB_OF_ELITE_EVENTS..<POPULATION_SIZE]
      (crossoverPopulation_step pop) (?el, w) = Inr (cp, w')"
    by (simp add: crossoverPopulation_def Let_def)
  show ?thesis using loop
  proof (rule for_each_upt_invariant [where P = "cpop_inv pop w"])
    show "NUMB_OF_ELITE_EVENTS \<le> POPULATION_SIZE"
      by (simp add: NUMB_OF_ELITE_EVENTS_def POPULATION_SIZE_def)
    show "cpop_inv pop w NUMB_OF_ELITE_EVENTS (?el, w)"
      unfolding cpop_inv_def using el by (auto simp: frame_refl NUMB_OF_ELITE_EVENTS_def)
  next
    fix k a a' assume "NUMB_OF_ELITE_EVENTS \<le> k" "cpop_inv pop w k a"
      "crossoverPopulation_step pop k a = Inr a'"
    then show "cpop_inv pop w (Suc k) a'" using assms(2) by (intro cpop_inv_step)
  qed
qed

lemma cpop_invD:
  assumes "cpop_inv pop w0 k (cp, w)"
  shows "frame {} w0 w" "schedNext w0 \<le> schedNext w" "length (schedules cp) = k"
    "take NUMB_OF_ELITE_EVENTS (schedules cp) = [js_get (schedules pop) 0, js_get (schedules pop) 1]"
    "\<And>j. NUMB_OF_ELITE_EVENTS \<le> j \<Longrightarrow> j < k \<Longrightarrow>
       \<exists>c. schedules cp ! j = Some c \<and> schedNext w0 \<le> c \<and> c < schedNext w"
  using assms by (auto simp: cpop_inv_def)

lemma mutatePopulation_step_Inr:
  assumes "mutatePopulation_step population i w = Inr w'"
    "js_get (schedules population) i = Some m" "m < schedNext w"
  shows "touches {m} w w' \<and> schedNext w' = Suc (schedNext w)"
proof -
  from assms(1,2) obtain r where ms: "mutateSchedule (Some m) w = Inr (r, w')"
    by (auto simp: mutatePopulation_step_def split: sum.splits)
  from mutateSchedule_Inr [OF ms] assms(3) show ?thesis by auto
qed

lemma mutatePopulation_Inr:
  assumes "mutatePopulation population w = Inr (p', w')"
    and "length (schedules population) = POPULATION_SIZE"
    and "\<And>j. NUMB_OF_ELITE_EVENTS \<le> j \<Longrightarrow> j < POPULATION_SIZE \<Longrightarrow>
       \<exists>c. schedules population ! j = Some c \<and> lo \<le> c \<and> c < schedNext w"
  shows "p' = population \<and> frame {a. lo \<le> a} w w' \<and> schedNext w \<le> schedNext w'"
proof -
  from assms(1) have p': "p' = population"
    and loop: "for_each [NUMB_OF_ELITE_EVENTS..<POPULATION_SIZE] (mutatePopulation_step population) w = Inr w'"
    by (auto simp: mutatePopulation_def split: sum.splits)
  have "mpop_inv lo w POPULATION_SIZE w'" using loop
  proof (rule for_each_upt_invariant [where P = "mpop_inv lo w"])
    show "NUMB_OF_ELITE_EVENTS \<le> POPULATION_SIZE"
      by (simp add: NUMB_OF_ELITE_EVENTS_def POPULATION_SIZE_def)
    show "mpop_inv lo w NUMB_OF_ELITE_EVENTS w" by (simp add: mpop_inv_def frame_refl)
  next
    fix k a a' assume k: "NUMB_OF_ELITE_EVENTS \<le> k" "k < POPULATION_SIZE"
      and iv: "mpop_inv lo w k a" and st: "mutatePopulation_step population k a = Inr a'"
    from assms(3) [OF k] obtain c where c: "schedules population ! k = Some c" "lo \<le> c"
      "c < schedNext w" by blast
    from c(1) k(2) assms(2) have g: "js_get (schedules population) k = Some c"
      by (simp add: js_get_def)
    from iv c(3) have ca: "c < schedNext a" by (simp add: mpop_inv_def)
    note m = mutatePopulation_step_Inr [OF st g ca]
    from m have fc: "frame {c} a a'" by (blast intro: touches_frame)
    from iv have "frame {a. lo \<le> a} w a" by (simp add: mpop_inv_def)
    from frame_trans [OF this fc] have "frame ({a. lo \<le> a} \<union> {c}) w a'" .
    moreover have "{a. lo \<le> a} \<union> {c} = {a. lo \<le> a}" using c(2) by auto
    ultimately show "mpop_inv lo w (Suc k) a'" using iv m by (simp add: mpop_inv_def)
  qed
  with p' show ?thesis by (simp add: mpop_inv_def)
qed

lemma evolve_Inr:
  assumes "evolve pop w = Inr (p', w')" "pop_alloc w pop"
  shows "frame {} w w'" "schedNext w \<le> schedNext w'" "length (schedules p') = POPULATION_SIZE"
    "take NUMB_OF_ELITE_EVENTS (schedules p') = [js_get (schedules pop) 0, js_get (schedules pop) 1]"
    "\<And>j. NUMB_OF_ELITE_EVENTS \<le> j \<Longrightarrow> j < POPULATION_SIZE \<Longrightarrow>
       \<exists>c. schedules p' ! j = Some c \<and> schedNext w \<le> c \<and> c < schedNext w'"
proof -
  from assms(1) obtain cp w1 where c: "crossoverPopulation pop w = Inr (cp, w1)"
    and m: "mutatePopulation cp w1 = Inr (p', w')"
    by (auto simp: evolve_def split: sum.splits)
  note ci = cpop_invD [OF crossoverPopulation_Inr [OF c assms(2)]]
  note mi = mutatePopulation_Inr [OF m ci(3) ci(5)]
  from mi have p': "p' = cp" and f2: "frame {a. schedNext w \<le> a} w1 w'"
    and le: "schedNext w1 \<le> schedNext w'" by simp_all
  show "frame {} w w'"
  proof (rule frame_fresh)
    show "frame ({} \<union> {a. schedNext w \<le> a}) w w'" by (rule frame_trans [OF ci(1) f2])
  qed simp
  show "schedNext w \<le> schedNext w'" using ci(2) le by simp
  show "length (schedules p') = POPULATION_SIZE" using ci(3) p' by simp
  show "take NUMB_OF_ELITE_EVENTS (schedules p') = [js_get (schedules pop) 0, js_get (schedules pop) 1]"
    using ci(4) p' by simp
  show "\<exists>c. schedules p' ! j = Some c \<and> schedNext w \<le> c \<and> c < schedNext w'"
    if "NUMB_OF_ELITE_EVENTS \<le> j" "j < POPULATION_SIZE" for j
    using ci(5) [OF that] le p' by auto
qed

lemma sched_okD:
  assumes "sched_ok D w a"
  shows "a < schedNext w" "s_data (schedObj w a) = D"
    "length (s_events (schedObj w a)) = length (d_events D)"
    "entries_ok w (s_events (schedObj w a))" "coherent w a"
  using assms by (auto simp: sched_ok_def)

lemma entry_ok_same:
  assumes "entry_ok w i x" "eventNext w \<le> eventNext w'" "\<And>e. e < eventNext w \<Longrightarrow> eventObj w' e = eventObj w e"
  shows "entry_ok w' i x"
  using assms by (auto simp: entry_ok_def split: option.splits)

lemma entries_ok_same_store:
  assumes "entries_ok w evs" "same_store w w'"
  shows "entries_ok w' evs"
  using assms unfolding entries_ok_def same_store_def
  by (auto intro: entry_ok_same)

lemma entries_ok_allocated: "entries_ok w evs \<Longrightarrow> allocated w evs"
  unfolding entries_ok_def allocated_def list_all_length entry_ok_def
  by (auto split: option.splits)

lemma entries_ok_assigned: "entries_ok w evs \<Longrightarrow> list_all (assigned w) evs"
  unfolding entries_ok_def list_all_length entry_ok_def assigned_def
  by (auto split: option.splits)

lemma sched_ok_frame:
  assumes "sched_ok D w a" "frame M w w'" "a \<notin> M"
  shows "sched_ok D w' a"
proof -
  note ok = sched_okD [OF assms(1)]
  note ss = frame_same_store [OF assms(2)]
  from assms(2) ok(1) assms(3) have ev: "s_events (schedObj w' a) = s_events (schedObj w a)"
    and co: "allocated w (s_events (schedObj w a)) \<Longrightarrow> coherent w a \<Longrightarrow> coherent w' a"
    by (simp_all add: frame_def)
  from ss ok(1) have "a < schedNext w'" "s_data (schedObj w' a) = s_data (schedObj w a)"
    by (simp_all add: same_store_def)
  moreover have "entries_ok w' (s_events (schedObj w' a))"
    unfolding ev using ok(4) ss by (rule entries_ok_same_store)
  moreover have "coherent w' a" using co entries_ok_allocated [OF ok(4)] ok(5) by simp
  ultimately show ?thesis using ok(2,3) by (simp add: sched_ok_def ev)
qed

lemma fresh_entry_ok: "fresh_entry w w' i x \<Longrightarrow> entry_ok w' i x"
  by (auto simp: fresh_entry_def split: option.splits)

lemma touches_same_store: "touches M w w' \<Longrightarrow> same_store w w'"
  by (simp add: touches_def same_store_def)

lemma crossoverSchedule_ok:
  assumes "crossoverSchedule (Some p1) (Some p2) w = Inr (c, w')"
    "sched_ok D w p1" "sched_ok D w p2"
  shows "sched_ok D w' c"
proof -
  note o1 = sched_okD [OF assms(2)]
  note o2 = sched_okD [OF assms(3)]
  have al: "p < schedNext w" if "Some p1 = Some p \<or> Some p2 = Some p" for p
    using that o1(1) o2(1) by auto
  from crossoverSchedule_Inr [OF assms(1) al] have
    c: "c = schedNext w" "schedNext w' = Suc c" "touches {} w w'"
      "s_data (schedObj w' c) = D" "isFitnessChanged (schedObj w' c)"
      "length (s_events (schedObj w' c)) = length (d_events D)"
    and fp: "\<And>i. i < length (s_events (schedObj w' c)) \<Longrightarrow>
        from_parent w (Some p1) (Some p2) i (s_events (schedObj w' c) ! i)"
    using o1(2) by auto
  note ss = touches_same_store [OF c(3)]
  have "entry_ok w' i (s_events (schedObj w' c) ! i)" if i: "i < length (s_events (schedObj w' c))" for i
  proof -
    from fp [OF i] obtain p where p: "p = p1 \<or> p = p2"
      "s_events (schedObj w' c) ! i = js_get (s_events (schedObj w p)) i"
      by (auto simp: from_parent_def)
    from p(1) o1(3,4) o2(3,4) have pl: "length (s_events (schedObj w p)) = length (d_events D)"
      and pe: "entries_ok w (s_events (schedObj w p))" by auto
    from i c(6) pl have "i < length (s_events (schedObj w p))" by simp
    with pe p(2) have "entry_ok w i (s_events (schedObj w' c) ! i)"
      by (simp add: entries_ok_def js_get_def)
    then show ?thesis using ss by (auto simp: same_store_def intro: entry_ok_same)
  qed
  then have "entries_ok w' (s_events (schedObj w' c))" by (simp add: entries_ok_def)
  then show ?thesis using c by (simp add: sched_ok_def coherent_def)
qed

lemma mutateSchedule_ok:
  assumes "mutateSchedule (Some m) w = Inr (r, w')" "sched_ok D w m"
  shows "sched_ok D w' m"
proof -
  note ok = sched_okD [OF assms(2)]
  from mutateSchedule_Inr [OF assms(1)] ok(1) have
    m: "schedNext w' = Suc (schedNext w)" "touches {m} w w'"
      "fresh_schedule D (schedNext w) w w'"
      "s_data (schedObj w' m) = D" "isFitnessChanged (schedObj w' m)"
      "length (s_events (schedObj w' m)) = length (s_events (schedObj w m))"
    and en: "\<And>i. i < length (s_events (schedObj w m)) \<Longrightarrow>
        s_events (schedObj w' m) ! i = s_events (schedObj w m) ! i \<or>
        s_events (schedObj w' m) ! i = js_get (s_events (schedObj w' (schedNext w))) i"
    using ok(2) by auto
  note fs = fresh_scheduleD [OF m(3)]
  note ss = touches_same_store [OF m(2)]
  have "entry_ok w' i (s_events (schedObj w' m) ! i)" if i: "i < length (s_events (schedObj w' m))" for i
  proof -
    from i m(6) ok(3) have il: "i < length (s_events (schedObj w m))" "i < length (d_events D)"
      by simp_all
    from en [OF il(1)] show ?thesis
    proof
      assume "s_events (schedObj w' m) ! i = s_events (schedObj w m) ! i"
      moreover from ok(4) il(1) have "entry_ok w i (s_events (schedObj w m) ! i)"
        by (simp add: entries_ok_def)
      ultimately show ?thesis using ss by (auto simp: same_store_def intro: entry_ok_same)
    next
      assume e: "s_events (schedObj w' m) ! i = js_get (s_events (schedObj w' (schedNext w))) i"
      from fs(4) il(2) have "js_get (s_events (schedObj w' (schedNext w))) i =
          s_events (schedObj w' (schedNext w)) ! i" by (simp add: js_get_def)
      with e fs(5) [OF il(2)] show ?thesis by (simp add: fresh_entry_ok)
    qed
  qed
  then have "entries_ok w' (s_events (schedObj w' m))" by (simp add: entries_ok_def)
  moreover have "m < schedNext w'" using ok(1) m(1) by simp
  ultimately show ?thesis using m(4,5,6) ok(3) by (simp add: sched_ok_def coherent_def)
qed

lemma members_ok_frame:
  assumes "members_ok D w xs" "frame {} w w'"
  shows "members_ok D w' xs"
  using assms unfolding members_ok_def by (blast intro: sched_ok_frame)

lemma pop_ok_alloc: "pop_ok D w pop \<Longrightarrow> pop_alloc w pop"
  unfolding pop_ok_def members_ok_def pop_alloc_def sched_ok_def by fastforce

lemma picks_members:
  assumes "pop_ok D w pop" "x \<in> picks pop"
  shows "\<exists>a. x = Some a \<and> sched_ok D w a"
proof -
  from assms(2) obtain k where k: "k < POPULATION_SIZE" "x = js_get (schedules pop) k"
    by (auto simp: picks_def)
  with assms(1) have "x \<in> set (schedules pop)" by (simp add: pop_ok_def js_get_def)
  with assms(1) show ?thesis by (simp add: pop_ok_def members_ok_def)
qed

lemma tournament_winner:
  assumes "selectTournamentPopulation pop w = Inr (tp, w')" "pop_ok D w pop"
  shows "\<exists>p. js_get (schedules tp) 0 = Some p \<and> sched_ok D w p"
proof -
  from selectTournamentPopulation_Inr [OF assms(1)]
  have l: "length (schedules tp) = TOURNAMENT_SELECTION_SIZE_EVENTS"
    and s: "set (schedules tp) \<subseteq> picks pop" by simp_all
  from l have "0 < length (schedules tp)" by (simp add: TOURNAMENT_SELECTION_SIZE_EVENTS_def)
  then have "js_get (schedules tp) 0 \<in> set (schedules tp)" by (simp add: js_get_def)
  with s have "js_get (schedules tp) 0 \<in> picks pop" by auto
  from picks_members [OF assms(2) this] show ?thesis .
qed

lemma crossoverPopulation_step_ok:
  assumes "crossoverPopulation_step pop i (cp, w) = Inr (cp', w')" "pop_ok D w pop"
    "members_ok D w (schedules cp)"
  shows "members_ok D w' (schedules cp')"
proof -
  from crossoverPopulation_step_Inr [OF assms(1) pop_ok_alloc [OF assms(2)]]
  obtain t1 w1 t2 w2 c where
    t1: "selectTournamentPopulation pop w = Inr (t1, w1)"
    and t2: "selectTournamentPopulation pop w1 = Inr (t2, w2)"
    and cs: "crossoverSchedule (js_get (schedules t1) 0) (js_get (schedules t2) 0) w2 = Inr (c, w')"
    and cp': "cp' = cp\<lparr>schedules := schedules cp @ [Some c]\<rparr>"
    and q: "quiet w w2" and fr: "frame {} w w'"
    by blast
  note s1 = selectTournamentPopulation_Inr [OF t1]
  from s1 have q1: "quiet w w1" by simp
  have ok1: "pop_ok D w1 pop"
    using assms(2) members_ok_frame [OF _ quietD(1) [OF q1]] by (simp add: pop_ok_def)
  from tournament_winner [OF t1 assms(2)] obtain p1 where
    p1: "js_get (schedules t1) 0 = Some p1" "sched_ok D w p1" by blast
  from tournament_winner [OF t2 ok1] obtain p2 where
    p2: "js_get (schedules t2) 0 = Some p2" "sched_ok D w1 p2" by blast
  have o1: "sched_ok D w2 p1" using sched_ok_frame [OF p1(2) quietD(1) [OF q]] by simp
  from selectTournamentPopulation_Inr [OF t2] have "quiet w1 w2" by simp
  then have o2: "sched_ok D w2 p2" using sched_ok_frame [OF p2(2) quietD(1)] by simp
  from cs have "sched_ok D w' c"
    unfolding p1(1) p2(1) using o1 o2 by (rule crossoverSchedule_ok)
  moreover have "members_ok D w' (schedules cp)"
    using assms(3) fr by (rule members_ok_frame)
  ultimately show ?thesis by (simp add: cp' members_ok_def)
qed

lemma crossoverPopulation_ok:
  assumes "crossoverPopulation pop w = Inr (cp, w')" "pop_ok D w pop"
  shows "members_ok D w' (schedules cp)"
proof -
  let ?cp0 = "\<lparr>p_size = 0, p_data = p_data pop, schedules = []\<rparr>"
  let ?el = "fold (\<lambda>i cp. cp\<lparr>schedules := schedules cp @ [js_get (schedules pop) i]\<rparr>)
      [0..<NUMB_OF_ELITE_EVENTS] ?cp0"
  let ?P = "\<lambda>k acc. cpop_inv pop w k acc \<and> members_ok D (snd acc) (schedules (fst acc))"
  have el: "schedules ?el = [js_get (schedules pop) 0, js_get (schedules pop) 1]"
    by (simp add: NUMB_OF_ELITE_EVENTS_def upt_2)
  from assms(1) have loop: "for_each [NUMB_OF_ELITE_EVENTS..<POPULATION_SIZE]
      (crossoverPopulation_step pop) (?el, w) = Inr (cp, w')"
    by (simp add: crossoverPopulation_def Let_def)
  note pa = pop_ok_alloc [OF assms(2)]
  have "?P POPULATION_SIZE (cp, w')" using loop
  proof (rule for_each_upt_invariant [where P = ?P])
    show "NUMB_OF_ELITE_EVENTS \<le> POPULATION_SIZE"
      by (simp add: NUMB_OF_ELITE_EVENTS_def POPULATION_SIZE_def)
    have "js_get (schedules pop) 0 \<in> picks pop" "js_get (schedules pop) 1 \<in> picks pop"
      by (auto simp: picks_def POPULATION_SIZE_def)
    with picks_members [OF assms(2)] have "members_ok D w (schedules ?el)"
      unfolding el members_ok_def by auto
    moreover have "cpop_inv pop w NUMB_OF_ELITE_EVENTS (?el, w)"
      unfolding cpop_inv_def using el by (auto simp: frame_refl NUMB_OF_ELITE_EVENTS_def)
    ultimately show "?P NUMB_OF_ELITE_EVENTS (?el, w)" by simp
  next
    fix k a a' assume k: "NUMB_OF_ELITE_EVENTS \<le> k" and iv: "?P k a"
      and st: "crossoverPopulation_step pop k a = Inr a'"
    obtain cp1 w1 where a: "a = (cp1, w1)" by (cases a)
    obtain cp2 w2 where a': "a' = (cp2, w2)" by (cases a')
    from iv have ci: "cpop_inv pop w k a" and mo: "members_ok D w1 (schedules cp1)"
      by (simp_all add: a)
    from cpop_invD(1) [OF ci [unfolded a]] have "frame {} w w1" .
    with assms(2) have ok1: "pop_ok D w1 pop"
      by (auto simp: pop_ok_def intro: members_ok_frame)
    have "members_ok D w2 (schedules cp2)"
      using st [unfolded a a'] ok1 mo by (rule crossoverPopulation_step_ok)
    moreover have "cpop_inv pop w (Suc k) a'" using ci st pa k by (rule cpop_inv_step)
    ultimately show "?P (Suc k) a'" by (simp add: a')
  qed
  then show ?thesis by simp
qed

lemma mutatePopulation_ok:
  assumes "mutatePopulation population w = Inr (p', w')"
    "length (schedules population) = POPULATION_SIZE" "members_ok D w (schedules population)"
  shows "members_ok D w' (schedules population)"
proof -
  from assms(1) have
    loop: "for_each [NUMB_OF_ELITE_EVENTS..<POPULATION_SIZE] (mutatePopulation_step population) w = Inr w'"
    by (auto simp: mutatePopulation_def split: sum.splits)
  let ?P = "\<lambda>(k::nat) w1. members_ok D w1 (schedules population)"
  show ?thesis using loop
  proof (rule for_each_upt_invariant [where P = ?P])
    show "NUMB_OF_ELITE_EVENTS \<le> POPULATION_SIZE"
      by (simp add: NUMB_OF_ELITE_EVENTS_def POPULATION_SIZE_def)
    show "members_ok D w (schedules population)" by fact
  next
    fix k a a' assume k: "k < POPULATION_SIZE" and iv: "members_ok D a (schedules population)"
      and st: "mutatePopulation_step population k a = Inr a'"
    from k assms(2) have "schedules population ! k \<in> set (schedules population)" by simp
    with iv obtain m where m: "schedules population ! k = Some m" "sched_ok D a m"
      by (auto simp: members_ok_def)
    from m(1) k assms(2) have g: "js_get (schedules population) k = Some m"
      by (simp add: js_get_def)
    from st g obtain r where ms: "mutateSchedule (Some m) a = Inr (r, a')"
      by (auto simp: mutatePopulation_step_def split: sum.splits)
    from mutateSchedule_Inr [OF ms] sched_okD(1) [OF m(2)] have "touches {m} a a'" by auto
    then have fr: "frame {m} a a'" by (rule touches_frame)
    have mok: "sched_ok D a' m" using ms m(2) by (rule mutateSchedule_ok)
    show "members_ok D a' (schedules population)"
      unfolding members_ok_def
    proof
      fix x assume "x \<in> set (schedules population)"
      with iv obtain b where b: "x = Some b" "sched_ok D a b" by (auto simp: members_ok_def)
      show "\<exists>b. x = Some b \<and> sched_ok D a' b"
      proof (cases "b = m")
        case True
        with b mok show ?thesis by simp
      next
        case False
        with sched_ok_frame [OF b(2) fr] b(1) show ?thesis by simp
      qed
    qed
  qed
qed

lemma evolve_ok:
  assumes "evolve pop w = Inr (p', w')" "pop_ok D w pop"
  shows "pop_ok D w' p'"
proof -
  from assms(1) obtain cp w1 where c: "crossoverPopulation pop w = Inr (cp, w1)"
    and m: "mutatePopulation cp w1 = Inr (p', w')"
    by (auto simp: evolve_def split: sum.splits)
  note ci = cpop_invD [OF crossoverPopulation_Inr [OF c pop_ok_alloc [OF assms(2)]]]
  note co = crossoverPopulation_ok [OF c assms(2)]
  from m have p': "p' = cp" by (auto simp: mutatePopulation_def split: sum.splits)
  from mutatePopulation_ok [OF m ci(3) co] ci(3) show ?thesis by (simp add: pop_ok_def p')
qed

section \<open>Sorting, feasibility and termination without error\<close>

lemma fitness_get_keeps_assigned:
  assumes "fitness_get a w = Inr (f, w')"
  shows "list_all (assigned w') (s_events (schedObj w' b)) = list_all (assigned w) (s_events (schedObj w b))"
proof -
  from fitness_get_cases [OF assms] have c: "caches_only w w'"
    by (blast intro: cache_step_caches_only)
  note f = caches_only_fields [OF c]
  show ?thesis by (simp add: f(11) assigned_env [OF f(5)])
qed

lemma refresh_fitness_total:
  assumes "\<forall>a\<in>set as. list_all (assigned w) (s_events (schedObj w a))"
  shows "\<exists>w'. refresh_fitness as w = Inr w'"
  using assms
proof (induction as arbitrary: w)
  case Nil
  then show ?case by simp
next
  case (Cons a as)
  from Cons.prems have "list_all (assigned w) (s_events (schedObj w a))" by simp
  from fitness_get_total [OF this] obtain f w1 where g: "fitness_get a w = Inr (f, w1)" by blast
  have "\<forall>b\<in>set as. list_all (assigned w1) (s_events (schedObj w1 b))"
    using Cons.prems by (simp add: fitness_get_keeps_assigned [OF g])
  from Cons.IH [OF this] g show ?case by simp
qed

lemma members_ok_assigned:
  assumes "members_ok D w xs" "Some a \<in> set xs"
  shows "list_all (assigned w) (s_events (schedObj w a))"
proof -
  from assms have "sched_ok D w a" by (auto simp: members_ok_def)
  from sched_okD(4) [OF this] show ?thesis by (rule entries_ok_assigned)
qed

lemma members_ok_defined:
  assumes "members_ok D w xs"
  shows "map Some (List.map_filter (\<lambda>x. x) xs) = xs"
proof -
  from assms have "\<forall>x\<in>set xs. x \<noteq> None" by (auto simp: members_ok_def)
  then have "filter (\<lambda>x. x \<noteq> None) xs = xs" by (simp add: filter_id_conv)
  then show ?thesis by (simp add: map_Some_map_filter)
qed

lemma sort_by_fitness_total:
  assumes "members_ok D w xs"
  shows "\<exists>ys w'. sort_by_fitness xs w = Inr (ys, w')"
proof -
  let ?d = "List.map_filter (\<lambda>x. x) xs"
  have "\<forall>a\<in>set ?d. list_all (assigned w) (s_events (schedObj w a))"
  proof
    fix a assume "a \<in> set ?d"
    then have "Some a \<in> set (map Some ?d)" by simp
    then have "Some a \<in> set xs" unfolding members_ok_defined [OF assms] .
    with assms show "list_all (assigned w) (s_events (schedObj w a))"
      by (rule members_ok_assigned)
  qed
  from refresh_fitness_total [OF this] obtain w' where "refresh_fitness ?d w = Inr w'" by blast
  then show ?thesis by (simp add: sort_by_fitness_def Let_def)
qed

lemma sort_by_fitness_best_first:
  assumes "sort_by_fitness (schedules pop) w = Inr (ys, w')" "pop_ok D w pop"
  shows "pop_ok D w' (pop\<lparr>schedules := ys\<rparr>) \<and> best_first w' (pop\<lparr>schedules := ys\<rparr>) \<and>
    quiet w w' \<and> set ys = set (schedules pop)"
proof -
  note sp = sort_by_fitness_spec [OF assms(1)]
  from sp have fr: "frame {} w w'" and st: "set ys = set (schedules pop)"
    and ln: "length ys = length (schedules pop)" by simp_all
  from assms(2) have mo: "members_ok D w (schedules pop)" and l20: "length (schedules pop) = POPULATION_SIZE"
    by (simp_all add: pop_ok_def)
  have mo': "members_ok D w' ys"
    using members_ok_frame [OF mo fr] st by (simp add: members_ok_def)
  have ok: "pop_ok D w' (pop\<lparr>schedules := ys\<rparr>)"
    using mo' ln l20 by (simp add: pop_ok_def)
  from mo have ns: "\<forall>x\<in>set (schedules pop). x \<noteq> None" by (auto simp: members_ok_def)
  from l20 have "2 \<le> length (schedules pop)" by (simp add: POPULATION_SIZE_def)
  from sort_by_fitness_sorted [OF assms(1) ns this] obtain as where
    as: "ys = map Some as" "sorted (map (\<lambda>a. - s_fitness (schedObj w' a)) as)"
      "\<forall>a\<in>set as. \<not> isFitnessChanged (schedObj w' a)"
    by blast
  from as(1) ln l20 have ne: "as \<noteq> []" by (auto simp: POPULATION_SIZE_def)
  then obtain first rest where fr': "as = first # rest" by (cases as) auto
  have co: "s_fitness (schedObj w' a) = fitness_of w' a" if "a \<in> set as" for a
  proof -
    from that as(1) have "Some a \<in> set ys" by simp
    with mo' have "sched_ok D w' a" by (auto simp: members_ok_def)
    from sched_okD(5) [OF this] as(3) that show ?thesis by (simp add: coherent_def)
  qed
  have le: "fitness_of w' a \<le> fitness_of w' first" if "a \<in> set as" for a
  proof -
    from as(2) that have "- s_fitness (schedObj w' first) \<le> - s_fitness (schedObj w' a)"
      by (auto simp: fr')
    then show ?thesis using co [OF that] co [of first] by (simp add: fr')
  qed
  have "best_first w' (pop\<lparr>schedules := ys\<rparr>)"
    unfolding best_first_def
    apply (rule exI [of _ first])
    using as(3) co le by (auto simp: as(1) fr' js_get_def)
  with ok sort_by_fitness_quiet [OF assms(1)] st show ?thesis by simp
qed

lemma feasible_same_store:
  assumes "feasible D w" "same_store w w'"
  shows "feasible D w'"
proof -
  from assms(2) have e: "EVENT_START_TIME w' = EVENT_START_TIME w" "EVENT_END_TIME w' = EVENT_END_TIME w"
    "roomObj w' = roomObj w" by (simp_all add: same_store_def)
  have "isAvailable w' = isAvailable w" by (rule isAvailable_env [OF e(3) e(1)])
  with assms(1) show ?thesis by (simp add: feasible_def e)
qed

lemma feasible_frame: "feasible D w \<Longrightarrow> frame M w w' \<Longrightarrow> feasible D w'"
  by (blast intro: feasible_same_store frame_same_store)

lemma getRandomTimeSlot_feasible:
  assumes "feasible D w"
  shows "\<exists>t. fst (getRandomTimeSlot w) = Some t \<and>
    t \<in> set (availableTimeSlots_loop (EVENT_START_TIME w) (EVENT_END_TIME w) [])"
proof -
  let ?slots = "availableTimeSlots_loop (EVENT_START_TIME w) (EVENT_END_TIME w) []"
  let ?k = "fst (random_index (length ?slots) w)"
  from assms have "0 < length ?slots" by (simp add: feasible_def)
  then have k: "?k < length ?slots" by (rule random_index_bound)
  have "fst (getRandomTimeSlot w) = js_get (map Some ?slots) ?k"
    by (simp add: getRandomTimeSlot_def Let_def case_prod_beta)
  with k show ?thesis by (simp add: js_get_def)
qed

lemma getAvailableRoom_total:
  assumes "\<exists>r\<in>set (d_rooms (s_data (schedObj w this))). isAvailable w r (Some t) = Inr True"
  shows "\<exists>room w'. getAvailableRoom this (Some t) w = Inr (room, w')"
proof -
  let ?rooms = "d_rooms (s_data (schedObj w this))"
  from assms have "filter (\<lambda>r. isAvailable w r (Some t) = Inr True) ?rooms \<noteq> []"
    by (auto simp: filter_empty_conv)
  then show ?thesis
    by (simp add: getAvailableRoom_def filter_available_total case_prod_beta)
qed

lemma initialize_step_total:
  assumes "feasible (s_data (schedObj w this)) w"
  shows "\<exists>w'. initialize_step this i w = Inr w'"
proof -
  let ?s = "schedObj w this"
  let ?ev = "\<lparr>e_id = eventNum ?s, e_name = e_name (d_events (s_data ?s) ! i), e_room = None,
     e_time_slot = None\<rparr>"
  let ?w1 = "w\<lparr>eventObj := (eventObj w)(eventNext w := ?ev), eventNext := Suc (eventNext w)\<rparr>"
  let ?w2 = "sched_update this (\<lambda>s. s\<lparr>eventNum := eventNum s + 1\<rparr>) ?w1"
  let ?slot = "fst (getRandomTimeSlot ?w2)"
  let ?w3 = "snd (getRandomTimeSlot ?w2)"
  let ?w4 = "set_timeSlot (eventNext w) ?slot ?w3"
  have ss: "same_store w ?w4"
    by (simp add: same_store_def set_timeSlot_def event_update_def getRandomTimeSlot_world)
  have d4: "s_data (schedObj ?w4 this) = s_data ?s"
    by (simp add: set_timeSlot_def event_update_def getRandomTimeSlot_world)
  have slot_eq: "?slot = fst (getRandomTimeSlot w)"
    by (simp add: getRandomTimeSlot_def random_index_def Math_random_def Let_def)
  from getRandomTimeSlot_feasible [OF assms] obtain t where
    t: "?slot = Some t" "t \<in> set (availableTimeSlots_loop (EVENT_START_TIME w) (EVENT_END_TIME w) [])"
    unfolding slot_eq by blast
  have f4: "feasible (s_data ?s) ?w4" using assms ss by (rule feasible_same_store)
  have "t \<in> set (availableTimeSlots_loop (EVENT_START_TIME ?w4) (EVENT_END_TIME ?w4) [])"
    using t(2) ss by (simp add: same_store_def)
  with f4 have "\<exists>r\<in>set (d_rooms (s_data (schedObj ?w4 this))). isAvailable ?w4 r (Some t) = Inr True"
    unfolding d4 feasible_def by blast
  from getAvailableRoom_total [OF this] obtain room w5 where
    g: "getAvailableRoom this (Some t) ?w4 = Inr (room, w5)" by blast
  have ts: "e_time_slot (eventObj ?w4 (eventNext w)) = Some t"
    using t(1) by (simp add: set_timeSlot_def event_update_def)
  show ?thesis
    using g ts
    by (simp add: initialize_step_def new_Event_def Let_def case_prod_beta)
qed

lemma init_inv_same_store:
  assumes "init_inv a w1 k w"
  shows "same_store w1 w"
proof -
  note i = assms [unfolded init_inv_def]
  have "s_data (schedObj w b) = s_data (schedObj w1 b)" for b
    using i by (cases "b = a") simp_all
  with i show ?thesis by (simp add: same_store_def)
qed

lemma initialize_new_total:
  assumes "feasible d w"
  shows "\<exists>w2. initialize (fst (new_ScheduleEvents d w)) (snd (new_ScheduleEvents d w)) = Inr w2"
proof -
  let ?a = "fst (new_ScheduleEvents d w)"
  let ?w1 = "snd (new_ScheduleEvents d w)"
  have d: "s_data (schedObj ?w1 ?a) = d" by (simp add: new_ScheduleEvents_def)
  have f1: "feasible d ?w1"
    using assms by (rule feasible_same_store) (simp add: same_store_def new_ScheduleEvents_def)
  have "\<exists>r. for_each [0..<length (d_events d)] (initialize_step ?a) ?w1 = Inr r \<and>
      init_inv ?a ?w1 (length (d_events d)) r"
  proof (rule for_each_upt_total [where P = "init_inv ?a ?w1"])
    show "init_inv ?a ?w1 0 ?w1" by (simp add: init_inv_def new_ScheduleEvents_def)
  next
    fix i w' assume iv: "init_inv ?a ?w1 i w'"
    note i = iv [unfolded init_inv_def]
    have "feasible (s_data (schedObj w' ?a)) w'"
    proof -
      have "same_store ?w1 w'" using iv by (rule init_inv_same_store)
      with f1 have "feasible d w'" by (rule feasible_same_store)
      with i d show ?thesis by simp
    qed
    from initialize_step_total [OF this] obtain w'' where st: "initialize_step ?a i w' = Inr w''"
      by blast
    with init_inv_step [OF iv st]
    show "\<exists>a'. initialize_step ?a i w' = Inr a' \<and> init_inv ?a ?w1 (Suc i) a'" by blast
  qed simp
  then show ?thesis by (auto simp: initialize_def d)
qed

lemma for_each_always:
  assumes "\<And>i a. \<exists>a'. body i a = Inr a'"
  shows "\<exists>r. for_each xs body acc = Inr r"
proof (induction xs arbitrary: acc)
  case Nil
  then show ?case by simp
next
  case (Cons i xs)
  from assms [of i acc] obtain a' where "body i acc = Inr a'" by blast
  with Cons.IH [of a'] show ?case by simp
qed

lemma crossoverSchedule_total:
  assumes "feasible (s_data (schedObj w p1)) w"
  shows "\<exists>c w'. crossoverSchedule (Some p1) (Some p2) w = Inr (c, w')"
proof -
  let ?d = "s_data (schedObj w p1)"
  from initialize_new_total [OF assms] obtain w2 where
    i: "initialize (fst (new_ScheduleEvents ?d w)) (snd (new_ScheduleEvents ?d w)) = Inr w2"
    by blast
  let ?c = "fst (new_ScheduleEvents ?d w)"
  have "\<exists>r. for_each [0..<length (fst (events_get ?c w2))]
      (crossover_step ?c (Some p1) (Some p2)) (snd (events_get ?c w2)) = Inr r"
    by (rule for_each_always) (simp add: crossover_step_def case_prod_beta)
  then obtain r where "for_each [0..<length (fst (events_get ?c w2))]
      (crossover_step ?c (Some p1) (Some p2)) (snd (events_get ?c w2)) = Inr r" by blast
  with i show ?thesis
    by (simp add: crossoverSchedule_def case_prod_beta del: events_get_fst events_get_snd)
qed

lemma mutateSchedule_total:
  assumes "feasible (s_data (schedObj w m)) w"
  shows "\<exists>r w'. mutateSchedule (Some m) w = Inr (r, w')"
proof -
  let ?d = "s_data (schedObj w m)"
  from initialize_new_total [OF assms] obtain w2 where
    i: "initialize (fst (new_ScheduleEvents ?d w)) (snd (new_ScheduleEvents ?d w)) = Inr w2"
    by blast
  let ?t = "fst (new_ScheduleEvents ?d w)"
  have "\<exists>r. for_each [0..<length (fst (events_get m w2))]
      (mutate_step m ?t) (snd (events_get m w2)) = Inr r"
    by (rule for_each_always) (simp add: mutate_step_def case_prod_beta)
  then obtain r where "for_each [0..<length (fst (events_get m w2))]
      (mutate_step m ?t) (snd (events_get m w2)) = Inr r" by blast
  with i show ?thesis
    by (simp add: mutateSchedule_def case_prod_beta del: events_get_fst events_get_snd)
qed

lemma tournament_loop_total:
  "\<exists>r. for_each [0..<TOURNAMENT_SELECTION_SIZE_EVENTS] (tournament_step pop) acc = Inr r"
  by (rule for_each_always) (simp add: tournament_step_def case_prod_beta)

lemma selectTournamentPopulation_total:
  assumes "pop_ok D w pop"
  shows "\<exists>tp w'. selectTournamentPopulation pop w = Inr (tp, w')"
proof -
  let ?tp0 = "\<lparr>p_size = 0, p_data = p_data pop, schedules = []\<rparr>"
  from tournament_loop_total obtain r where
    loop: "for_each [0..<TOURNAMENT_SELECTION_SIZE_EVENTS] (tournament_step pop) (?tp0, w) = Inr r"
    by blast
  obtain tp1 w1 where r: "r = (tp1, w1)" by (cases r)
  have "tour_inv pop w TOURNAMENT_SELECTION_SIZE_EVENTS (tp1, w1)"
    using loop [unfolded r]
  proof (rule for_each_upt_invariant [where P = "tour_inv pop w"])
    show "tour_inv pop w 0 (?tp0, w)" by (simp add: tour_inv_def quiet_refl)
  next
    fix k a a' assume "tour_inv pop w k a" "tournament_step pop k a = Inr a'"
    then show "tour_inv pop w (Suc k) a'" by (rule tournament_step_inv)
  qed simp
  then have q: "quiet w w1" and s: "set (schedules tp1) \<subseteq> picks pop"
    by (simp_all add: tour_inv_def)
  have ok1: "pop_ok D w1 pop"
    using assms members_ok_frame [OF _ quietD(1) [OF q]] by (simp add: pop_ok_def)
  have "members_ok D w1 (schedules tp1)"
    unfolding members_ok_def using s picks_members [OF ok1] by blast
  from sort_by_fitness_total [OF this] obtain ys w' where
    "sort_by_fitness (schedules tp1) w1 = Inr (ys, w')" by blast
  with loop r show ?thesis by (simp add: selectTournamentPopulation_def)
qed

lemma sched_ok_feasible:
  assumes "sched_ok D w a" "feasible D w"
  shows "feasible (s_data (schedObj w a)) w"
  using assms by (simp add: sched_ok_def)

lemma crossoverPopulation_step_total:
  assumes "pop_ok D w pop" "feasible D w"
  shows "\<exists>r. crossoverPopulation_step pop i (cp, w) = Inr r"
proof -
  from selectTournamentPopulation_total [OF assms(1)] obtain t1 w1 where
    t1: "selectTournamentPopulation pop w = Inr (t1, w1)" by blast
  from selectTournamentPopulation_Inr [OF t1] have q1: "quiet w w1" by simp
  have ok1: "pop_ok D w1 pop"
    using assms(1) members_ok_frame [OF _ quietD(1) [OF q1]] by (simp add: pop_ok_def)
  from selectTournamentPopulation_total [OF ok1] obtain t2 w2 where
    t2: "selectTournamentPopulation pop w1 = Inr (t2, w2)" by blast
  from selectTournamentPopulation_Inr [OF t2] have q2: "quiet w1 w2" by simp
  from tournament_winner [OF t1 assms(1)] obtain p1 where
    p1: "js_get (schedules t1) 0 = Some p1" "sched_ok D w p1" by blast
  from tournament_winner [OF t2 ok1] obtain p2 where
    p2: "js_get (schedules t2) 0 = Some p2" "sched_ok D w1 p2" by blast
  have q: "quiet w w2" using q1 q2 by (rule quiet_trans)
  have o1: "sched_ok D w2 p1" using sched_ok_frame [OF p1(2) quietD(1) [OF q]] by simp
  have f2: "feasible D w2" using assms(2) quietD(1) [OF q] by (rule feasible_frame)
  from crossoverSchedule_total [OF sched_ok_feasible [OF o1 f2], of p2] obtain c w3 where
    "crossoverSchedule (Some p1) (Some p2) w2 = Inr (c, w3)" by blast
  with t1 t2 p1(1) p2(1) show ?thesis by (simp add: crossoverPopulation_step_def)
qed

lemma crossoverPopulation_total:
  assumes "pop_ok D w pop" "feasible D w"
  shows "\<exists>cp w'. crossoverPopulation pop w = Inr (cp, w')"
proof -
  let ?cp0 = "\<lparr>p_size = 0, p_data = p_data pop, schedules = []\<rparr>"
  let ?el = "fold (\<lambda>i cp. cp\<lparr>schedules := schedules cp @ [js_get (schedules pop) i]\<rparr>)
      [0..<NUMB_OF_ELITE_EVENTS] ?cp0"
  have el: "schedules ?el = [js_get (schedules pop) 0, js_get (schedules pop) 1]"
    by (simp add: NUMB_OF_ELITE_EVENTS_def upt_2)
  note pa = pop_ok_alloc [OF assms(1)]
  have "\<exists>r. for_each [NUMB_OF_ELITE_EVENTS..<POPULATION_SIZE]
      (crossoverPopulation_step pop) (?el, w) = Inr r \<and> cpop_inv pop w POPULATION_SIZE r"
  proof (rule for_each_upt_total [where P = "cpop_inv pop w"])
    show "NUMB_OF_ELITE_EVENTS \<le> POPULATION_SIZE"
      by (simp add: NUMB_OF_ELITE_EVENTS_def POPULATION_SIZE_def)
    show "cpop_inv pop w NUMB_OF_ELITE_EVENTS (?el, w)"
      unfolding cpop_inv_def using el by (auto simp: frame_refl NUMB_OF_ELITE_EVENTS_def)
  next
    fix k a assume k: "NUMB_OF_ELITE_EVENTS \<le> k" and ci: "cpop_inv pop w k a"
    obtain cp1 w1 where a: "a = (cp1, w1)" by (cases a)
    from cpop_invD(1) [OF ci [unfolded a]] have fr: "frame {} w w1" .
    with assms(1) have ok1: "pop_ok D w1 pop"
      by (auto simp: pop_ok_def intro: members_ok_frame)
    have f1: "feasible D w1" using assms(2) fr by (rule feasible_frame)
    from crossoverPopulation_step_total [OF ok1 f1] obtain r where
      st: "crossoverPopulation_step pop k a = Inr r" unfolding a by blast
    from cpop_inv_step [OF ci st pa k] st
    show "\<exists>a'. crossoverPopulation_step pop k a = Inr a' \<and> cpop_inv pop w (Suc k) a'" by blast
  qed
  then show ?thesis by (auto simp: crossoverPopulation_def Let_def)
qed

lemma mutatePopulation_total:
  assumes "length (schedules population) = POPULATION_SIZE" "members_ok D w (schedules population)"
    "feasible D w"
  shows "\<exists>p' w'. mutatePopulation population w = Inr (p', w')"
proof -
  let ?P = "\<lambda>(k::nat) w1. members_ok D w1 (schedules population) \<and> feasible D w1"
  have "\<exists>r. for_each [NUMB_OF_ELITE_EVENTS..<POPULATION_SIZE]
      (mutatePopulation_step population) w = Inr r \<and> ?P POPULATION_SIZE r"
  proof (rule for_each_upt_total [where P = ?P])
    show "NUMB_OF_ELITE_EVENTS \<le> POPULATION_SIZE"
      by (simp add: NUMB_OF_ELITE_EVENTS_def POPULATION_SIZE_def)
    show "?P NUMB_OF_ELITE_EVENTS w" using assms by simp
  next
    fix k a assume k: "k < POPULATION_SIZE" and iv: "?P k a"
    from k assms(1) have "schedules population ! k \<in> set (schedules population)" by simp
    with iv obtain m where m: "schedules population ! k = Some m" "sched_ok D a m"
      by (auto simp: members_ok_def)
    from m(1) k assms(1) have g: "js_get (schedules population) k = Some m"
      by (simp add: js_get_def)
    from iv have fa: "feasible D a" by simp
    from mutateSchedule_total [OF sched_ok_feasible [OF m(2) fa]] obtain r a' where
      ms: "mutateSchedule (Some m) a = Inr (r, a')" by blast
    then have st: "mutatePopulation_step population k a = Inr a'"
      by (simp add: mutatePopulation_step_def g)
    from mutateSchedule_Inr [OF ms] sched_okD(1) [OF m(2)] have "touches {m} a a'" by auto
    then have fr: "frame {m} a a'" by (rule touches_frame)
    have mok: "sched_ok D a' m" using ms m(2) by (rule mutateSchedule_ok)
    have "members_ok D a' (schedules population)"
      unfolding members_ok_def
    proof
      fix x assume "x \<in> set (schedules population)"
      with iv obtain b where b: "x = Some b" "sched_ok D a b" by (auto simp: members_ok_def)
      show "\<exists>b. x = Some b \<and> sched_ok D a' b"
      proof (cases "b = m")
        case True
        with b mok show ?thesis by simp
      next
        case False
        with sched_ok_frame [OF b(2) fr] b(1) show ?thesis by simp
      qed
    qed
    moreover have "feasible D a'" using fa fr by (rule feasible_frame)
    ultimately show "\<exists>a'. mutatePopulation_step population k a = Inr a' \<and> ?P (Suc k) a'"
      using st by blast
  qed
  then show ?thesis by (auto simp: mutatePopulation_def)
qed

lemma evolve_total:
  assumes "pop_ok D w pop" "feasible D w"
  shows "\<exists>p' w'. evolve pop w = Inr (p', w')"
proof -
  from crossoverPopulation_total [OF assms] obtain cp w1 where
    c: "crossoverPopulation pop w = Inr (cp, w1)" by blast
  note ci = cpop_invD [OF crossoverPopulation_Inr [OF c pop_ok_alloc [OF assms(1)]]]
  note co = crossoverPopulation_ok [OF c assms(1)]
  have f1: "feasible D w1" using assms(2) ci(1) by (rule feasible_frame)
  from mutatePopulation_total [OF ci(3) co f1] obtain p' w' where
    "mutatePopulation cp w1 = Inr (p', w')" by blast
  with c show ?thesis by (simp add: evolve_def)
qed

section \<open>The search loop\<close>

lemma finite_members: "finite (members pop)"
proof -
  have "members pop \<subseteq> the ` set (schedules pop)"
    by (auto simp: members_def image_iff) (metis option.sel)
  then show ?thesis by (rule finite_subset) simp
qed

lemma best_first_best_fitness:
  assumes "best_first w pop" "js_get (schedules pop) 0 = Some first"
  shows "best_fitness w pop = fitness_of w first"
proof -
  from assms have le: "\<And>a. a \<in> members pop \<Longrightarrow> fitness_of w a \<le> fitness_of w first"
    by (auto simp: best_first_def members_def)
  from assms(2) have m: "first \<in> members pop"
    by (auto simp: members_def dest: js_get_0_in_set)
  show ?thesis
    unfolding best_fitness_def
    by (rule Max_eqI) (use le m finite_members in auto)
qed

lemma best_fitness_ge:
  assumes "a \<in> members pop"
  shows "fitness_of w a \<le> best_fitness w pop"
  unfolding best_fitness_def using assms finite_members by (intro Max_ge) auto

lemma fitness_of_frame:
  assumes "frame M w w'" "a \<notin> M" "sched_ok D w a"
  shows "fitness_of w' a = fitness_of w a"
proof -
  note ok = sched_okD [OF assms(3)]
  from assms(1) ok(1) assms(2) have "s_events (schedObj w' a) = s_events (schedObj w a)"
    by (simp add: frame_def)
  with frame_same_store [OF assms(1)] entries_ok_allocated [OF ok(4)]
  show ?thesis by (intro fitness_of_same)
qed

lemma best_first_test:
  assumes "best_first w pop" "js_get (schedules pop) 0 = Some first"
  shows "fitness_get first w = Inr (fitness_of w first, w)"
proof -
  from assms have "Some first \<in> set (schedules pop)" by (auto dest: js_get_0_in_set)
  with assms(1) have "\<not> isFitnessChanged (schedObj w first)"
    "s_fitness (schedObj w first) = fitness_of w first"
    by (auto simp: best_first_def)
  then show ?thesis by (simp add: fitness_get_def)
qed

lemma next_generation_Inr:
  assumes "next_generation pop w = Inr (p', w')" "pop_ok D w pop"
  shows "pop_ok D w' p'" "best_first w' p'" "frame {} w w'"
    "\<And>i. i < NUMB_OF_ELITE_EVENTS \<Longrightarrow> js_get (schedules pop) i \<in> set (schedules p')"
    "length (schedules p') = POPULATION_SIZE"
proof -
  from assms(1) obtain p1 w1 where e: "evolve pop w = Inr (p1, w1)"
    by (auto simp: next_generation_def split: sum.splits)
  from assms(1) e obtain ys where s: "sort_by_fitness (schedules p1) w1 = Inr (ys, w')"
    and p': "p' = p1\<lparr>schedules := ys\<rparr>"
    by (auto simp: next_generation_def split: sum.splits)
  note ev = evolve_Inr [OF e pop_ok_alloc [OF assms(2)]]
  note ok1 = evolve_ok [OF e assms(2)]
  note so = sort_by_fitness_best_first [OF s ok1]
  from so show "pop_ok D w' p'" "best_first w' p'" by (simp_all add: p')
  from so have q: "quiet w1 w'" and st: "set ys = set (schedules p1)" by simp_all
  show "frame {} w w'" using frame_trans_empty [OF ev(1) quietD(1) [OF q]] .
  show "js_get (schedules pop) i \<in> set (schedules p')" if "i < NUMB_OF_ELITE_EVENTS" for i
  proof -
    have "js_get (schedules pop) i \<in> set (take NUMB_OF_ELITE_EVENTS (schedules p1))"
      unfolding ev(4) using that by (cases i) (auto simp: NUMB_OF_ELITE_EVENTS_def)
    then have "js_get (schedules pop) i \<in> set (schedules p1)" by (rule in_set_takeD)
    with st show ?thesis by (simp add: p')
  qed
  from \<open>pop_ok D w' p'\<close> show "length (schedules p') = POPULATION_SIZE" by (simp add: pop_ok_def)
qed

lemma next_generation_monotone:
  assumes "next_generation pop w = Inr (p', w')" "pop_ok D w pop" "best_first w pop"
  shows "best_fitness w pop \<le> best_fitness w' p'"
proof -
  from assms(3) obtain first where f: "js_get (schedules pop) 0 = Some first"
    by (auto simp: best_first_def)
  note ng = next_generation_Inr [OF assms(1,2)]
  from ng(4) [of 0] f have "Some first \<in> set (schedules p')" by (simp add: NUMB_OF_ELITE_EVENTS_def)
  then have m: "first \<in> members p'" by (simp add: members_def)
  from f have "Some first \<in> set (schedules pop)" by (rule js_get_0_in_set)
  with assms(2) have ok: "sched_ok D w first" by (auto simp: pop_ok_def members_ok_def)
  have "fitness_of w' first = fitness_of w first"
    using ng(3) _ ok by (rule fitness_of_frame) simp
  with best_fitness_ge [OF m, of w'] best_first_best_fitness [OF assms(3) f]
  show ?thesis by simp
qed

lemma next_generation_total:
  assumes "pop_ok D w pop" "feasible D w"
  shows "\<exists>p' w'. next_generation pop w = Inr (p', w')"
proof -
  from evolve_total [OF assms] obtain p1 w1 where e: "evolve pop w = Inr (p1, w1)" by blast
  from evolve_ok [OF e assms(1)] have "members_ok D w1 (schedules p1)" by (simp add: pop_ok_def)
  from sort_by_fitness_total [OF this] obtain ys w' where
    "sort_by_fitness (schedules p1) w1 = Inr (ys, w')" by blast
  with e show ?thesis by (simp add: next_generation_def)
qed

declare search_trace.simps [simp del]

lemma search_loop_step:
  assumes "best_first w pop"
  shows "search_loop g pop w =
     (if best_fitness w pop \<noteq> 1 \<and> g < MAX_GENERATIONS then
        (case next_generation pop w of
           Inl e \<Rightarrow> Inl e
         | Inr (p, w2) \<Rightarrow> search_loop (g + 1) p w2)
      else Inr ((g, pop), w))"
proof -
  from assms obtain first where f: "js_get (schedules pop) 0 = Some first"
    by (auto simp: best_first_def)
  show ?thesis
    by (subst search_loop.simps)
      (simp add: f best_first_test [OF assms f] best_first_best_fitness [OF assms f])
qed

lemma search_trace_step:
  assumes "best_first w pop"
  shows "search_trace g pop w =
     (if best_fitness w pop \<noteq> 1 \<and> g < MAX_GENERATIONS then
        (case next_generation pop w of
           Inl e \<Rightarrow> [(pop, w)]
         | Inr (p, w2) \<Rightarrow> (pop, w) # search_trace (g + 1) p w2)
      else [(pop, w)])"
proof -
  from assms obtain first where f: "js_get (schedules pop) 0 = Some first"
    by (auto simp: best_first_def)
  show ?thesis
    by (subst search_trace.simps)
      (simp add: f best_first_test [OF assms f] best_first_best_fitness [OF assms f])
qed

lemma search_loop_Inr:
  assumes "search_loop g pop w = Inr ((g', p'), w')" "pop_ok D w pop" "best_first w pop"
    "g \<le> MAX_GENERATIONS"
  shows "g \<le> g' \<and> g' \<le> MAX_GENERATIONS \<and> pop_ok D w' p' \<and> best_first w' p' \<and>
    (best_fitness w' p' = 1 \<or> g' = MAX_GENERATIONS) \<and>
    length (search_trace g pop w) = Suc (g' - g) \<and> last (search_trace g pop w) = (p', w') \<and>
    (\<forall>(p, wp)\<in>set (search_trace g pop w). best_fitness wp p \<le> best_fitness w' p')"
  using assms
proof (induction "MAX_GENERATIONS - g" arbitrary: g pop w)
  case 0
  then have g: "g = MAX_GENERATIONS" by simp
  from "0.prems"(1) have "g' = g" "p' = pop" "w' = w"
    by (simp_all add: search_loop_step [OF "0.prems"(3)] g)
  then show ?case using "0.prems" by (simp add: search_trace_step [OF "0.prems"(3)] g)
next
  case (Suc n)
  then have gl: "g < MAX_GENERATIONS" by simp
  show ?case
  proof (cases "best_fitness w pop = 1")
    case True
    from Suc.prems(1) have "g' = g" "p' = pop" "w' = w"
      by (simp_all add: search_loop_step [OF Suc.prems(3)] True)
    then show ?thesis using Suc.prems True by (simp add: search_trace_step [OF Suc.prems(3)])
  next
    case False
    with Suc.prems(1) gl obtain p2 w2 where ng: "next_generation pop w = Inr (p2, w2)"
      and rec: "search_loop (g + 1) p2 w2 = Inr ((g', p'), w')"
      by (auto simp: search_loop_step [OF Suc.prems(3)] split: sum.splits)
    note n2 = next_generation_Inr [OF ng Suc.prems(2)]
    note mono = next_generation_monotone [OF ng Suc.prems(2,3)]
    have "n = MAX_GENERATIONS - (g + 1)" using Suc.hyps(2) by simp
    from Suc.hyps(1) [OF this rec n2(1) n2(2)] gl
    have ih: "g + 1 \<le> g'" "g' \<le> MAX_GENERATIONS" "pop_ok D w' p'" "best_first w' p'"
      "best_fitness w' p' = 1 \<or> g' = MAX_GENERATIONS"
      "length (search_trace (g + 1) p2 w2) = Suc (g' - (g + 1))"
      "last (search_trace (g + 1) p2 w2) = (p', w')"
      "\<forall>(p, wp)\<in>set (search_trace (g + 1) p2 w2). best_fitness wp p \<le> best_fitness w' p'"
      by simp_all
    have tr: "search_trace g pop w = (pop, w) # search_trace (g + 1) p2 w2"
      using False gl ng by (simp add: search_trace_step [OF Suc.prems(3)])
    have ne: "search_trace (g + 1) p2 w2 \<noteq> []" using ih(6) by auto
    have hd2: "(p2, w2) \<in> set (search_trace (g + 1) p2 w2)"
      by (subst search_trace_step [OF n2(2)]) (simp split: sum.splits)
    with ih(8) have "best_fitness w2 p2 \<le> best_fitness w' p'" by auto
    with mono have "best_fitness w pop \<le> best_fitness w' p'" by simp
    then show ?thesis using ih tr ne by auto
  qed
qed

lemma search_loop_total:
  assumes "pop_ok D w pop" "best_first w pop" "feasible D w"
  shows "\<exists>r. search_loop g pop w = Inr r"
  using assms
proof (induction "MAX_GENERATIONS - g" arbitrary: g pop w)
  case 0
  then show ?case by (simp add: search_loop_step)
next
  case (Suc n)
  show ?case
  proof (cases "best_fitness w pop \<noteq> 1 \<and> g < MAX_GENERATIONS")
    case True
    from next_generation_total [OF Suc.prems(1,3)] obtain p2 w2 where
      ng: "next_generation pop w = Inr (p2, w2)" by blast
    note n2 = next_generation_Inr [OF ng Suc.prems(1)]
    have f2: "feasible D w2" using Suc.prems(3) n2(3) by (rule feasible_frame)
    have "n = MAX_GENERATIONS - (g + 1)" using Suc.hyps(2) by simp
    from Suc.hyps(1) [OF this n2(1) n2(2) f2] True ng show ?thesis
      by (simp add: search_loop_step [OF Suc.prems(2)])
  next
    case False
    then show ?thesis by (auto simp: search_loop_step [OF Suc.prems(2)])
  qed
qed

section \<open>The problem instance and the first population\<close>

lemma added_schedule_ok:
  assumes "added_schedule D a w w'"
  shows "sched_ok D w' a"
proof -
  note ad = added_scheduleD [OF assms]
  have "entries_ok w' (s_events (schedObj w' a))"
    unfolding entries_ok_def using ad(6) ad(7) by (auto intro: fresh_entry_ok)
  then show ?thesis using ad by (simp add: sched_ok_def coherent_def)
qed

lemma new_PopulationEvents_step_inv:
  assumes "npop_inv D w0 k acc" "new_PopulationEvents_step D i acc = Inr acc'"
  shows "npop_inv D w0 (Suc k) acc'"
proof -
  obtain scheds w where acc: "acc = (scheds, w)" by (cases acc)
  obtain a w1 where n: "new_ScheduleEvents D w = (a, w1)" by (cases "new_ScheduleEvents D w")
  from assms(2) acc n obtain w2 where i: "initialize a w1 = Inr w2"
    and acc': "acc' = (scheds @ [Some a], w2)"
    by (auto simp: new_PopulationEvents_step_def split: sum.splits)
  note ad = initialize_new_added [OF n i]
  note add = added_scheduleD [OF ad]
  from assms(1) have iv: "frame {} w0 w" "length scheds = k" "members_ok D w scheds"
    "\<And>b. Some b \<in> set scheds \<Longrightarrow> schedNext w0 \<le> b"
    by (auto simp: npop_inv_def acc)
  have fr: "frame {} w w2" using add(3) by (rule touches_frame)
  have "frame {} w0 w2" using iv(1) fr by (rule frame_trans_empty)
  moreover have "members_ok D w2 (scheds @ [Some a])"
    using members_ok_frame [OF iv(3) fr] added_schedule_ok [OF ad]
    by (simp add: members_ok_def)
  moreover have "schedNext w0 \<le> a"
    using iv(1) add(1) by (simp add: frame_def same_store_def)
  ultimately show ?thesis using iv(2,4) by (auto simp: npop_inv_def acc')
qed

lemma new_PopulationEvents_Inr:
  assumes "new_PopulationEvents sz D w = Inr (pop, w')"
  shows "frame {} w w' \<and> length (schedules pop) = sz \<and> members_ok D w' (schedules pop) \<and>
    p_data pop = D"
proof -
  from assms obtain scheds where
    loop: "for_each [0..<sz] (new_PopulationEvents_step D) ([], w) = Inr (scheds, w')"
    and pop: "pop = \<lparr>p_size = sz, p_data = D, schedules = scheds\<rparr>"
    by (auto simp: new_PopulationEvents_def split: sum.splits)
  have "npop_inv D w sz (scheds, w')" using loop
  proof (rule for_each_upt_invariant [where P = "npop_inv D w"])
    show "npop_inv D w 0 ([], w)" by (simp add: npop_inv_def frame_refl members_ok_def)
  next
    fix k a a' assume "npop_inv D w k a" "new_PopulationEvents_step D k a = Inr a'"
    then show "npop_inv D w (Suc k) a'" by (rule new_PopulationEvents_step_inv)
  qed simp
  then show ?thesis by (simp add: npop_inv_def pop)
qed

lemma new_PopulationEvents_total:
  assumes "feasible D w"
  shows "\<exists>pop w'. new_PopulationEvents sz D w = Inr (pop, w')"
proof -
  have "\<exists>r. for_each [0..<sz] (new_PopulationEvents_step D) ([], w) = Inr r \<and> npop_inv D w sz r"
  proof (rule for_each_upt_total [where P = "npop_inv D w"])
    show "npop_inv D w 0 ([], w)" by (simp add: npop_inv_def frame_refl members_ok_def)
  next
    fix k a assume iv: "npop_inv D w k a"
    obtain scheds w1 where a: "a = (scheds, w1)" by (cases a)
    from iv have "frame {} w w1" by (simp add: npop_inv_def a)
    with assms have "feasible D w1" by (rule feasible_frame)
    from initialize_new_total [OF this] obtain w2 where
      "initialize (fst (new_ScheduleEvents D w1)) (snd (new_ScheduleEvents D w1)) = Inr w2" by blast
    then have "\<exists>a'. new_PopulationEvents_step D k a = Inr a'"
      by (simp add: new_PopulationEvents_step_def a case_prod_beta)
    then obtain a' where st: "new_PopulationEvents_step D k a = Inr a'" by blast
    with new_PopulationEvents_step_inv [OF iv st]
    show "\<exists>a'. new_PopulationEvents_step D k a = Inr a' \<and> npop_inv D w (Suc k) a'" by blast
  qed simp
  then show ?thesis by (auto simp: new_PopulationEvents_def)
qed

lemma availableTimeSlots_set:
  "t \<in> set (availableTimeSlots_loop c e acc) \<longleftrightarrow>
     t \<in> set acc \<or> (\<exists>j. t = c + 60 * int j \<and> t < e)"
proof (induction c e acc rule: availableTimeSlots_loop.induct)
  case (1 c e acc)
  show ?case
  proof (cases "c < e")
    case True
    have "(\<exists>j. t = c + 60 * int j \<and> t < e) \<longleftrightarrow> t = c \<or> (\<exists>j. t = c + 60 + 60 * int j \<and> t < e)"
    proof
      assume "\<exists>j. t = c + 60 * int j \<and> t < e"
      then obtain j where j: "t = c + 60 * int j" "t < e" by blast
      show "t = c \<or> (\<exists>j. t = c + 60 + 60 * int j \<and> t < e)"
      proof (cases j)
        case 0
        with j show ?thesis by simp
      next
        case (Suc j')
        with j have "t = c + 60 + 60 * int j'" by simp
        with j(2) show ?thesis by blast
      qed
    next
      assume "t = c \<or> (\<exists>j. t = c + 60 + 60 * int j \<and> t < e)"
      then show "\<exists>j. t = c + 60 * int j \<and> t < e"
      proof
        assume "t = c"
        with True have "t = c + 60 * int 0 \<and> t < e" by simp
        then show ?thesis by blast
      next
        assume "\<exists>j. t = c + 60 + 60 * int j \<and> t < e"
        then obtain j where "t = c + 60 + 60 * int j" "t < e" by blast
        then have "t = c + 60 * int (Suc j) \<and> t < e" by simp
        then show ?thesis by blast
      qed
    qed
    with True "1.IH" show ?thesis
      by (subst availableTimeSlots_loop.simps) (auto simp: TIME_SLOT_INTERVAL_def)
  next
    case False
    then show ?thesis
      by (subst availableTimeSlots_loop.simps) auto
  qed
qed

lemma availableTimeSlots_nonempty:
  "c < e \<Longrightarrow> availableTimeSlots_loop c e [] \<noteq> []"
proof -
  assume "c < e"
  then have "c = c + 60 * int 0 \<and> c < e" by simp
  then have "c \<in> set (availableTimeSlots_loop c e [])"
    unfolding availableTimeSlots_set by blast
  then show ?thesis by auto
qed

lemma new_Data_room_Inr:
  assumes "0 \<le> nslots"
  shows "new_Data_room nslots i (rooms, w) =
     Inr (rooms @ [roomNext w],
          w\<lparr>roomObj := (roomObj w)(roomNext w :=
               \<lparr>r_number = ''Room '' @ show_nat (i + 1), availabilitySchedule = room_availability nslots i\<rparr>),
            roomNext := Suc (roomNext w)\<rparr>)"
  using assms by (simp add: new_Data_room_def new_Room_def room_availability_def)

lemma data_inv_step:
  assumes "data_inv nslots w0 i acc" "0 \<le> nslots"
  shows "\<exists>acc'. new_Data_room nslots i acc = Inr acc' \<and> data_inv nslots w0 (Suc i) acc'"
proof -
  obtain rooms w where acc: "acc = (rooms, w)" by (cases acc)
  from assms(1) have iv: "rooms = [roomNext w0..<roomNext w0 + i]"
    "w = w0\<lparr>roomObj := roomObj w, roomNext := roomNext w0 + i\<rparr>"
    "\<And>r. r < roomNext w0 \<Longrightarrow> roomObj w r = roomObj w0 r"
    "\<And>j. j < i \<Longrightarrow> roomObj w (roomNext w0 + j) =
         \<lparr>r_number = ''Room '' @ show_nat (j + 1), availabilitySchedule = room_availability nslots j\<rparr>"
    by (auto simp: data_inv_def acc)
  have rn: "roomNext w = roomNext w0 + i" by (subst iv(2)) simp
  let ?w' = "w\<lparr>roomObj := (roomObj w)(roomNext w :=
               \<lparr>r_number = ''Room '' @ show_nat (i + 1), availabilitySchedule = room_availability nslots i\<rparr>),
            roomNext := Suc (roomNext w)\<rparr>"
  have e: "?w' = w0\<lparr>roomObj := roomObj ?w', roomNext := roomNext w0 + Suc i\<rparr>"
    by (subst iv(2)) (simp add: rn)
  have "data_inv nslots w0 (Suc i) (rooms @ [roomNext w], ?w')"
    unfolding data_inv_def fst_conv snd_conv
  proof (intro conjI allI impI)
    show "rooms @ [roomNext w] = [roomNext w0..<roomNext w0 + Suc i]" by (simp add: iv(1) rn)
    show "?w' = w0\<lparr>roomObj := roomObj ?w', roomNext := roomNext w0 + Suc i\<rparr>" by (rule e)
  next
    fix r assume "r < roomNext w0"
    then show "roomObj ?w' r = roomObj w0 r" using iv(3) rn by simp
  next
    fix j assume "j < Suc i"
    then show "roomObj ?w' (roomNext w0 + j) =
         \<lparr>r_number = ''Room '' @ show_nat (j + 1), availabilitySchedule = room_availability nslots j\<rparr>"
      using iv(4) [of j] rn by (cases "j = i") simp_all
  qed
  then show ?thesis by (simp add: acc new_Data_room_Inr [OF assms(2)])
qed

lemma new_Data_total:
  assumes "0 \<le> (en - st) div 60"
  shows "\<exists>D w'. new_Data n names st en w0 = Inr (D, w') \<and>
    data_inv ((en - st) div 60) (w0\<lparr>EVENT_START_TIME := st, EVENT_END_TIME := en\<rparr>) (nat n) (d_rooms D, w') \<and>
    d_events D = data_events names"
proof -
  let ?w = "w0\<lparr>EVENT_START_TIME := st, EVENT_END_TIME := en\<rparr>"
  let ?t = "(en - st) div 60"
  have "\<exists>r. for_each [0..<nat n] (new_Data_room ?t) ([], ?w) = Inr r \<and> data_inv ?t ?w (nat n) r"
  proof (rule for_each_upt_total [where P = "data_inv ?t ?w"])
    show "data_inv ?t ?w 0 ([], ?w)" by (simp add: data_inv_def)
  next
    fix i a assume "data_inv ?t ?w i a"
    then show "\<exists>a'. new_Data_room ?t i a = Inr a' \<and> data_inv ?t ?w (Suc i) a'"
      using assms by (rule data_inv_step)
  qed simp
  then obtain rooms w' where "for_each [0..<nat n] (new_Data_room ?t) ([], ?w) = Inr (rooms, w')"
    "data_inv ?t ?w (nat n) (rooms, w')" by auto
  then show ?thesis
    by (simp add: new_Data_def Let_def data_events_def)
qed

lemma new_Data_no_rooms:
  assumes "n \<le> 0"
  shows "new_Data n names st en w0 =
     Inr (\<lparr>d_rooms = [], d_events = data_events names,
           EVENT_NAMES = (if length names > 0 then names else default_EVENT_NAMES)\<rparr>,
          w0\<lparr>EVENT_START_TIME := st, EVENT_END_TIME := en\<rparr>)"
  using assms by (simp add: new_Data_def Let_def data_events_def)

lemma new_Data_RangeError:
  assumes "0 < n" "en < st"
  shows "new_Data n names st en w0 = Inl RangeError"
proof -
  from assms(1) have "[0..<nat n] = 0 # [Suc 0..<nat n]" by (simp add: upt_rec)
  moreover from assms(2) have "(en - st) div 60 < 0" by simp
  ultimately show ?thesis
    by (simp add: new_Data_def Let_def new_Data_room_def)
qed

lemma show_nat_1: "show_nat (Suc 0) = ''1''"
  by (simp add: show_nat.simps char_of_def bit_iff_odd)

lemma room_availability_0: "room_availability nslots 0 = replicate (nat nslots) (Some True)"
  by (simp add: room_availability_def)

lemma new_Data_first_room:
  assumes "new_Data n names st en w0 = Inr (D, w')" "1 \<le> n" "en = st + 60 * int k"
  shows "EVENT_START_TIME w' = st \<and> EVENT_END_TIME w' = en \<and>
    d_rooms D = [roomNext w0..<roomNext w0 + nat n] \<and>
    roomObj w' (roomNext w0) =
      \<lparr>r_number = ''Room 1'', availabilitySchedule = replicate k (Some True)\<rparr> \<and>
    eventNext w' = eventNext w0 \<and> eventObj w' = eventObj w0 \<and> schedNext w' = schedNext w0 \<and>
    schedObj w' = schedObj w0 \<and> randomSource w' = randomSource w0 \<and> randomCalls w' = randomCalls w0 \<and>
    d_events D = data_events names"
proof -
  let ?w = "w0\<lparr>EVENT_START_TIME := st, EVENT_END_TIME := en\<rparr>"
  have t: "(en - st) div 60 = int k" using assms(3) by simp
  then have "0 \<le> (en - st) div 60" by simp
  from new_Data_total [OF this, of n names w0] assms(1)
  have di: "data_inv (int k) ?w (nat n) (d_rooms D, w')" and de: "d_events D = data_events names"
    by (auto simp: t)
  note d = di [unfolded data_inv_def fst_conv snd_conv]
  from d have e: "w' = ?w\<lparr>roomObj := roomObj w', roomNext := roomNext ?w + nat n\<rparr>" by blast
  from assms(2) have "0 < nat n" by simp
  with d have "roomObj w' (roomNext ?w + 0) =
     \<lparr>r_number = ''Room '' @ show_nat (0 + 1), availabilitySchedule = room_availability (int k) 0\<rparr>"
    by blast
  then have r: "roomObj w' (roomNext w0) =
      \<lparr>r_number = ''Room 1'', availabilitySchedule = replicate k (Some True)\<rparr>"
    by (simp add: show_nat_1 room_availability_0)
  have f: "EVENT_START_TIME w' = st" "EVENT_END_TIME w' = en" "eventNext w' = eventNext w0"
    "eventObj w' = eventObj w0" "schedNext w' = schedNext w0" "schedObj w' = schedObj w0"
    "randomSource w' = randomSource w0" "randomCalls w' = randomCalls w0"
    by (subst e, simp)+
  from d have "d_rooms D = [roomNext w0..<roomNext w0 + nat n]" by simp
  with r f de show ?thesis by simp
qed

lemma new_Data_feasible:
  assumes "new_Data n names st en w0 = Inr (D, w')" "1 \<le> n" "en = st + 60 * int k" "0 < k"
  shows "feasible D w'"
proof -
  from new_Data_first_room [OF assms(1,2,3)] have
    f: "EVENT_START_TIME w' = st" "EVENT_END_TIME w' = en"
    and rs: "d_rooms D = [roomNext w0..<roomNext w0 + nat n]"
    and r: "roomObj w' (roomNext w0) =
      \<lparr>r_number = ''Room 1'', availabilitySchedule = replicate k (Some True)\<rparr>"
    by simp_all
  from assms(2) rs have r0: "roomNext w0 \<in> set (d_rooms D)" by simp
  have av: "isAvailable w' (roomNext w0) (Some t) = Inr True"
    if "t \<in> set (availableTimeSlots_loop st en [])" for t
  proof -
    from that obtain j where j: "t = st + 60 * int j" "t < en"
      unfolding availableTimeSlots_set by auto
    with assms(3) have "j < k" by simp
    then show ?thesis
      by (simp add: isAvailable_def f r j(1) js_get_def)
  qed
  have "st < en" using assms(3,4) by simp
  then have "availableTimeSlots_loop st en [] \<noteq> []" by (rule availableTimeSlots_nonempty)
  with av r0 show ?thesis unfolding feasible_def f by blast
qed

section \<open>A whole run\<close>

lemma first_generation:
  assumes "new_PopulationEvents POPULATION_SIZE D w1 = Inr (p0, w2)"
    "sort_by_fitness (schedules p0) w2 = Inr (ys, w3)"
  shows "pop_ok D w3 (p0\<lparr>schedules := ys\<rparr>)" "best_first w3 (p0\<lparr>schedules := ys\<rparr>)"
    "frame {} w1 w3"
proof -
  note np = new_PopulationEvents_Inr [OF assms(1)]
  then have ok: "pop_ok D w2 p0" by (simp add: pop_ok_def)
  note so = sort_by_fitness_best_first [OF assms(2) ok]
  from so show "pop_ok D w3 (p0\<lparr>schedules := ys\<rparr>)" "best_first w3 (p0\<lparr>schedules := ys\<rparr>)"
    by simp_all
  from np so show "frame {} w1 w3" by (blast intro: frame_trans_empty quietD(1))
qed

lemma search_trace_ok:
  assumes "pop_ok D w pop" "best_first w pop"
  shows "\<forall>(p, wp)\<in>set (search_trace g pop w). pop_ok D wp p \<and> best_first wp p"
  using assms
proof (induction "MAX_GENERATIONS - g" arbitrary: g pop w)
  case 0
  then show ?case by (simp add: search_trace_step)
next
  case (Suc n)
  show ?case
  proof (cases "best_fitness w pop \<noteq> 1 \<and> g < MAX_GENERATIONS")
    case True
    show ?thesis
    proof (cases "next_generation pop w")
      case (Inl e)
      with True Suc.prems show ?thesis by (simp add: search_trace_step)
    next
      case (Inr r)
      obtain p2 w2 where r: "r = (p2, w2)" by (cases r)
      note n2 = next_generation_Inr [OF Inr [unfolded r] Suc.prems(1)]
      have "n = MAX_GENERATIONS - (g + 1)" using Suc.hyps(2) by simp
      from Suc.hyps(1) [OF this n2(1) n2(2)] True Inr r Suc.prems show ?thesis
        by (simp add: search_trace_step)
    qed
  next
    case False
    with Suc.prems show ?thesis by (auto simp: search_trace_step)
  qed
qed

lemma search_trace_hd:
  assumes "best_first w pop"
  shows "search_trace g pop w ! 0 = (pop, w)"
  by (subst search_trace_step [OF assms]) (simp split: sum.splits)

lemma search_trace_monotone:
  assumes "pop_ok D w pop" "best_first w pop" "Suc i < length (search_trace g pop w)"
  shows "best_fitness (snd (search_trace g pop w ! i)) (fst (search_trace g pop w ! i)) \<le>
    best_fitness (snd (search_trace g pop w ! Suc i)) (fst (search_trace g pop w ! Suc i))"
  using assms
proof (induction "MAX_GENERATIONS - g" arbitrary: g pop w i)
  case 0
  then show ?case by (simp add: search_trace_step)
next
  case (Suc n)
  show ?case
  proof (cases "best_fitness w pop \<noteq> 1 \<and> g < MAX_GENERATIONS")
    case True
    show ?thesis
    proof (cases "next_generation pop w")
      case (Inl e)
      with True Suc.prems show ?thesis by (simp add: search_trace_step)
    next
      case (Inr r)
      obtain p2 w2 where r: "r = (p2, w2)" by (cases r)
      note ng = Inr [unfolded r]
      note n2 = next_generation_Inr [OF ng Suc.prems(1)]
      have tr: "search_trace g pop w = (pop, w) # search_trace (g + 1) p2 w2"
        using True ng by (simp add: search_trace_step [OF Suc.prems(2)])
      note hd2 = search_trace_hd [OF n2(2)]
      show ?thesis
      proof (cases i)
        case 0
        with next_generation_monotone [OF ng Suc.prems(1,2)] show ?thesis
          by (simp add: tr hd2)
      next
        case (Suc j)
        have "n = MAX_GENERATIONS - (g + 1)" using Suc.hyps(2) by simp
        from Suc.hyps(1) [OF this n2(1) n2(2), of j] Suc.prems(3) Suc show ?thesis
          by (simp add: tr)
      qed
    qed
  next
    case False
    with Suc.prems show ?thesis by (auto simp: search_trace_step)
  qed
qed

lemma run_trace_monotone:
  assumes "Suc i < length (run_trace n names st en w)"
  shows "best_fitness (snd (run_trace n names st en w ! i)) (fst (run_trace n names st en w ! i)) \<le>
    best_fitness (snd (run_trace n names st en w ! Suc i)) (fst (run_trace n names st en w ! Suc i))"
proof -
  from assms obtain D w1 where d: "new_Data n names st en w = Inr (D, w1)"
    by (auto simp: run_trace_def split: sum.splits)
  from assms d obtain p0 w2 where p: "new_PopulationEvents POPULATION_SIZE D w1 = Inr (p0, w2)"
    by (auto simp: run_trace_def split: sum.splits)
  from assms d p obtain ys w3 where s: "sort_by_fitness (schedules p0) w2 = Inr (ys, w3)"
    by (auto simp: run_trace_def split: sum.splits)
  have tr: "run_trace n names st en w = search_trace 0 (p0\<lparr>schedules := ys\<rparr>) w3"
    by (simp add: run_trace_def d p s)
  note fg = first_generation [OF p s]
  from search_trace_monotone [OF fg(1,2)] assms show ?thesis unfolding tr by blast
qed

lemma fitness_of_le_1: "fitness_of w a \<le> 1"
  by (simp add: fitness_of_def)

lemma best_schedule_Inr:
  assumes "best_schedule n names st en w = Inr ((g, best, f), w')"
  shows "g \<le> MAX_GENERATIONS \<and> length (run_trace n names st en w) = Suc g \<and>
    (f = 1 \<or> g = MAX_GENERATIONS) \<and>
    best \<in> members (fst (last (run_trace n names st en w))) \<and>
    snd (last (run_trace n names st en w)) = w' \<and> f = fitness_of w' best \<and>
    (\<forall>(p, wp)\<in>set (run_trace n names st en w). \<forall>a\<in>members p. fitness_of wp a \<le> f)"
proof -
  from assms obtain D w1 where d: "new_Data n names st en w = Inr (D, w1)"
    by (auto simp: best_schedule_def split: sum.splits)
  from assms d obtain p0 w2 where p: "new_PopulationEvents POPULATION_SIZE D w1 = Inr (p0, w2)"
    by (auto simp: best_schedule_def split: sum.splits)
  from assms d p obtain ys w3 where s: "sort_by_fitness (schedules p0) w2 = Inr (ys, w3)"
    by (auto simp: best_schedule_def split: sum.splits)
  let ?pop = "p0\<lparr>schedules := ys\<rparr>"
  from assms d p s obtain population w4 where
    l: "search_loop 0 ?pop w3 = Inr ((g, population), w4)"
    by (auto simp: best_schedule_def split: sum.splits option.splits)
  from assms d p s l have b: "js_get (schedules population) 0 = Some best"
    and fg: "fitness_get best w4 = Inr (f, w')"
    by (auto simp: best_schedule_def split: sum.splits option.splits)
  have tr: "run_trace n names st en w = search_trace 0 ?pop w3"
    by (simp add: run_trace_def d p s)
  note fgn = first_generation [OF p s]
  from search_loop_Inr [OF l fgn(1,2)] have
    sl: "g \<le> MAX_GENERATIONS" "pop_ok D w4 population" "best_first w4 population"
      "best_fitness w4 population = 1 \<or> g = MAX_GENERATIONS"
      "length (search_trace 0 ?pop w3) = Suc g" "last (search_trace 0 ?pop w3) = (population, w4)"
      "\<forall>(p, wp)\<in>set (search_trace 0 ?pop w3). best_fitness wp p \<le> best_fitness w4 population"
    by simp_all
  from best_first_test [OF sl(3) b] fg have f: "f = fitness_of w4 best" and w': "w' = w4"
    by simp_all
  note bf = best_first_best_fitness [OF sl(3) b]
  have bm: "best \<in> members population" using b by (auto simp: members_def dest: js_get_0_in_set)
  have "fitness_of wp a \<le> f" if "(p, wp) \<in> set (search_trace 0 ?pop w3)" "a \<in> members p" for p wp a
  proof -
    from sl(7) that(1) have "best_fitness wp p \<le> best_fitness w4 population" by auto
    with best_fitness_ge [OF that(2), of wp] show ?thesis by (simp add: bf f)
  qed
  then show ?thesis
    using sl(1,4,5,6) bm unfolding tr by (auto simp: bf f w')
qed

lemma best_schedule_total:
  assumes "1 \<le> n" "en = st + 60 * int k" "0 < k"
  shows "\<exists>r. best_schedule n names st en w = Inr r"
proof -
  have "0 \<le> (en - st) div 60" using assms(2) by simp
  from new_Data_total [OF this, of n names w] obtain D w1 where
    d: "new_Data n names st en w = Inr (D, w1)" by blast
  note f1 = new_Data_feasible [OF d assms]
  from new_PopulationEvents_total [OF f1] obtain p0 w2 where
    p: "new_PopulationEvents POPULATION_SIZE D w1 = Inr (p0, w2)" by blast
  from new_PopulationEvents_Inr [OF p] have "members_ok D w2 (schedules p0)" by simp
  from sort_by_fitness_total [OF this] obtain ys w3 where
    s: "sort_by_fitness (schedules p0) w2 = Inr (ys, w3)" by blast
  note fgn = first_generation [OF p s]
  have f3: "feasible D w3" using f1 fgn(3) by (rule feasible_frame)
  from search_loop_total [OF fgn(1,2) f3, of 0] obtain r where
    l: "search_loop 0 (p0\<lparr>schedules := ys\<rparr>) w3 = Inr r" by blast
  obtain g population w4 where r: "r = ((g, population), w4)" by (cases r) auto
  from search_loop_Inr [OF l [unfolded r] fgn(1,2)] have
    bf: "best_first w4 population" by simp
  then obtain best where b: "js_get (schedules population) 0 = Some best"
    by (auto simp: best_first_def)
  from d p s l r b best_first_test [OF bf b] show ?thesis
    by (simp add: best_schedule_def)
qed

section \<open>Supporting lemmas for the population operators\<close>

lemma example_pop_ok: "pop_ok example_data generation_world example_population"
proof -
  have e: "entries_ok generation_world [Some 0, Some (Suc 0)]"
    unfolding entries_ok_def
  proof (intro allI impI)
    fix i assume "i < length [Some (0::nat), Some (Suc 0)]"
    then have "i = 0 \<or> i = Suc 0" by auto
    then show "entry_ok generation_world i ([Some 0, Some (Suc 0)] ! i)"
      by (auto simp: entry_ok_def generation_world_def example_events_def)
  qed
  have "sched_ok example_data generation_world a" if "a < 20" for a
    using that e
    by (simp add: sched_ok_def generation_world_def example_schedule_def example_data_def
        coherent_def)
  then show ?thesis
    by (auto simp: pop_ok_def members_ok_def example_population_def POPULATION_SIZE_def)
qed

lemma example_feasible: "feasible example_data generation_world"
proof -
  have "isAvailable generation_world 0 (Some t) = Inr True"
    if "t \<in> set (availableTimeSlots_loop 540 720 [])" for t
  proof -
    from that obtain j where j: "t = 540 + 60 * int j" "t < 720"
      unfolding availableTimeSlots_set by auto
    then have "j < 3" by simp
    then have "j = 0 \<or> j = 1 \<or> j = 2" by auto
    then show ?thesis
      by (auto simp: isAvailable_def generation_world_def example_rooms_def js_get_def j(1))
  qed
  moreover have "availableTimeSlots_loop 540 720 [] \<noteq> []"
    by (rule availableTimeSlots_nonempty) simp
  ultimately show ?thesis
    unfolding feasible_def by (auto simp: generation_world_def example_data_def)
qed

lemma crossoverPopulation_step_length:
  assumes "crossoverPopulation_step pop i acc = Inr acc'"
  shows "length (schedules (fst acc')) = Suc (length (schedules (fst acc)))"
  using assms
  by (auto simp: crossoverPopulation_step_def split: prod.splits sum.splits)

lemma crossoverPopulation_length:
  assumes "crossoverPopulation pop w = Inr (cp, w')"
  shows "length (schedules cp) = POPULATION_SIZE"
proof -
  let ?cp0 = "\<lparr>p_size = 0, p_data = p_data pop, schedules = []\<rparr>"
  let ?el = "fold (\<lambda>i cp. cp\<lparr>schedules := schedules cp @ [js_get (schedules pop) i]\<rparr>)
      [0..<NUMB_OF_ELITE_EVENTS] ?cp0"
  let ?P = "\<lambda>k (acc :: PopulationEvents \<times> world). length (schedules (fst acc)) = k"
  from assms have loop: "for_each [NUMB_OF_ELITE_EVENTS..<POPULATION_SIZE]
      (crossoverPopulation_step pop) (?el, w) = Inr (cp, w')"
    by (simp add: crossoverPopulation_def Let_def)
  have "?P POPULATION_SIZE (cp, w')" using loop
  proof (rule for_each_upt_invariant [where P = ?P])
    show "NUMB_OF_ELITE_EVENTS \<le> POPULATION_SIZE"
      by (simp add: NUMB_OF_ELITE_EVENTS_def POPULATION_SIZE_def)
    show "?P NUMB_OF_ELITE_EVENTS (?el, w)" by (simp add: NUMB_OF_ELITE_EVENTS_def upt_2)
  next
    fix k a a' assume "?P k a" "crossoverPopulation_step pop k a = Inr a'"
    then show "?P (Suc k) a'" using crossoverPopulation_step_length by simp
  qed
  then show ?thesis by simp
qed

lemma evolve_length:
  assumes "evolve pop w = Inr (p', w')"
  shows "length (schedules p') = POPULATION_SIZE"
proof -
  from assms obtain cp w1 where c: "crossoverPopulation pop w = Inr (cp, w1)"
    and m: "mutatePopulation cp w1 = Inr (p', w')"
    by (auto simp: evolve_def split: sum.splits)
  from m have "p' = cp" by (auto simp: mutatePopulation_def split: sum.splits)
  with crossoverPopulation_length [OF c] show ?thesis by simp
qed

lemma entries_ok_allocated_entry:
  assumes "entries_ok w evs" "x \<in> set evs"
  shows "\<exists>e. x = Some e \<and> e < eventNext w"
proof -
  from assms(2) obtain i where "i < length evs" "evs ! i = x" by (auto simp: in_set_conv_nth)
  with assms(1) have "entry_ok w i x" by (auto simp: entries_ok_def)
  then show ?thesis by (cases x) (auto simp: entry_ok_def)
qed

lemma assignments_frame:
  assumes "frame M w w'" "a \<notin> M" "sched_ok D w a"
  shows "s_events (schedObj w' a) = s_events (schedObj w a)" "assignments w' a = assignments w a"
proof -
  note ok = sched_okD [OF assms(3)]
  from assms(1,2) ok(1) show ev: "s_events (schedObj w' a) = s_events (schedObj w a)"
    by (simp add: frame_def)
  from assms(1) have old: "\<forall>e<eventNext w. eventObj w' e = eventObj w e"
    by (simp add: frame_def same_store_def)
  show "assignments w' a = assignments w a"
    unfolding assignments_def ev
  proof (rule map_cong [OF refl])
    fix x assume "x \<in> set (s_events (schedObj w a))"
    from entries_ok_allocated_entry [OF ok(4) this] old
    show "map_option (\<lambda>e. (e_room (eventObj w' e), e_time_slot (eventObj w' e))) x =
      map_option (\<lambda>e. (e_room (eventObj w e), e_time_slot (eventObj w e))) x" by auto
  qed
qed

lemma fitness_get_ok:
  assumes "sched_ok D w a"
  shows "\<exists>w'. fitness_get a w = Inr (fitness_of w a, w')"
proof -
  note ok = sched_okD [OF assms]
  have "list_all (assigned w) (s_events (schedObj w a))"
    unfolding list_all_iff
  proof
    fix x assume x: "x \<in> set (s_events (schedObj w a))"
    then obtain i where "i < length (s_events (schedObj w a))" "s_events (schedObj w a) ! i = x"
      by (auto simp: in_set_conv_nth)
    with ok(4) have "entry_ok w i x" by (auto simp: entries_ok_def)
    then show "assigned w x" by (cases x) (auto simp: entry_ok_def assigned_def)
  qed
  from fitness_get_total [OF this] obtain f w' where f: "fitness_get a w = Inr (f, w')" by blast
  from fitness_get_result(3) [OF f ok(5)] f show ?thesis by blast
qed

lemma pop_ok_elite:
  assumes "pop_ok D w pop" "i < POPULATION_SIZE"
  shows "\<exists>a. js_get (schedules pop) i = Some a \<and> sched_ok D w a"
proof -
  from assms have "schedules pop ! i \<in> set (schedules pop)" by (simp add: pop_ok_def)
  with assms show ?thesis by (auto simp: pop_ok_def members_ok_def js_get_def)
qed

lemma pop_ok_pop_alloc: "pop_ok D w pop \<Longrightarrow> pop_alloc w pop"
  by (auto simp: pop_ok_def members_ok_def pop_alloc_def dest: sched_okD(1))

lemma elite_index:
  assumes "take NUMB_OF_ELITE_EVENTS xs = [js_get ys 0, js_get ys 1]" "i < NUMB_OF_ELITE_EVENTS"
  shows "js_get xs i = js_get ys i"
proof -
  from assms(1) have l: "NUMB_OF_ELITE_EVENTS \<le> length xs"
    by (cases "NUMB_OF_ELITE_EVENTS \<le> length xs") (auto simp: NUMB_OF_ELITE_EVENTS_def)
  from assms(2) have "xs ! i = take NUMB_OF_ELITE_EVENTS xs ! i" by simp
  also from assms have "\<dots> = js_get ys i"
    by (cases i) (auto simp: NUMB_OF_ELITE_EVENTS_def)
  finally show ?thesis using l assms(2) by (simp add: js_get_def)
qed

lemma elite_through_evolve:
  assumes ok: "pop_ok D w pop" and i: "i < NUMB_OF_ELITE_EVENTS"
    and el: "js_get (schedules pop) i = Some a"
    and c: "crossoverPopulation pop w = Inr (cp, w1)"
  shows "js_get (schedules cp) i = Some a" "frame {} w w1" "sched_ok D w1 a"
    "mutatePopulation cp w1 = Inr (p2, w2) \<Longrightarrow>
       p2 = cp \<and> frame {b. schedNext w \<le> b} w1 w2"
proof -
  note cp = cpop_invD [OF crossoverPopulation_Inr [OF c pop_ok_pop_alloc [OF ok]]]
  from elite_index [OF cp(4) i] el show "js_get (schedules cp) i = Some a" by simp
  show "frame {} w w1" by (rule cp(1))
  from pop_ok_elite [OF ok, of i] i el have a: "sched_ok D w a"
    by (auto simp: NUMB_OF_ELITE_EVENTS_def POPULATION_SIZE_def)
  from sched_ok_frame [OF a cp(1)] show "sched_ok D w1 a" by simp
  assume m: "mutatePopulation cp w1 = Inr (p2, w2)"
  from mutatePopulation_Inr [OF m cp(3), of "schedNext w"] cp(5)
  show "p2 = cp \<and> frame {b. schedNext w \<le> b} w1 w2" by blast
qed

lemma example_sched_ok:
  assumes "a < 20"
  shows "sched_ok example_data generation_world a"
proof -
  from assms have "Some a \<in> set (schedules example_population)"
    by (simp add: example_population_def)
  with example_pop_ok show ?thesis by (auto simp: pop_ok_def members_ok_def)
qed

lemma crossover_entry:
  assumes ok: "sched_ok D w p" and i: "i < length (d_events D)"
    and st: "same_store w w'" and x: "s_events (schedObj w' c) ! i = js_get (s_events (schedObj w p)) i"
    and len: "length (s_events (schedObj w' c)) = length (d_events D)"
  shows "s_events (schedObj w' c) ! i = s_events (schedObj w p) ! i"
    "assignments w' c ! i = assignments w p ! i"
    "\<exists>e. s_events (schedObj w' c) ! i = Some e \<and> e < eventNext w"
proof -
  note o = sched_okD [OF ok]
  from i o(3) have g: "js_get (s_events (schedObj w p)) i = s_events (schedObj w p) ! i"
    by (simp add: js_get_def)
  with x show 1: "s_events (schedObj w' c) ! i = s_events (schedObj w p) ! i" by simp
  from i o(3) have "s_events (schedObj w p) ! i \<in> set (s_events (schedObj w p))" by simp
  from entries_ok_allocated_entry [OF o(4) this] obtain e
    where e: "s_events (schedObj w p) ! i = Some e" "e < eventNext w" by blast
  with 1 show "\<exists>e. s_events (schedObj w' c) ! i = Some e \<and> e < eventNext w" by simp
  from st e(2) have "eventObj w' e = eventObj w e" by (simp add: same_store_def)
  with 1 e i o(3) len show "assignments w' c ! i = assignments w p ! i"
    by (simp add: assignments_def)
qed

lemma example_assignments:
  assumes "a < 20"
  shows "assignments generation_world a = [Some (Some 0, Some 540), Some (Some 0, Some 540)]"
  by (simp add: assignments_def generation_world_def example_schedule_def example_events_def)

lemma example_s_data: "s_data (schedObj generation_world a) = example_data"
  by (simp add: generation_world_def example_schedule_def)

lemma feasible_quiet:
  assumes "feasible D w" "quiet w w'"
  shows "feasible D w'"
  using feasible_frame [OF assms(1) quietD(1) [OF assms(2)]] .

lemma search_trace_length:
  "length (search_trace g pop w) \<le> Suc (MAX_GENERATIONS - g)"
proof (induction "MAX_GENERATIONS - g" arbitrary: g pop w)
  case 0
  then show ?case
    by (subst search_trace.simps) (simp split: option.splits sum.splits prod.splits)
next
  case (Suc n)
  have "length (search_trace (g + 1) p w2) \<le> Suc (MAX_GENERATIONS - (g + 1))" for p w2
    using Suc.hyps(2) by (intro Suc.hyps(1)) simp
  then have "length (search_trace (g + 1) p w2) \<le> MAX_GENERATIONS - g" for p w2
    using Suc.hyps(2) by (metis Suc_diff_Suc Suc_eq_plus1 diff_Suc_Suc diff_diff_cancel
        diff_le_self zero_less_Suc zero_less_diff)
  then show ?case
    by (subst search_trace.simps) (simp split: option.splits sum.splits prod.splits)
qed

lemma run_trace_length: "length (run_trace n names st en w) \<le> Suc MAX_GENERATIONS"
  using search_trace_length [of 0]
  by (simp add: run_trace_def split: sum.splits prod.splits)

lemma first_room_slot:
  assumes room: "availabilitySchedule (roomObj w r) = replicate k (Some True)"
    and en: "EVENT_END_TIME w = EVENT_START_TIME w + 60 * int k"
    and t: "t \<in> set (availableTimeSlots_loop (EVENT_START_TIME w) (EVENT_END_TIME w) [])"
  shows "isAvailable w r (Some t) = Inr True"
proof -
  from t obtain j where j: "t = EVENT_START_TIME w + 60 * int j" "t < EVENT_END_TIME w"
    unfolding availableTimeSlots_set by auto
  with en have "j < k" by simp
  with j(1) room show ?thesis by (simp add: isAvailable_def js_get_def)
qed

lemma initialize_step_no_rooms:
  assumes "d_rooms (s_data (schedObj w this)) = []"
  shows "initialize_step this i w = Inl NoAvailableRooms"
  using assms
  by (simp add: initialize_step_def new_Event_def getRandomTimeSlot_def random_index_def
      Math_random_def set_timeSlot_def event_update_def sched_update_def getAvailableRoom_def
      Let_def case_prod_beta)

lemma initialize_no_rooms:
  assumes "d_rooms (s_data (schedObj w this)) = []" "d_events (s_data (schedObj w this)) \<noteq> []"
  shows "initialize this w = Inl NoAvailableRooms"
  using assms by (simp add: initialize_def upt_conv_Cons initialize_step_no_rooms)

lemma new_PopulationEvents_no_rooms:
  assumes "d_rooms d = []" "d_events d \<noteq> []" "0 < sz"
  shows "new_PopulationEvents sz d w = Inl NoAvailableRooms"
proof -
  have "initialize (schedNext w) (snd (new_ScheduleEvents d w)) = Inl NoAvailableRooms"
    using assms(1,2) by (intro initialize_no_rooms) (simp_all add: new_ScheduleEvents_def)
  then have "new_PopulationEvents_step d 0 ([], w) = Inl NoAvailableRooms"
    by (simp add: new_PopulationEvents_step_def new_ScheduleEvents_def)
  with assms(3) show ?thesis by (simp add: new_PopulationEvents_def upt_conv_Cons)
qed

lemma data_events_nonempty: "data_events names \<noteq> []"
  by (simp add: data_events_def default_EVENT_NAMES_def enumerate_eq_zip)

lemma data_events_default: "length (data_events []) = 8"
  by (simp add: data_events_def default_EVENT_NAMES_def)

lemma best_schedule_no_rooms:
  assumes "n \<le> 0"
  shows "best_schedule n names st en w = Inl NoAvailableRooms"
  by (simp add: best_schedule_def new_Data_no_rooms [OF assms] new_PopulationEvents_no_rooms
      data_events_nonempty POPULATION_SIZE_def)

lemma new_Data_accepts:
  assumes "st \<le> en"
  shows "\<exists>D w'. new_Data n names st en w = Inr (D, w') \<and> d_events D = data_events names \<and>
    length (d_rooms D) = nat n"
proof -
  from assms have "0 \<le> (en - st) div 60" by simp
  from new_Data_total [OF this, of n names w] show ?thesis
    by (auto simp: data_inv_def)
qed


lemma initialize_step_no_slots:
  assumes "EVENT_END_TIME w \<le> EVENT_START_TIME w" "d_rooms (s_data (schedObj w this)) \<noteq> []"
  shows "initialize_step this i w = Inl TypeError"
proof -
  from assms(1) have "availableTimeSlots_loop (EVENT_START_TIME w) (EVENT_END_TIME w) [] = []"
    by (simp add: availableTimeSlots_loop.simps)
  moreover from assms(2) obtain r rs where "d_rooms (s_data (schedObj w this)) = r # rs"
    by (cases "d_rooms (s_data (schedObj w this))") auto
  ultimately show ?thesis
    by (simp add: initialize_step_def new_Event_def getRandomTimeSlot_def random_index_def
        Math_random_def set_timeSlot_def event_update_def sched_update_def getAvailableRoom_def
        isAvailable_def js_get_def Let_def case_prod_beta)
qed

lemma new_PopulationEvents_no_slots:
  assumes "EVENT_END_TIME w \<le> EVENT_START_TIME w" "d_rooms d \<noteq> []" "d_events d \<noteq> []" "0 < sz"
  shows "new_PopulationEvents sz d w = Inl TypeError"
proof -
  let ?w1 = "snd (new_ScheduleEvents d w)"
  have "initialize_step (schedNext w) 0 ?w1 = Inl TypeError"
    using assms(1,2) by (intro initialize_step_no_slots) (simp_all add: new_ScheduleEvents_def)
  with assms(3) have "initialize (schedNext w) ?w1 = Inl TypeError"
    by (simp add: initialize_def upt_conv_Cons new_ScheduleEvents_def)
  then have "new_PopulationEvents_step d 0 ([], w) = Inl TypeError"
    by (simp add: new_PopulationEvents_step_def new_ScheduleEvents_def)
  with assms(4) show ?thesis by (simp add: new_PopulationEvents_def upt_conv_Cons)
qed

lemma best_schedule_no_slots:
  assumes "1 \<le> n"
  shows "best_schedule n names st st w = Inl TypeError"
proof -
  from new_Data_accepts [of st st n names w] obtain D w1
    where d: "new_Data n names st st w = Inr (D, w1)" and ev: "d_events D = data_events names"
      and r: "length (d_rooms D) = nat n" by auto
  from new_Data_first_room [OF d assms, of 0] have t: "EVENT_START_TIME w1 = st" "EVENT_END_TIME w1 = st"
    by simp_all
  from r assms have "d_rooms D \<noteq> []" by auto
  then have "new_PopulationEvents POPULATION_SIZE D w1 = Inl TypeError"
    by (intro new_PopulationEvents_no_slots)
      (simp_all add: t ev data_events_nonempty POPULATION_SIZE_def)
  with d show ?thesis by (simp add: best_schedule_def)
qed

lemma write_assignment_cache:
  "isFitnessChanged (schedObj (write_assignment wr w) a) \<longleftrightarrow>
     isFitnessChanged (schedObj w a) \<or> through_getter a wr"
  "s_fitness (schedObj (write_assignment wr w) a) = s_fitness (schedObj w a)"
  by (cases wr; simp add: set_room_def set_timeSlot_def event_update_def events_get_def
      sched_update_def)+

lemma write_assignments_cache:
  "isFitnessChanged (schedObj (write_assignments ws w) a) \<longleftrightarrow>
     isFitnessChanged (schedObj w a) \<or> list_ex (through_getter a) ws"
  "s_fitness (schedObj (write_assignments ws w) a) = s_fitness (schedObj w a)"
  unfolding write_assignments_def
  by (induction ws arbitrary: w) (auto simp: write_assignment_cache)

lemma fitness_get_changed:
  assumes "isFitnessChanged (schedObj w a)" "list_all (assigned w) (s_events (schedObj w a))"
  shows "\<exists>w'. fitness_get a w = Inr (fitness_of w a, w')"
  using assms by (simp add: fitness_get_def calculateFitness_assigned Let_def)

lemma cached_before:
  "fitness_get 0 cached_world = Inr (1 / 2, cached_world)"
  "\<exists>w'. calculateFitness 0 cached_world = Inr (1 / 2, w')"
  by (simp_all add: fitness_get_def calculateFitness_def events_get_def cached_world_def
      sched_update_def event_conflicts_def pair_conflict_def js_get_def isAvailable_def
      example_events_def example_rooms_def upt_2)

lemma cached_after_setter:
  "fitness_get 0 (set_timeSlot 1 (Some 600) cached_world) =
     Inr (1 / 2, set_timeSlot 1 (Some 600) cached_world)"
  "\<exists>w'. calculateFitness 0 (set_timeSlot 1 (Some 600) cached_world) = Inr (1, w')"
  by (simp_all add: fitness_get_def calculateFitness_def events_get_def cached_world_def
      sched_update_def event_conflicts_def pair_conflict_def js_get_def isAvailable_def
      example_events_def example_rooms_def upt_2 set_timeSlot_def event_update_def)

lemma Rep_unit_interval_0: "Rep_unit_interval (Abs_unit_interval 0) = 0"
  by (simp add: Abs_unit_interval_inverse)

lemma example_slots: "availableTimeSlots_loop 540 720 [] = [540, 600, 660]"
  by (simp add: availableTimeSlots_loop.simps TIME_SLOT_INTERVAL_def)

lemma setter_seen:
  assumes "i < length (s_events (schedObj w a))" "s_events (schedObj w a) ! i = Some e"
  shows "assignments (set_room e r w) a ! i = Some (r, e_time_slot (eventObj w e))"
    "assignments (set_timeSlot e t w) a ! i = Some (e_room (eventObj w e), t)"
  using assms by (simp_all add: assignments_def set_room_def set_timeSlot_def event_update_def)

lemma sharing_sched_ok:
  assumes "a < 2"
  shows "sched_ok example_data sharing_world a"
proof -
  have "entry_ok sharing_world i ([Some (2 * a), Some (2 * a + 1)] ! i)" if "i < 2" for i
  proof -
    from that have "i = 0 \<or> i = 1" by auto
    with assms show ?thesis
      by (auto simp: entry_ok_def sharing_world_def sharing_events_def)
  qed
  then have "entries_ok sharing_world [Some (2 * a), Some (2 * a + 1)]"
    by (simp add: entries_ok_def)
  with assms show ?thesis
    by (simp add: sched_ok_def sharing_world_def example_data_def coherent_def)
qed

lemma sharing_feasible: "feasible example_data sharing_world"
proof -
  have "\<exists>r\<in>set (d_rooms example_data). isAvailable sharing_world r (Some t) = Inr True"
    if "t \<in> set [540, 600, 660]" for t
    using that by (auto simp: example_data_def isAvailable_def sharing_world_def
        example_rooms_def js_get_def)
  then show ?thesis by (simp add: feasible_def sharing_world_def example_slots)
qed

lemma sharing_before:
  "s_events (schedObj sharing_world 0) = [Some 0, Some 1]"
  "s_events (schedObj sharing_world 1) = [Some 2, Some 3]"
  "assignments sharing_world 1 = [Some (Some 0, Some 540), Some (Some 0, Some 600)]"
  "\<exists>w1. calculateFitness 1 sharing_world = Inr (1, w1)"
  by (simp_all add: sharing_world_def assignments_def sharing_events_def calculateFitness_def
      events_get_def sched_update_def event_conflicts_def pair_conflict_def js_get_def
      isAvailable_def example_rooms_def upt_2)

lemma sharing_crossover:
  "\<exists>w'. crossoverSchedule (Some 0) (Some 1) sharing_world = Inr (2, w') \<and>
     s_events (schedObj w' 2) = [Some 2, Some 3] \<and>
     s_events (schedObj w' 0) = [Some 0, Some 1] \<and>
     s_events (schedObj w' 1) = [Some 2, Some 3] \<and>
     assignments w' 1 = [Some (Some 0, Some 540), Some (Some 0, Some 600)] \<and>
     list_all (assigned w') (s_events (schedObj w' 1)) \<and>
     (\<exists>w1. calculateFitness 1 w' = Inr (1, w1)) \<and>
     assignments (set_timeSlot 3 (Some 540) w') 1 =
       [Some (Some 0, Some 540), Some (Some 0, Some 540)] \<and>
     list_all (assigned (set_timeSlot 3 (Some 540) w'))
       (s_events (schedObj (set_timeSlot 3 (Some 540) w') 1)) \<and>
     (\<exists>w1. calculateFitness 1 (set_timeSlot 3 (Some 540) w') = Inr (1 / 2, w1))"
  by (simp add: crossoverSchedule_def new_ScheduleEvents_def initialize_def initialize_step_def
      new_Event_def getRandomTimeSlot_def random_index_def Math_random_def set_timeSlot_def
      set_room_def event_update_def sched_update_def getAvailableRoom_def isAvailable_def
      crossover_step_def events_get_def js_get_def js_set_def Let_def sharing_world_def
      example_data_def example_rooms_def Rep_unit_interval_0 example_slots upt_2
      assignments_def assigned_def sharing_events_def calculateFitness_def
      event_conflicts_def pair_conflict_def)


lemma crossover_shared_entry:
  assumes ok1: "sched_ok D w p1" and ok2: "sched_ok D w p2"
    and c: "crossoverSchedule (Some p1) (Some p2) w = Inr (c, w')"
    and i: "i < length (s_events (schedObj w' c))"
  shows "\<exists>e p. (p = p1 \<or> p = p2) \<and> e < eventNext w \<and> i < length (s_events (schedObj w' p)) \<and>
    s_events (schedObj w' c) ! i = Some e \<and> s_events (schedObj w' p) ! i = Some e"
proof -
  note o1 = sched_okD [OF ok1] and o2 = sched_okD [OF ok2]
  have "\<exists>q. Some p1 = Some q \<and> c = schedNext w \<and> schedNext w' = Suc c \<and> touches {} w w' \<and>
    s_data (schedObj w' c) = s_data (schedObj w q) \<and> isFitnessChanged (schedObj w' c) \<and>
    length (s_events (schedObj w' c)) = length (d_events (s_data (schedObj w q))) \<and>
    (\<forall>i<length (s_events (schedObj w' c)).
        from_parent w (Some p1) (Some p2) i (s_events (schedObj w' c) ! i))"
    using o1(1) o2(1) by (intro crossoverSchedule_Inr [OF c]) auto
  then have t: "touches {} w w'"
    and len: "length (s_events (schedObj w' c)) = length (d_events D)"
    and fp: "from_parent w (Some p1) (Some p2) i (s_events (schedObj w' c) ! i)"
    using i o1(2) by auto
  from fp obtain p where p: "p = p1 \<or> p = p2"
    and x: "s_events (schedObj w' c) ! i = js_get (s_events (schedObj w p)) i"
    by (auto simp: from_parent_def)
  from p ok1 ok2 have okp: "sched_ok D w p" by auto
  note op = sched_okD [OF okp]
  have same: "s_events (schedObj w' p) = s_events (schedObj w p)"
    by (rule touches_old_events [OF t op(1)]) simp
  from i len have iD: "i < length (d_events D)" by simp
  note ce = crossover_entry [OF okp iD touches_same_store [OF t] x len]
  from ce(3) obtain e where e: "s_events (schedObj w' c) ! i = Some e" "e < eventNext w" by blast
  from ce(1) e(1) same have pe: "s_events (schedObj w' p) ! i = Some e" by simp
  from same iD op(3) have ip: "i < length (s_events (schedObj w' p))" by simp
  from p e pe ip show ?thesis by blast
qed




lemma pop_ok_entries:
  assumes "pop_ok D w pop"
  shows "\<forall>i<POPULATION_SIZE. \<exists>a. schedules pop ! i = Some a \<and> sched_ok D w a"
    "None \<notin> set (schedules pop)"
proof -
  show "\<forall>i<POPULATION_SIZE. \<exists>a. schedules pop ! i = Some a \<and> sched_ok D w a"
  proof (intro allI impI)
    fix i assume i: "i < POPULATION_SIZE"
    from pop_ok_elite [OF assms i] i assms
    show "\<exists>a. schedules pop ! i = Some a \<and> sched_ok D w a"
      by (simp add: js_get_def pop_ok_def)
  qed
  from assms show "None \<notin> set (schedules pop)"
    by (auto simp: pop_ok_def members_ok_def)
qed

section \<open>Properties of the scheduler\<close>



text \<open>
  Claim C2. A run is the handler from the construction of the data to the best schedule;
  \<open>run_trace\<close> lists its generations. Whenever the run returns generation number \<open>g\<close>,
  schedule \<open>best\<close> and fitness \<open>f\<close>, then \<open>g\<close> is at most \<open>MAX_GENERATIONS\<close>, the run has
  gone through the generations \<open>0\<close> to \<open>g\<close>, \<open>best\<close> is a member of the last one with
  fitness \<open>f\<close>, and no member of any generation of the run has a fitness above \<open>f\<close>.
  Either \<open>f\<close> is 1, or the budget of \<open>MAX_GENERATIONS\<close> generations is used up and no
  member of any generation ever had fitness 1. No run has more than \<open>MAX_GENERATIONS\<close>
  generations after the first. With at least one room and an end time a positive number
  of hours after the start time the run does return a schedule.
\<close>

theorem search_halts_with_best:
  "(\<forall>g best f w'. best_schedule n names st en w = Inr ((g, best, f), w') \<longrightarrow>
      g \<le> MAX_GENERATIONS \<and> length (run_trace n names st en w) = Suc g \<and>
      best \<in> members (fst (last (run_trace n names st en w))) \<and>
      snd (last (run_trace n names st en w)) = w' \<and> f = fitness_of w' best \<and>
      (\<forall>(p, wp)\<in>set (run_trace n names st en w). \<forall>a\<in>members p. fitness_of wp a \<le> f) \<and>
      (f = 1 \<or>
       g = MAX_GENERATIONS \<and>
       (\<forall>(p, wp)\<in>set (run_trace n names st en w). \<forall>a\<in>members p. fitness_of wp a < 1))) \<and>
   length (run_trace n names st en w) \<le> Suc MAX_GENERATIONS \<and>
   (1 \<le> n \<and> en = st + 60 * int k \<and> 0 < k \<longrightarrow>
      (\<exists>r. best_schedule n names st en w = Inr r))"
proof (intro conjI allI impI)
  show "length (run_trace n names st en w) \<le> Suc MAX_GENERATIONS" by (rule run_trace_length)
next
  assume "1 \<le> n \<and> en = st + 60 * int k \<and> 0 < k"
  then show "\<exists>r. best_schedule n names st en w = Inr r" using best_schedule_total by blast
next
  fix g best f w' assume b: "best_schedule n names st en w = Inr ((g, best, f), w')"
  note r = best_schedule_Inr [OF b]
  from r show "g \<le> MAX_GENERATIONS" "length (run_trace n names st en w) = Suc g"
    "best \<in> members (fst (last (run_trace n names st en w)))"
    "snd (last (run_trace n names st en w)) = w'" "f = fitness_of w' best"
    by blast+
  from r show le: "\<forall>(p, wp)\<in>set (run_trace n names st en w). \<forall>a\<in>members p. fitness_of wp a \<le> f"
    by blast
  from r have d: "f = 1 \<or> g = MAX_GENERATIONS" by blast
  show "f = 1 \<or>
       g = MAX_GENERATIONS \<and>
       (\<forall>(p, wp)\<in>set (run_trace n names st en w). \<forall>a\<in>members p. fitness_of wp a < 1)"
  proof (cases "f = 1")
    case True
    then show ?thesis by simp
  next
    case False
    from r have "f = fitness_of w' best" by blast
    with False fitness_of_le_1 [of w' best] have "f < 1" by simp
    with le have "\<forall>(p, wp)\<in>set (run_trace n names st en w). \<forall>a\<in>members p. fitness_of wp a < 1"
      by fastforce
    with d False show ?thesis by simp
  qed
qed

theorem search_halts_with_best_witness:
  "(1::int) \<le> 1 \<and> (600::int) = 540 + 60 * int 1 \<and> (0::nat) < 1 \<and>
   (\<exists>g best f w'. best_schedule 1 [''Quiz''] 540 600 example_world = Inr ((g, best, f), w') \<and>
      g \<le> MAX_GENERATIONS \<and>
      length (run_trace 1 [''Quiz''] 540 600 example_world) = Suc g \<and>
      best \<in> members (fst (last (run_trace 1 [''Quiz''] 540 600 example_world))) \<and>
      fitness_of (snd (last (run_trace 1 [''Quiz''] 540 600 example_world))) best \<le> f)"
proof -
  let ?tr = "run_trace 1 [''Quiz''] 540 600 example_world"
  note th = search_halts_with_best [of 1 "[''Quiz'']" 540 600 example_world 1]
  have h: "(1::int) \<le> 1 \<and> (600::int) = 540 + 60 * int 1 \<and> (0::nat) < 1" by simp
  with th obtain r where "best_schedule 1 [''Quiz''] 540 600 example_world = Inr r" by blast
  then obtain g best f w'
    where b: "best_schedule 1 [''Quiz''] 540 600 example_world = Inr ((g, best, f), w')"
    by (cases r) auto
  from th b have g: "g \<le> MAX_GENERATIONS" and l: "length ?tr = Suc g"
    and m: "best \<in> members (fst (last ?tr))"
    and le: "\<forall>(p, wp)\<in>set ?tr. \<forall>a\<in>members p. fitness_of wp a \<le> f"
    by blast+
  from l have "?tr \<noteq> []" by auto
  then have "last ?tr \<in> set ?tr" by simp
  with le m have "fitness_of (snd (last ?tr)) best \<le> f"
    by (cases "last ?tr") auto
  with h b g l m show ?thesis by blast
qed

text \<open>
  Claim C3. Let a population of \<open>POPULATION_SIZE\<close> well-formed schedules be given (every
  generation of a run is one, sorted best first) and let \<open>a\<close> be the schedule at an index
  \<open>i\<close> below \<open>NUMB_OF_ELITE_EVENTS\<close>. The crossover pass stores \<open>a\<close> itself at index \<open>i\<close>
  of the new population, the mutation pass leaves index \<open>i\<close> and the events array of \<open>a\<close>
  as they are, and after the sort \<open>a\<close> is a member of the next generation with the same
  room and time slot at every position and the same fitness, which is also the value a
  fitness read returns.
\<close>

theorem elites_carried_unmodified:
  assumes "pop_ok D w pop" "i < NUMB_OF_ELITE_EVENTS"
  shows "\<exists>a. js_get (schedules pop) i = Some a \<and>
    (\<forall>cp w1. crossoverPopulation pop w = Inr (cp, w1) \<longrightarrow>
       js_get (schedules cp) i = Some a \<and>
       (\<forall>p2 w2. mutatePopulation cp w1 = Inr (p2, w2) \<longrightarrow>
          js_get (schedules p2) i = Some a \<and>
          s_events (schedObj w2 a) = s_events (schedObj w1 a) \<and>
          s_events (schedObj w2 a) = s_events (schedObj w a) \<and>
          assignments w2 a = assignments w a \<and> fitness_of w2 a = fitness_of w a)) \<and>
    (\<forall>p' w'. next_generation pop w = Inr (p', w') \<longrightarrow>
       Some a \<in> set (schedules p') \<and> length (schedules p') = POPULATION_SIZE \<and>
       s_events (schedObj w' a) = s_events (schedObj w a) \<and>
       assignments w' a = assignments w a \<and> fitness_of w' a = fitness_of w a \<and>
       (\<exists>w''. fitness_get a w' = Inr (fitness_of w a, w'')))"
proof -
  from assms(2) have "i < POPULATION_SIZE"
    by (simp add: NUMB_OF_ELITE_EVENTS_def POPULATION_SIZE_def)
  from pop_ok_elite [OF assms(1) this] obtain a
    where el: "js_get (schedules pop) i = Some a" and a: "sched_ok D w a" by blast
  have lt: "a < schedNext w" by (rule sched_okD(1) [OF a])
  have cross: "js_get (schedules cp) i = Some a \<and>
       (\<forall>p2 w2. mutatePopulation cp w1 = Inr (p2, w2) \<longrightarrow>
          js_get (schedules p2) i = Some a \<and>
          s_events (schedObj w2 a) = s_events (schedObj w1 a) \<and>
          s_events (schedObj w2 a) = s_events (schedObj w a) \<and>
          assignments w2 a = assignments w a \<and> fitness_of w2 a = fitness_of w a)"
    if c: "crossoverPopulation pop w = Inr (cp, w1)" for cp w1
  proof (intro conjI allI impI)
    note e = elite_through_evolve [OF assms el c]
    show "js_get (schedules cp) i = Some a" by (rule e(1))
    fix p2 w2 assume m: "mutatePopulation cp w1 = Inr (p2, w2)"
    from e(4) [OF m] have p2: "p2 = cp" and f2: "frame {b. schedNext w \<le> b} w1 w2" by simp_all
    from lt have notin: "a \<notin> {b. schedNext w \<le> b}" by simp
    show "js_get (schedules p2) i = Some a" using e(1) p2 by simp
    show "s_events (schedObj w2 a) = s_events (schedObj w1 a)"
      by (rule assignments_frame(1) [OF f2 notin e(3)])
    then show "s_events (schedObj w2 a) = s_events (schedObj w a)"
      using assignments_frame(1) [OF e(2) _ a] by simp
    show "assignments w2 a = assignments w a"
      using assignments_frame(2) [OF f2 notin e(3)] assignments_frame(2) [OF e(2) _ a] by simp
    show "fitness_of w2 a = fitness_of w a"
      using fitness_of_frame [OF f2 notin e(3)] fitness_of_frame [OF e(2) _ a] by simp
  qed
  have gen: "Some a \<in> set (schedules p') \<and> length (schedules p') = POPULATION_SIZE \<and>
       s_events (schedObj w' a) = s_events (schedObj w a) \<and>
       assignments w' a = assignments w a \<and> fitness_of w' a = fitness_of w a \<and>
       (\<exists>w''. fitness_get a w' = Inr (fitness_of w a, w''))"
    if n: "next_generation pop w = Inr (p', w')" for p' w'
  proof -
    note g = next_generation_Inr [OF n assms(1)]
    from g(4) [OF assms(2)] el have "Some a \<in> set (schedules p')" by simp
    moreover note g(5)
    moreover note assignments_frame [OF g(3) _ a]
    moreover have fo: "fitness_of w' a = fitness_of w a" using fitness_of_frame [OF g(3) _ a] by simp
    moreover have "sched_ok D w' a" using sched_ok_frame [OF a g(3)] by simp
    from fitness_get_ok [OF this] fo
    have "\<exists>w''. fitness_get a w' = Inr (fitness_of w a, w'')" by simp
    ultimately show ?thesis by simp
  qed
  from el cross gen show ?thesis by blast
qed

theorem elites_carried_unmodified_witness:
  "pop_ok example_data generation_world example_population \<and> (1::nat) < NUMB_OF_ELITE_EVENTS \<and>
   js_get (schedules example_population) 1 = Some 1 \<and>
   (\<exists>cp w1 p2 w2. crossoverPopulation example_population generation_world = Inr (cp, w1) \<and>
      mutatePopulation cp w1 = Inr (p2, w2) \<and>
      js_get (schedules cp) 1 = Some 1 \<and> js_get (schedules p2) 1 = Some 1 \<and>
      s_events (schedObj w2 1) = s_events (schedObj generation_world 1) \<and>
      assignments w2 1 = assignments generation_world 1 \<and>
      fitness_of w2 1 = fitness_of generation_world 1) \<and>
   (\<exists>p' w'. next_generation example_population generation_world = Inr (p', w') \<and>
      Some 1 \<in> set (schedules p') \<and>
      assignments w' 1 = assignments generation_world 1 \<and>
      fitness_of w' 1 = fitness_of generation_world 1 \<and>
      (\<exists>w''. fitness_get 1 w' = Inr (fitness_of generation_world 1, w'')))"
proof -
  have i: "(1::nat) < NUMB_OF_ELITE_EVENTS" by (simp add: NUMB_OF_ELITE_EVENTS_def)
  have el: "js_get (schedules example_population) 1 = Some 1"
    by (simp add: example_population_def js_get_def upt_rec)
  from elites_carried_unmodified [OF example_pop_ok i] el
  have cross: "\<And>cp w1. crossoverPopulation example_population generation_world = Inr (cp, w1) \<Longrightarrow>
       js_get (schedules cp) 1 = Some 1 \<and>
       (\<forall>p2 w2. mutatePopulation cp w1 = Inr (p2, w2) \<longrightarrow>
          js_get (schedules p2) 1 = Some 1 \<and>
          s_events (schedObj w2 1) = s_events (schedObj w1 1) \<and>
          s_events (schedObj w2 1) = s_events (schedObj generation_world 1) \<and>
          assignments w2 1 = assignments generation_world 1 \<and>
          fitness_of w2 1 = fitness_of generation_world 1)"
    and gen: "\<And>p' w'. next_generation example_population generation_world = Inr (p', w') \<Longrightarrow>
       Some 1 \<in> set (schedules p') \<and> length (schedules p') = POPULATION_SIZE \<and>
       s_events (schedObj w' 1) = s_events (schedObj generation_world 1) \<and>
       assignments w' 1 = assignments generation_world 1 \<and>
       fitness_of w' 1 = fitness_of generation_world 1 \<and>
       (\<exists>w''. fitness_get 1 w' = Inr (fitness_of generation_world 1, w''))"
    by auto
  from evolve_total [OF example_pop_ok example_feasible] obtain p2 w2
    where e: "evolve example_population generation_world = Inr (p2, w2)" by blast
  then obtain cp w1
    where c: "crossoverPopulation example_population generation_world = Inr (cp, w1)"
      and m: "mutatePopulation cp w1 = Inr (p2, w2)"
    by (auto simp: evolve_def split: sum.splits)
  from cross [OF c] m have 1: "js_get (schedules cp) 1 = Some 1 \<and> js_get (schedules p2) 1 = Some 1 \<and>
      s_events (schedObj w2 1) = s_events (schedObj generation_world 1) \<and>
      assignments w2 1 = assignments generation_world 1 \<and>
      fitness_of w2 1 = fitness_of generation_world 1" by blast
  from next_generation_total [OF example_pop_ok example_feasible] obtain p' w'
    where n: "next_generation example_population generation_world = Inr (p', w')" by blast
  from gen [OF n] have 2: "Some 1 \<in> set (schedules p') \<and>
      assignments w' 1 = assignments generation_world 1 \<and>
      fitness_of w' 1 = fitness_of generation_world 1 \<and>
      (\<exists>w''. fitness_get 1 w' = Inr (fitness_of generation_world 1, w''))" by blast
  from example_pop_ok i el c m 1 n 2 show ?thesis by blast
qed

text \<open>
  Claim C4, which says that the constructor of \<^verbatim>\<open>Data\<close> refuses a room count below 1, an
  empty list of events and an end time not after the start time. The constructor checks
  none of them: with no room, with an empty list of names, and with the end time equal to
  the start time it returns a problem instance.
\<close>

theorem invalid_configurations_are_constructed:
  "(\<exists>D w. new_Data 0 [''Quiz''] 540 720 example_world = Inr (D, w) \<and> d_rooms D = []) \<and>
   (\<exists>D w. new_Data 2 [] 540 720 example_world = Inr (D, w) \<and> length (d_events D) = 8) \<and>
   (\<exists>D w. new_Data 2 [''Quiz''] 540 540 example_world = Inr (D, w) \<and>
      availableTimeSlots_loop (EVENT_START_TIME w) (EVENT_END_TIME w) [] = [])"
proof (intro conjI)
  show "\<exists>D w. new_Data 0 [''Quiz''] 540 720 example_world = Inr (D, w) \<and> d_rooms D = []"
    by (simp add: new_Data_no_rooms)
  from new_Data_accepts [of 540 720 2 "[]" example_world]
  show "\<exists>D w. new_Data 2 [] 540 720 example_world = Inr (D, w) \<and> length (d_events D) = 8"
    by (auto simp: data_events_default)
  from new_Data_accepts [of 540 540 2 "[''Quiz'']" example_world] obtain D w
    where d: "new_Data 2 [''Quiz''] 540 540 example_world = Inr (D, w)" by auto
  from new_Data_first_room [OF d, of 0]
  have "EVENT_START_TIME w = 540" "EVENT_END_TIME w = 540" by simp_all
  then have "availableTimeSlots_loop (EVENT_START_TIME w) (EVENT_END_TIME w) [] = []"
    by (simp add: availableTimeSlots_loop.simps)
  with d show "\<exists>D w. new_Data 2 [''Quiz''] 540 540 example_world = Inr (D, w) \<and>
      availableTimeSlots_loop (EVENT_START_TIME w) (EVENT_END_TIME w) [] = []" by blast
qed

text \<open>
  Claim C4, as the code has it. The constructor of \<^verbatim>\<open>Data\<close> returns a problem instance
  whenever the end time is not before the start time, whatever the room count and the
  list of names; an empty list of names stands for the eight default names. Its only
  error is the \<^verbatim>\<open>RangeError\<close> of an array of negative length, when there is a room and
  the end time is before the start time. A room count below 1 shows only when the first
  population is built, as the error of \<^verbatim>\<open>getAvailableRoom\<close>; an end time equal to the
  start time shows there as a \<^verbatim>\<open>TypeError\<close>. With at least one room and an end time a
  positive number of hours after the start time the whole run returns without an error.
\<close>

theorem configuration_errors:
  "(st \<le> en \<longrightarrow>
      (\<exists>D w'. new_Data n names st en w = Inr (D, w') \<and> d_events D = data_events names \<and>
         length (d_rooms D) = nat n)) \<and>
   (names = [] \<longrightarrow> length (data_events names) = 8) \<and>
   (0 < n \<and> en < st \<longrightarrow> new_Data n names st en w = Inl RangeError) \<and>
   (n \<le> 0 \<longrightarrow>
      (\<exists>D w'. new_Data n names st en w = Inr (D, w') \<and> d_rooms D = []) \<and>
      best_schedule n names st en w = Inl NoAvailableRooms) \<and>
   (1 \<le> n \<and> en = st \<longrightarrow> best_schedule n names st en w = Inl TypeError) \<and>
   (1 \<le> n \<and> en = st + 60 * int k \<and> 0 < k \<longrightarrow>
      (\<exists>D w'. new_Data n names st en w = Inr (D, w')) \<and>
      (\<exists>r. best_schedule n names st en w = Inr r))"
proof (intro conjI impI)
  assume "st \<le> en"
  then show "\<exists>D w'. new_Data n names st en w = Inr (D, w') \<and> d_events D = data_events names \<and>
         length (d_rooms D) = nat n" by (rule new_Data_accepts)
next
  assume "names = []"
  then show "length (data_events names) = 8" by (simp add: data_events_default)
next
  assume "0 < n \<and> en < st"
  then show "new_Data n names st en w = Inl RangeError" by (simp add: new_Data_RangeError)
next
  assume n: "n \<le> 0"
  then show "\<exists>D w'. new_Data n names st en w = Inr (D, w') \<and> d_rooms D = []"
    by (simp add: new_Data_no_rooms)
  from n show "best_schedule n names st en w = Inl NoAvailableRooms"
    by (rule best_schedule_no_rooms)
next
  assume "1 \<le> n \<and> en = st"
  then show "best_schedule n names st en w = Inl TypeError" by (simp add: best_schedule_no_slots)
next
  assume a: "1 \<le> n \<and> en = st + 60 * int k \<and> 0 < k"
  then have "st \<le> en" by simp
  from new_Data_accepts [OF this] show "\<exists>D w'. new_Data n names st en w = Inr (D, w')" by blast
  from a show "\<exists>r. best_schedule n names st en w = Inr r" using best_schedule_total by blast
qed

theorem configuration_errors_witness:
  "(540::int) \<le> 540 \<and> (\<exists>D w'. new_Data 2 [] 540 540 example_world = Inr (D, w') \<and>
      length (d_events D) = 8 \<and> length (d_rooms D) = 2) \<and>
   ((0::int) < 2 \<and> (480::int) < 540) \<and> new_Data 2 [''Quiz''] 540 480 example_world = Inl RangeError \<and>
   (0::int) \<le> 0 \<and> (\<exists>D w'. new_Data 0 [''Quiz''] 540 720 example_world = Inr (D, w') \<and> d_rooms D = []) \<and>
   best_schedule 0 [''Quiz''] 540 720 example_world = Inl NoAvailableRooms \<and>
   (1::int) \<le> 2 \<and> best_schedule 2 [''Quiz''] 540 540 example_world = Inl TypeError \<and>
   (720::int) = 540 + 60 * int 3 \<and> (0::nat) < 3 \<and>
   (\<exists>r. best_schedule 2 [''Quiz''] 540 720 example_world = Inr r)"
proof -
  note a = configuration_errors [of 540 540 2 "[]" example_world 0]
  note b = configuration_errors [of 540 480 2 "[''Quiz'']" example_world 0]
  note c = configuration_errors [of 540 720 0 "[''Quiz'']" example_world 0]
  note d = configuration_errors [of 540 540 2 "[''Quiz'']" example_world 0]
  note e = configuration_errors [of 540 720 2 "[''Quiz'']" example_world 3]
  from a have 1: "\<exists>D w'. new_Data 2 [] 540 540 example_world = Inr (D, w') \<and>
      length (d_events D) = 8 \<and> length (d_rooms D) = 2" by auto
  from b have 2: "new_Data 2 [''Quiz''] 540 480 example_world = Inl RangeError" by simp
  from c have 3: "\<exists>D w'. new_Data 0 [''Quiz''] 540 720 example_world = Inr (D, w') \<and> d_rooms D = []"
    "best_schedule 0 [''Quiz''] 540 720 example_world = Inl NoAvailableRooms" by simp_all
  from d have 4: "best_schedule 2 [''Quiz''] 540 540 example_world = Inl TypeError" by simp
  from e have 5: "\<exists>r. best_schedule 2 [''Quiz''] 540 720 example_world = Inr r" by simp
  from 1 2 3 4 5 show ?thesis by simp
qed

text \<open>
  Claim C5, which says that schedules never share Event instances, so that a write to an
  Event of one schedule never changes another schedule. Crossover stores the Events of
  the parents in the child. In the example two parents hold the Events 0, 1 and 2, 3, each
  without a conflict. With a random source that always gives 0 the child holds the Events
  2 and 3 of the second parent. Setting the time slot of the child's second Event to the
  first hour changes the assignments of that parent and brings its fitness from 1 to one
  half.
\<close>

theorem crossover_child_shares_events:
  "s_events (schedObj sharing_world 0) = [Some 0, Some 1] \<and>
   s_events (schedObj sharing_world 1) = [Some 2, Some 3] \<and>
   (\<exists>w'. crossoverSchedule (Some 0) (Some 1) sharing_world = Inr (2, w') \<and>
      s_events (schedObj w' 2) = [Some 2, Some 3] \<and>
      s_events (schedObj w' 1) = [Some 2, Some 3] \<and>
      assignments w' 1 = [Some (Some 0, Some 540), Some (Some 0, Some 600)] \<and>
      fitness_of w' 1 = 1 \<and>
      assignments (set_timeSlot 3 (Some 540) w') 1 =
        [Some (Some 0, Some 540), Some (Some 0, Some 540)] \<and>
      fitness_of (set_timeSlot 3 (Some 540) w') 1 = 1 / 2)"
proof -
  from sharing_crossover obtain w' where
    c: "crossoverSchedule (Some 0) (Some 1) sharing_world = Inr (2, w')"
    and ev: "s_events (schedObj w' 2) = [Some 2, Some 3]" "s_events (schedObj w' 1) = [Some 2, Some 3]"
    and as: "assignments w' 1 = [Some (Some 0, Some 540), Some (Some 0, Some 600)]"
      "assignments (set_timeSlot 3 (Some 540) w') 1 =
         [Some (Some 0, Some 540), Some (Some 0, Some 540)]"
    and a1: "list_all (assigned w') (s_events (schedObj w' 1))"
    and f1: "\<exists>w1. calculateFitness 1 w' = Inr (1, w1)"
    and a2: "list_all (assigned (set_timeSlot 3 (Some 540) w'))
       (s_events (schedObj (set_timeSlot 3 (Some 540) w') 1))"
    and f2: "\<exists>w1. calculateFitness 1 (set_timeSlot 3 (Some 540) w') = Inr (1 / 2, w1)"
    by blast
  from f1 calculateFitness_assigned [OF a1] have "fitness_of w' 1 = 1" by auto
  moreover from f2 calculateFitness_assigned [OF a2]
  have "fitness_of (set_timeSlot 3 (Some 540) w') 1 = 1 / 2" by auto
  ultimately show ?thesis using sharing_before(1,2) c ev as by blast
qed

text \<open>
  Claim C5, as the code has it. Schedules share Event instances. Crossover of two
  well-formed parents writes no Event that existed before and no array of a schedule that
  existed before, and each position of the child holds an Event that one of the parents
  holds at the same position: a later write to the room or the time slot of that Event is
  a write to the assignment of the child and of that parent alike. Mutation of a schedule
  writes no Event that existed before and no array of another schedule.
\<close>

theorem crossover_shares_parent_events:
  assumes "sched_ok D w p1" "sched_ok D w p2"
  shows "(\<forall>c w'. crossoverSchedule (Some p1) (Some p2) w = Inr (c, w') \<longrightarrow>
       (\<forall>e<eventNext w. eventObj w' e = eventObj w e) \<and>
       (\<forall>b<schedNext w. s_events (schedObj w' b) = s_events (schedObj w b)) \<and>
       (\<forall>i<length (s_events (schedObj w' c)).
          \<exists>e p. (p = p1 \<or> p = p2) \<and> e < eventNext w \<and>
            s_events (schedObj w' c) ! i = Some e \<and> s_events (schedObj w' p) ! i = Some e \<and>
            (\<forall>r. assignments (set_room e r w') c ! i = Some (r, e_time_slot (eventObj w' e)) \<and>
                 assignments (set_room e r w') p ! i = Some (r, e_time_slot (eventObj w' e))) \<and>
            (\<forall>t. assignments (set_timeSlot e t w') c ! i = Some (e_room (eventObj w' e), t) \<and>
                 assignments (set_timeSlot e t w') p ! i = Some (e_room (eventObj w' e), t)))) \<and>
    (\<forall>r w'. mutateSchedule (Some p1) w = Inr (r, w') \<longrightarrow>
       (\<forall>e<eventNext w. eventObj w' e = eventObj w e) \<and>
       (\<forall>b<schedNext w. b \<noteq> p1 \<longrightarrow> s_events (schedObj w' b) = s_events (schedObj w b)))"
proof (intro conjI allI impI)
  note o1 = sched_okD [OF assms(1)] and o2 = sched_okD [OF assms(2)]
  {
    fix c w' assume c: "crossoverSchedule (Some p1) (Some p2) w = Inr (c, w')"
    have "\<exists>q. Some p1 = Some q \<and> c = schedNext w \<and> schedNext w' = Suc c \<and> touches {} w w' \<and>
      s_data (schedObj w' c) = s_data (schedObj w q) \<and> isFitnessChanged (schedObj w' c) \<and>
      length (s_events (schedObj w' c)) = length (d_events (s_data (schedObj w q))) \<and>
      (\<forall>i<length (s_events (schedObj w' c)).
          from_parent w (Some p1) (Some p2) i (s_events (schedObj w' c) ! i))"
      using o1(1) o2(1) by (intro crossoverSchedule_Inr [OF c]) auto
    then have t: "touches {} w w'" by blast
    from t show "eventObj w' e = eventObj w e" if "e < eventNext w" for e
      using that by (simp add: touches_def)
    show "s_events (schedObj w' b) = s_events (schedObj w b)" if "b < schedNext w" for b
      by (rule touches_old_events [OF t that]) simp
    fix i assume i: "i < length (s_events (schedObj w' c))"
    from crossover_shared_entry [OF assms c i] obtain e p where
      p: "p = p1 \<or> p = p2" and e: "e < eventNext w" and ip: "i < length (s_events (schedObj w' p))"
      and ce: "s_events (schedObj w' c) ! i = Some e" and pe: "s_events (schedObj w' p) ! i = Some e"
      by blast
    from p e ce pe setter_seen [OF i ce] setter_seen [OF ip pe]
    show "\<exists>e p. (p = p1 \<or> p = p2) \<and> e < eventNext w \<and>
            s_events (schedObj w' c) ! i = Some e \<and> s_events (schedObj w' p) ! i = Some e \<and>
            (\<forall>r. assignments (set_room e r w') c ! i = Some (r, e_time_slot (eventObj w' e)) \<and>
                 assignments (set_room e r w') p ! i = Some (r, e_time_slot (eventObj w' e))) \<and>
            (\<forall>t. assignments (set_timeSlot e t w') c ! i = Some (e_room (eventObj w' e), t) \<and>
                 assignments (set_timeSlot e t w') p ! i = Some (e_room (eventObj w' e), t))"
      by blast
  }
  {
    fix r w' assume m: "mutateSchedule (Some p1) w = Inr (r, w')"
    have "\<exists>m. Some p1 = Some m \<and> r = m \<and> schedNext w' = Suc (schedNext w) \<and> touches {m} w w' \<and>
      fresh_schedule (s_data (schedObj w m)) (schedNext w) w w' \<and>
      s_data (schedObj w' m) = s_data (schedObj w m) \<and> isFitnessChanged (schedObj w' m) \<and>
      length (s_events (schedObj w' m)) = length (s_events (schedObj w m)) \<and>
      (\<forall>i<length (s_events (schedObj w m)).
          s_events (schedObj w' m) ! i = s_events (schedObj w m) ! i \<or>
          s_events (schedObj w' m) ! i = js_get (s_events (schedObj w' (schedNext w))) i)"
      using o1(1) by (intro mutateSchedule_Inr [OF m]) auto
    then have t: "touches {p1} w w'" by blast
    from t show "eventObj w' e = eventObj w e" if "e < eventNext w" for e
      using that by (simp add: touches_def)
    show "s_events (schedObj w' b) = s_events (schedObj w b)" if "b < schedNext w" "b \<noteq> p1" for b
      by (rule touches_old_events [OF t that(1)]) (simp add: that(2))
  }
qed


theorem crossover_shares_parent_events_witness:
  "sched_ok example_data sharing_world 0 \<and> sched_ok example_data sharing_world 1 \<and>
   (\<exists>w'. crossoverSchedule (Some 0) (Some 1) sharing_world = Inr (2, w') \<and>
      s_events (schedObj w' 0) = s_events (schedObj sharing_world 0) \<and>
      s_events (schedObj w' 1) = s_events (schedObj sharing_world 1) \<and>
      eventObj w' 3 = eventObj sharing_world 3 \<and>
      s_events (schedObj w' 2) ! 1 = Some 3 \<and> s_events (schedObj w' 1) ! 1 = Some 3 \<and>
      assignments (set_timeSlot 3 (Some 540) w') 2 ! 1 = Some (Some 0, Some 540) \<and>
      assignments (set_timeSlot 3 (Some 540) w') 1 ! 1 = Some (Some 0, Some 540)) \<and>
   (\<exists>r w'. mutateSchedule (Some 0) sharing_world = Inr (r, w') \<and>
      eventObj w' 3 = eventObj sharing_world 3 \<and>
      s_events (schedObj w' 1) = s_events (schedObj sharing_world 1))"
proof -
  have ok: "sched_ok example_data sharing_world 0" "sched_ok example_data sharing_world 1"
    by (simp_all add: sharing_sched_ok)
  note th = crossover_shares_parent_events [OF ok]
  have n: "(3::nat) < eventNext sharing_world" "(0::nat) < schedNext sharing_world"
    "(1::nat) < schedNext sharing_world" by (simp_all add: sharing_world_def)
  from sharing_crossover obtain w' where
    c: "crossoverSchedule (Some 0) (Some 1) sharing_world = Inr (2, w')"
    and ev: "s_events (schedObj w' 2) = [Some 2, Some 3]" "s_events (schedObj w' 0) = [Some 0, Some 1]"
      "s_events (schedObj w' 1) = [Some 2, Some 3]"
    by blast
  note cr = th [THEN conjunct1, rule_format, OF c]
  note cr_events = cr [THEN conjunct1, rule_format]
  note cr_arrays = cr [THEN conjunct2, THEN conjunct1, rule_format]
  note cr_child = cr [THEN conjunct2, THEN conjunct2, rule_format]
  have old: "eventObj w' 3 = eventObj sharing_world 3"
    "s_events (schedObj w' 0) = s_events (schedObj sharing_world 0)"
    "s_events (schedObj w' 1) = s_events (schedObj sharing_world 1)"
    using cr_events [OF n(1)] cr_arrays [OF n(2)] cr_arrays [OF n(3)] by simp_all
  have "(1::nat) < length (s_events (schedObj w' 2))" by (simp add: ev)
  from cr_child [OF this] obtain e p where p: "p = 0 \<or> p = 1"
    and e: "s_events (schedObj w' 2) ! 1 = Some e" "s_events (schedObj w' p) ! 1 = Some e"
    and wr: "\<And>t. assignments (set_timeSlot e t w') 2 ! 1 = Some (e_room (eventObj w' e), t)"
      "\<And>t. assignments (set_timeSlot e t w') p ! 1 = Some (e_room (eventObj w' e), t)"
    by blast
  from e(1) have e3: "e = 3" by (simp add: ev)
  with e(2) p have p1: "p = 1" by (auto simp: ev)
  have room: "e_room (eventObj w' 3) = Some 0"
    by (simp add: old sharing_world_def sharing_events_def)
  from wr [of "Some 540"] have a:
    "assignments (set_timeSlot 3 (Some 540) w') 2 ! 1 = Some (Some 0, Some 540)"
    "assignments (set_timeSlot 3 (Some 540) w') 1 ! 1 = Some (Some 0, Some 540)"
    by (simp_all add: e3 p1 room)
  from mutateSchedule_total [of sharing_world 0] sharing_feasible obtain r w2 where
    m: "mutateSchedule (Some 0) sharing_world = Inr (r, w2)"
    by (auto simp: sharing_world_def)
  note mr = th [THEN conjunct2, rule_format, OF m]
  have mu: "eventObj w2 3 = eventObj sharing_world 3"
    "s_events (schedObj w2 1) = s_events (schedObj sharing_world 1)"
    using mr [THEN conjunct1, rule_format, OF n(1)] mr [THEN conjunct2, rule_format, OF n(3)]
    by simp_all
  from e e3 p1 have pos: "s_events (schedObj w' 2) ! 1 = Some 3" "s_events (schedObj w' 1) ! 1 = Some 3"
    by simp_all
  from ok c old pos a m mu show ?thesis by blast
qed

text \<open>
  Claim C6, which says that the best fitness of a generation can fall. It cannot: there is
  no problem instance, no random stream and no generation of a run after which the best
  fitness of the next generation is strictly below the best fitness of this one.
\<close>

theorem no_run_lowers_best_fitness:
  "\<not> (\<exists>n names st en w i.
        Suc i < length (run_trace n names st en w) \<and>
        best_fitness (snd (run_trace n names st en w ! Suc i))
            (fst (run_trace n names st en w ! Suc i))
          < best_fitness (snd (run_trace n names st en w ! i))
              (fst (run_trace n names st en w ! i)))"
proof
  assume "\<exists>n names st en w i.
        Suc i < length (run_trace n names st en w) \<and>
        best_fitness (snd (run_trace n names st en w ! Suc i))
            (fst (run_trace n names st en w ! Suc i))
          < best_fitness (snd (run_trace n names st en w ! i))
              (fst (run_trace n names st en w ! i))"
  then obtain n names st en w i where "Suc i < length (run_trace n names st en w)"
    and "best_fitness (snd (run_trace n names st en w ! Suc i))
            (fst (run_trace n names st en w ! Suc i))
          < best_fitness (snd (run_trace n names st en w ! i))
              (fst (run_trace n names st en w ! i))" by blast
  with run_trace_monotone [of i n names st en w] show False by simp
qed

text \<open>
  Claim C6, as the code has it. The two schedules at the head of a sorted generation are
  carried into the next one, so the best fitness never decreases: one step of the search
  loop (\<^verbatim>\<open>evolve\<close>, then the sort) on a well-formed population sorted best first gives a
  population whose best fitness is at least the one before, and along the generations of
  every run the best fitness is non-decreasing.
\<close>

theorem best_fitness_never_decreases:
  "sorted_wrt (\<lambda>g h. best_fitness (snd g) (fst g) \<le> best_fitness (snd h) (fst h))
     (run_trace n names st en w) \<and>
   (pop_ok D w0 pop \<and> best_first w0 pop \<longrightarrow>
      (\<forall>p' w'. next_generation pop w0 = Inr (p', w') \<longrightarrow>
         best_fitness w0 pop \<le> best_fitness w' p'))"
proof
  let ?P = "\<lambda>g h :: PopulationEvents \<times> world. best_fitness (snd g) (fst g) \<le> best_fitness (snd h) (fst h)"
  have "transp ?P" by (auto intro!: transpI)
  then show "sorted_wrt ?P (run_trace n names st en w)"
    by (simp add: sorted_wrt_iff_nth_Suc_transp run_trace_monotone)
  show "pop_ok D w0 pop \<and> best_first w0 pop \<longrightarrow>
      (\<forall>p' w'. next_generation pop w0 = Inr (p', w') \<longrightarrow>
         best_fitness w0 pop \<le> best_fitness w' p')"
    using next_generation_monotone by blast
qed

theorem best_fitness_never_decreases_witness:
  "\<exists>ys w1 p' w'.
     sort_by_fitness (schedules example_population) generation_world = Inr (ys, w1) \<and>
     pop_ok example_data w1 (example_population\<lparr>schedules := ys\<rparr>) \<and>
     best_first w1 (example_population\<lparr>schedules := ys\<rparr>) \<and>
     next_generation (example_population\<lparr>schedules := ys\<rparr>) w1 = Inr (p', w') \<and>
     best_fitness w1 (example_population\<lparr>schedules := ys\<rparr>) \<le> best_fitness w' p'"
proof -
  from example_pop_ok have "members_ok example_data generation_world (schedules example_population)"
    by (simp add: pop_ok_def)
  from sort_by_fitness_total [OF this] obtain ys w1
    where s: "sort_by_fitness (schedules example_population) generation_world = Inr (ys, w1)"
    by blast
  let ?p = "example_population\<lparr>schedules := ys\<rparr>"
  from sort_by_fitness_best_first [OF s example_pop_ok]
  have ok: "pop_ok example_data w1 ?p" and bf: "best_first w1 ?p"
    and q: "quiet generation_world w1" by simp_all
  from next_generation_total [OF ok feasible_quiet [OF example_feasible q]] obtain p' w'
    where n: "next_generation ?p w1 = Inr (p', w')" by blast
  from best_fitness_never_decreases [of _ _ _ _ _ example_data w1 ?p] ok bf n
  have "best_fitness w1 ?p \<le> best_fitness w' p'" by blast
  with s ok bf n show ?thesis by blast
qed

text \<open>
  Claim C7, which says that a fitness read after any write to the room or the time slot of
  an Event returns the recomputed fitness. The setters of an Event know nothing of the
  schedules that hold it. In the example schedule the two events share room and slot, and
  the cached fitness one half is right: a read and a recomputation agree. After the time
  slot of the second event is set to the next hour through the setter, a recomputation
  gives 1, and the read still returns one half and changes nothing.
\<close>

theorem stale_fitness_after_setter:
  "\<not> isFitnessChanged (schedObj cached_world 0) \<and>
   fitness_get 0 cached_world = Inr (1 / 2, cached_world) \<and>
   (\<exists>w'. calculateFitness 0 cached_world = Inr (1 / 2, w')) \<and>
   fitness_get 0 (write_assignments [SetTimeSlot 1 (Some 600)] cached_world) =
     Inr (1 / 2, write_assignments [SetTimeSlot 1 (Some 600)] cached_world) \<and>
   (\<exists>w'. calculateFitness 0 (write_assignments [SetTimeSlot 1 (Some 600)] cached_world) =
      Inr (1, w'))"
  using cached_before cached_after_setter
  by (simp add: write_assignments_def) (simp add: cached_world_def)

text \<open>
  Claim C7, as the code has it. The cached fitness of a schedule is marked as changed by
  the getter \<^verbatim>\<open>events\<close> of that schedule and by nothing else. After a sequence of
  writes, the fitness of schedule \<open>a\<close> is marked as changed exactly if it was before or
  one of the writes assigned to a position of the array of \<open>a\<close> read through the getter;
  then a fitness read returns the fitness recomputed from the current assignments (all
  events being assigned). Otherwise, and so after writes through the setters of Events
  alone, the read returns the value cached before the writes.
\<close>

theorem fitness_cache_follows_getter:
  "(isFitnessChanged (schedObj (write_assignments ws w) a) \<longleftrightarrow>
      isFitnessChanged (schedObj w a) \<or> list_ex (through_getter a) ws) \<and>
   (isFitnessChanged (schedObj (write_assignments ws w) a) \<and>
    list_all (assigned (write_assignments ws w)) (s_events (schedObj (write_assignments ws w) a)) \<longrightarrow>
      (\<exists>w'. fitness_get a (write_assignments ws w) =
         Inr (fitness_of (write_assignments ws w) a, w')) \<and>
      (\<exists>w'. calculateFitness a (write_assignments ws w) =
         Inr (fitness_of (write_assignments ws w) a, w'))) \<and>
   (\<not> isFitnessChanged (schedObj (write_assignments ws w) a) \<longrightarrow>
      fitness_get a (write_assignments ws w) =
        Inr (s_fitness (schedObj w a), write_assignments ws w))"
proof (intro conjI impI)
  show "isFitnessChanged (schedObj (write_assignments ws w) a) \<longleftrightarrow>
      isFitnessChanged (schedObj w a) \<or> list_ex (through_getter a) ws"
    by (rule write_assignments_cache)
next
  assume a: "isFitnessChanged (schedObj (write_assignments ws w) a) \<and>
    list_all (assigned (write_assignments ws w)) (s_events (schedObj (write_assignments ws w) a))"
  then show "\<exists>w'. fitness_get a (write_assignments ws w) =
         Inr (fitness_of (write_assignments ws w) a, w')"
    by (simp add: fitness_get_changed)
  from a show "\<exists>w'. calculateFitness a (write_assignments ws w) =
         Inr (fitness_of (write_assignments ws w) a, w')"
    by (simp add: calculateFitness_assigned)
next
  assume "\<not> isFitnessChanged (schedObj (write_assignments ws w) a)"
  then show "fitness_get a (write_assignments ws w) =
        Inr (s_fitness (schedObj w a), write_assignments ws w)"
    by (simp add: fitness_get_def write_assignments_cache)
qed

theorem fitness_cache_follows_getter_witness:
  "isFitnessChanged
     (schedObj (write_assignments [SetTimeSlot 1 (Some 600), SetEvent 0 1 (Some 1)] cached_world) 0) \<and>
   list_all (assigned (write_assignments [SetTimeSlot 1 (Some 600), SetEvent 0 1 (Some 1)] cached_world))
     (s_events (schedObj
        (write_assignments [SetTimeSlot 1 (Some 600), SetEvent 0 1 (Some 1)] cached_world) 0)) \<and>
   (\<exists>w'. fitness_get 0
        (write_assignments [SetTimeSlot 1 (Some 600), SetEvent 0 1 (Some 1)] cached_world) =
      Inr (1, w')) \<and>
   fitness_of (write_assignments [SetTimeSlot 1 (Some 600), SetEvent 0 1 (Some 1)] cached_world) 0 = 1 \<and>
   \<not> isFitnessChanged (schedObj (write_assignments [SetTimeSlot 1 (Some 600)] cached_world) 0) \<and>
   fitness_get 0 (write_assignments [SetTimeSlot 1 (Some 600)] cached_world) =
     Inr (1 / 2, write_assignments [SetTimeSlot 1 (Some 600)] cached_world)"
proof -
  let ?w2 = "write_assignments [SetTimeSlot 1 (Some 600), SetEvent 0 1 (Some 1)] cached_world"
  let ?w1 = "write_assignments [SetTimeSlot 1 (Some 600)] cached_world"
  note t2 = fitness_cache_follows_getter [of "[SetTimeSlot 1 (Some 600), SetEvent 0 1 (Some 1)]"
      cached_world 0]
  note t1 = fitness_cache_follows_getter [of "[SetTimeSlot 1 (Some 600)]" cached_world 0]
  from t2 have f2: "isFitnessChanged (schedObj ?w2 0)" by simp
  have a2: "list_all (assigned ?w2) (s_events (schedObj ?w2 0))"
    by (simp add: write_assignments_def assigned_def set_timeSlot_def event_update_def
        events_get_def sched_update_def js_set_def cached_world_def example_events_def)
  have e2: "\<exists>w'. fitness_get 0 ?w2 = Inr (1, w')"
    by (simp add: write_assignments_def fitness_get_def calculateFitness_def events_get_def
        cached_world_def sched_update_def event_conflicts_def pair_conflict_def js_get_def
        js_set_def isAvailable_def example_events_def example_rooms_def upt_2 set_timeSlot_def
        event_update_def)
  from t2 f2 a2 e2 have v2: "fitness_of ?w2 0 = 1" by auto
  from t1 have f1: "\<not> isFitnessChanged (schedObj ?w1 0)" by (simp add: cached_world_def)
  with t1 have e1: "fitness_get 0 ?w1 = Inr (1 / 2, ?w1)" by (simp add: cached_world_def)
  from f2 a2 e2 v2 f1 e1 show ?thesis by blast
qed

text \<open>
  Claim C8. Whenever \<^verbatim>\<open>evolve\<close> returns, the array of the population it returns has
  exactly \<open>POPULATION_SIZE\<close> entries, whatever the population it was given. Given a
  population of \<open>POPULATION_SIZE\<close> well-formed schedules, the population it returns is
  again one: each of its \<open>POPULATION_SIZE\<close> entries is a well-formed schedule of the
  same data, and none is \<^verbatim>\<open>undefined\<close>. For such a population of a feasible problem
  instance \<^verbatim>\<open>evolve\<close> does return.
\<close>

theorem evolve_keeps_population_size:
  "(\<forall>p' w'. evolve pop w = Inr (p', w') \<longrightarrow> length (schedules p') = POPULATION_SIZE) \<and>
   (pop_ok D w pop \<longrightarrow>
      (\<forall>p' w'. evolve pop w = Inr (p', w') \<longrightarrow>
         length (schedules p') = POPULATION_SIZE \<and> pop_ok D w' p' \<and>
         (\<forall>i<POPULATION_SIZE. \<exists>a. schedules p' ! i = Some a \<and> sched_ok D w' a) \<and>
         None \<notin> set (schedules p'))) \<and>
   (pop_ok D w pop \<and> feasible D w \<longrightarrow>
      (\<exists>p' w'. evolve pop w = Inr (p', w') \<and> length (schedules p') = POPULATION_SIZE \<and>
         pop_ok D w' p' \<and> None \<notin> set (schedules p')))"
proof -
  have len: "length (schedules p') = POPULATION_SIZE" if "evolve pop w = Inr (p', w')" for p' w'
    using that by (rule evolve_length)
  have ok: "length (schedules p') = POPULATION_SIZE \<and> pop_ok D w' p' \<and>
         (\<forall>i<POPULATION_SIZE. \<exists>a. schedules p' ! i = Some a \<and> sched_ok D w' a) \<and>
         None \<notin> set (schedules p')"
    if p: "pop_ok D w pop" and e: "evolve pop w = Inr (p', w')" for p' w'
  proof -
    note o = evolve_ok [OF e p]
    from len [OF e] o pop_ok_entries [OF o] show ?thesis by simp
  qed
  have tot: "\<exists>p' w'. evolve pop w = Inr (p', w') \<and> length (schedules p') = POPULATION_SIZE \<and>
         pop_ok D w' p' \<and> None \<notin> set (schedules p')"
    if pf: "pop_ok D w pop \<and> feasible D w"
  proof -
    from pf obtain p' w' where e: "evolve pop w = Inr (p', w')" using evolve_total by blast
    from ok [OF _ e] pf e show ?thesis by blast
  qed
  from len ok tot show ?thesis by blast
qed

theorem evolve_keeps_population_size_witness:
  "length (schedules example_population) = POPULATION_SIZE \<and>
   pop_ok example_data generation_world example_population \<and>
   feasible example_data generation_world \<and> (19::nat) < POPULATION_SIZE \<and>
   (\<exists>p' w'. evolve example_population generation_world = Inr (p', w') \<and>
      length (schedules p') = POPULATION_SIZE \<and> pop_ok example_data w' p' \<and>
      None \<notin> set (schedules p') \<and>
      (\<exists>a. schedules p' ! 19 = Some a \<and> sched_ok example_data w' a))"
proof -
  note th = evolve_keeps_population_size [of example_population generation_world example_data]
  have l: "length (schedules example_population) = POPULATION_SIZE"
    by (simp add: example_population_def POPULATION_SIZE_def)
  have i: "(19::nat) < POPULATION_SIZE" by (simp add: POPULATION_SIZE_def)
  from th example_pop_ok example_feasible obtain p' w'
    where e: "evolve example_population generation_world = Inr (p', w')" by blast
  note r = th [THEN conjunct2, THEN conjunct1, rule_format, OF example_pop_ok e]
  from r have "length (schedules p') = POPULATION_SIZE" "pop_ok example_data w' p'"
    "None \<notin> set (schedules p')" by simp_all
  moreover from r i have "\<exists>a. schedules p' ! 19 = Some a \<and> sched_ok example_data w' a"
    by blast
  ultimately show ?thesis using l example_pop_ok example_feasible i e by blast
qed

text \<open>
  Claim C9. Crossover of two allocated parents leaves the parents' arrays as they were, and
  every position of the child's array holds what parent 1 or parent 2 holds at that
  position. When both parents are well-formed schedules of the same problem instance, and
  so of equal length, the child has their length, and each of its positions holds the very
  Event of one parent at that position, with that parent's room and time slot: an Event
  that existed before the crossover, hence none of the Events that the child's own
  \<^verbatim>\<open>initialize\<close> created. On a feasible instance the crossover returns.
\<close>

theorem crossover_positions_from_parents:
  assumes "p1 < schedNext w" "p2 < schedNext w"
  shows "(feasible (s_data (schedObj w p1)) w \<longrightarrow>
      (\<exists>c w'. crossoverSchedule (Some p1) (Some p2) w = Inr (c, w'))) \<and>
    (\<forall>c w'. crossoverSchedule (Some p1) (Some p2) w = Inr (c, w') \<longrightarrow>
       c = schedNext w \<and>
       s_events (schedObj w' p1) = s_events (schedObj w p1) \<and>
       s_events (schedObj w' p2) = s_events (schedObj w p2) \<and>
       (\<forall>i<length (s_events (schedObj w' c)).
          s_events (schedObj w' c) ! i = js_get (s_events (schedObj w p1)) i \<or>
          s_events (schedObj w' c) ! i = js_get (s_events (schedObj w p2)) i) \<and>
       (sched_ok D w p1 \<and> sched_ok D w p2 \<longrightarrow>
          length (s_events (schedObj w' c)) = length (s_events (schedObj w p1)) \<and>
          length (s_events (schedObj w' c)) = length (s_events (schedObj w p2)) \<and>
          assignments w' p1 = assignments w p1 \<and> assignments w' p2 = assignments w p2 \<and>
          (\<forall>i<length (s_events (schedObj w' c)).
             (s_events (schedObj w' c) ! i = s_events (schedObj w p1) ! i \<and>
              assignments w' c ! i = assignments w p1 ! i \<or>
              s_events (schedObj w' c) ! i = s_events (schedObj w p2) ! i \<and>
              assignments w' c ! i = assignments w p2 ! i) \<and>
             (\<exists>e. s_events (schedObj w' c) ! i = Some e \<and> e < eventNext w))))"
proof (intro conjI allI impI)
  assume "feasible (s_data (schedObj w p1)) w"
  then show "\<exists>c w'. crossoverSchedule (Some p1) (Some p2) w = Inr (c, w')"
    by (rule crossoverSchedule_total)
next
  fix c w' assume c: "crossoverSchedule (Some p1) (Some p2) w = Inr (c, w')"
  have "\<exists>q. Some p1 = Some q \<and> c = schedNext w \<and> schedNext w' = Suc c \<and> touches {} w w' \<and>
    s_data (schedObj w' c) = s_data (schedObj w q) \<and> isFitnessChanged (schedObj w' c) \<and>
    length (s_events (schedObj w' c)) = length (d_events (s_data (schedObj w q))) \<and>
    (\<forall>i<length (s_events (schedObj w' c)).
        from_parent w (Some p1) (Some p2) i (s_events (schedObj w' c) ! i))"
    using assms by (intro crossoverSchedule_Inr [OF c]) auto
  then have cs: "c = schedNext w" and t: "touches {} w w'"
    and len: "length (s_events (schedObj w' c)) = length (d_events (s_data (schedObj w p1)))"
    and fp: "\<And>i. i < length (s_events (schedObj w' c)) \<Longrightarrow>
        from_parent w (Some p1) (Some p2) i (s_events (schedObj w' c) ! i)"
    by auto
  show "c = schedNext w" by (rule cs)
  show e1: "s_events (schedObj w' p1) = s_events (schedObj w p1)"
    by (rule touches_old_events [OF t assms(1)]) simp
  show e2: "s_events (schedObj w' p2) = s_events (schedObj w p2)"
    by (rule touches_old_events [OF t assms(2)]) simp
  have pos: "s_events (schedObj w' c) ! i = js_get (s_events (schedObj w p1)) i \<or>
          s_events (schedObj w' c) ! i = js_get (s_events (schedObj w p2)) i"
    if "i < length (s_events (schedObj w' c))" for i
    using fp [OF that] by (auto simp: from_parent_def)
  then show "s_events (schedObj w' c) ! i = js_get (s_events (schedObj w p1)) i \<or>
          s_events (schedObj w' c) ! i = js_get (s_events (schedObj w p2)) i"
    if "i < length (s_events (schedObj w' c))" for i using that by simp
  note st = touches_same_store [OF t]
  have fr: "frame {} w w'" using t by (rule touches_frame)
  {
    assume oks: "sched_ok D w p1 \<and> sched_ok D w p2"
    then have ok1: "sched_ok D w p1" and ok2: "sched_ok D w p2" by simp_all
    note o1 = sched_okD [OF ok1] and o2 = sched_okD [OF ok2]
    from len o1 show l1: "length (s_events (schedObj w' c)) = length (s_events (schedObj w p1))"
      by simp
    from len o1 o2 show "length (s_events (schedObj w' c)) = length (s_events (schedObj w p2))"
      by simp
    from len o1 have lD: "length (s_events (schedObj w' c)) = length (d_events D)" by simp
    show "assignments w' p1 = assignments w p1"
      using assignments_frame(2) [OF fr _ ok1] by simp
    show "assignments w' p2 = assignments w p2"
      using assignments_frame(2) [OF fr _ ok2] by simp
    fix i assume i: "i < length (s_events (schedObj w' c))"
    then have iD: "i < length (d_events D)" using lD by simp
    from pos [OF i] show "s_events (schedObj w' c) ! i = s_events (schedObj w p1) ! i \<and>
              assignments w' c ! i = assignments w p1 ! i \<or>
              s_events (schedObj w' c) ! i = s_events (schedObj w p2) ! i \<and>
              assignments w' c ! i = assignments w p2 ! i"
      using crossover_entry(1,2) [OF ok1 iD st _ lD] crossover_entry(1,2) [OF ok2 iD st _ lD]
      by blast
    from pos [OF i] show "\<exists>e. s_events (schedObj w' c) ! i = Some e \<and> e < eventNext w"
      using crossover_entry(3) [OF ok1 iD st _ lD] crossover_entry(3) [OF ok2 iD st _ lD]
      by blast
  }
qed

theorem crossover_positions_from_parents_witness:
  "(0::nat) < schedNext generation_world \<and> (1::nat) < schedNext generation_world \<and>
   feasible (s_data (schedObj generation_world 0)) generation_world \<and>
   sched_ok example_data generation_world 0 \<and> sched_ok example_data generation_world 1 \<and>
   (\<exists>c w'. crossoverSchedule (Some 0) (Some 1) generation_world = Inr (c, w') \<and> c = 20 \<and>
      s_events (schedObj w' c) = [Some 0, Some 1] \<and>
      assignments w' c = [Some (Some 0, Some 540), Some (Some 0, Some 540)])"
proof -
  let ?w = generation_world
  have a: "(0::nat) < schedNext ?w" "(1::nat) < schedNext ?w" by (simp_all add: generation_world_def)
  have f: "feasible (s_data (schedObj ?w 0)) ?w" using example_feasible by (simp add: example_s_data)
  have ok: "sched_ok example_data ?w 0" "sched_ok example_data ?w 1"
    by (simp_all add: example_sched_ok)
  have ev: "s_events (schedObj ?w a) = [Some 0, Some 1]" for a
    by (simp add: generation_world_def example_schedule_def)
  note th = crossover_positions_from_parents [OF a, of example_data]
  from th f obtain c w' where c: "crossoverSchedule (Some 0) (Some 1) ?w = Inr (c, w')" by blast
  from th c ok have cs: "c = schedNext ?w"
    and len: "length (s_events (schedObj w' c)) = length (s_events (schedObj ?w 0))"
    and pos: "\<forall>i<length (s_events (schedObj w' c)).
             (s_events (schedObj w' c) ! i = s_events (schedObj ?w 0) ! i \<and>
              assignments w' c ! i = assignments ?w 0 ! i \<or>
              s_events (schedObj w' c) ! i = s_events (schedObj ?w 1) ! i \<and>
              assignments w' c ! i = assignments ?w 1 ! i) \<and>
             (\<exists>e. s_events (schedObj w' c) ! i = Some e \<and> e < eventNext ?w)"
    by blast+
  from len have l2: "length (s_events (schedObj w' c)) = 2" by (simp add: ev)
  from pos have p: "s_events (schedObj w' c) ! i = [Some 0, Some 1] ! i \<and>
      assignments w' c ! i = [Some (Some 0, Some 540), Some (Some 0, Some 540)] ! i"
    if "i < 2" for i
    using that l2 by (auto simp: ev example_assignments)
  have "s_events (schedObj w' c) = [Some 0, Some 1]"
    using l2 p by (intro nth_equalityI) auto
  moreover have "assignments w' c = [Some (Some 0, Some 540), Some (Some 0, Some 540)]"
  proof (intro nth_equalityI)
    show "length (assignments w' c) = length [Some (Some (0::nat), Some (540::int)), Some (Some 0, Some 540)]"
      using l2 by (simp add: assignments_def)
    fix i assume "i < length (assignments w' c)"
    then have "i < 2" using l2 by (simp add: assignments_def)
    from p [OF this] show "assignments w' c ! i =
      [Some (Some 0, Some 540), Some (Some 0, Some 540)] ! i" by simp
  qed
  moreover from cs have "c = 20" by (simp add: generation_world_def)
  ultimately show ?thesis using a f ok c by blast
qed

text \<open>
  Claim C10. Let \<^verbatim>\<open>Data\<close> be built with at least one room and an end time \<open>k > 0\<close>
  hours after the start time. Its first room is named Room 1 and its availability
  schedule consists of \<open>k\<close> entries \<^verbatim>\<open>true\<close>. In every later state \<open>w'\<close> of the store
  (same times and rooms, older objects kept), \<^verbatim>\<open>getRandomTimeSlot\<close> returns one of the
  slots of the day, the first room is available at every slot of the day, and so
  \<^verbatim>\<open>getAvailableRoom\<close> returns a room for every such slot and every schedule of this
  data; \<^verbatim>\<open>initialize\<close> of a new schedule and \<^verbatim>\<open>_mutateSchedule\<close> of a schedule of
  this data return without an error.
\<close>

theorem first_room_always_available:
  assumes "new_Data n names st en w0 = Inr (D, w)" "1 \<le> n" "en = st + 60 * int k" "0 < k"
  shows "hd (d_rooms D) = roomNext w0 \<and> roomNext w0 \<in> set (d_rooms D) \<and>
    roomObj w (roomNext w0) =
      \<lparr>r_number = ''Room 1'', availabilitySchedule = replicate k (Some True)\<rparr> \<and>
    (\<forall>w'. same_store w w' \<longrightarrow>
       (\<exists>t\<in>set (availableTimeSlots_loop st en []). fst (getRandomTimeSlot w') = Some t) \<and>
       (\<forall>t\<in>set (availableTimeSlots_loop st en []).
          isAvailable w' (roomNext w0) (Some t) = Inr True \<and>
          (\<forall>this. s_data (schedObj w' this) = D \<longrightarrow>
             (\<exists>room w''. getAvailableRoom this (Some t) w' = Inr (room, w'')))) \<and>
       (\<exists>w2. initialize (fst (new_ScheduleEvents D w')) (snd (new_ScheduleEvents D w')) = Inr w2) \<and>
       (\<forall>m. s_data (schedObj w' m) = D \<longrightarrow>
          (\<exists>r w''. mutateSchedule (Some m) w' = Inr (r, w''))))"
proof (intro conjI allI impI ballI)
  note fr = new_Data_first_room [OF assms(1,2,3)]
  from fr have rooms: "d_rooms D = [roomNext w0..<roomNext w0 + nat n]" by blast
  from assms(2) have n: "0 < nat n" by simp
  from rooms n show "hd (d_rooms D) = roomNext w0" by (simp add: upt_conv_Cons)
  from rooms n show mem: "roomNext w0 \<in> set (d_rooms D)" by simp
  from fr show first: "roomObj w (roomNext w0) =
      \<lparr>r_number = ''Room 1'', availabilitySchedule = replicate k (Some True)\<rparr>" by blast
  from fr have se: "EVENT_START_TIME w = st" "EVENT_END_TIME w = en" by blast+
  note f = new_Data_feasible [OF assms]
  fix w' assume st: "same_store w w'"
  then have w': "EVENT_START_TIME w' = st" "EVENT_END_TIME w' = en" "roomObj w' = roomObj w"
    using se by (simp_all add: same_store_def)
  note f' = feasible_same_store [OF f st]
  from getRandomTimeSlot_feasible [OF f']
  show "\<exists>t\<in>set (availableTimeSlots_loop st en []). fst (getRandomTimeSlot w') = Some t"
    by (auto simp: w')
  from initialize_new_total [OF f']
  show "\<exists>w2. initialize (fst (new_ScheduleEvents D w')) (snd (new_ScheduleEvents D w')) = Inr w2" .
  {
    fix m assume "s_data (schedObj w' m) = D"
    with f' have "feasible (s_data (schedObj w' m)) w'" by simp
    then show "\<exists>r w''. mutateSchedule (Some m) w' = Inr (r, w'')" by (rule mutateSchedule_total)
  }
  fix t assume t: "t \<in> set (availableTimeSlots_loop st en [])"
  have "isAvailable w' (roomNext w0) (Some t) = Inr True"
  proof (rule first_room_slot)
    show "availabilitySchedule (roomObj w' (roomNext w0)) = replicate k (Some True)"
      by (simp add: w' first)
    show "EVENT_END_TIME w' = EVENT_START_TIME w' + 60 * int k" by (simp add: w' assms(3))
    show "t \<in> set (availableTimeSlots_loop (EVENT_START_TIME w') (EVENT_END_TIME w') [])"
      using t by (simp add: w')
  qed
  then show av: "isAvailable w' (roomNext w0) (Some t) = Inr True" .
  fix this assume "s_data (schedObj w' this) = D"
  with mem av have "\<exists>r\<in>set (d_rooms (s_data (schedObj w' this))). isAvailable w' r (Some t) = Inr True"
    by auto
  then show "\<exists>room w''. getAvailableRoom this (Some t) w' = Inr (room, w'')"
    by (rule getAvailableRoom_total)
qed

theorem first_room_always_available_witness:
  "(1::int) \<le> 2 \<and> (720::int) = 540 + 60 * int 3 \<and> (0::nat) < 3 \<and>
   (\<exists>D w w2 t room w3 r w4.
      new_Data 2 [''Quiz'', ''Wiring''] 540 720 example_world = Inr (D, w) \<and>
      availabilitySchedule (roomObj w 2) = [Some True, Some True, Some True] \<and>
      initialize (fst (new_ScheduleEvents D w)) (snd (new_ScheduleEvents D w)) = Inr w2 \<and>
      same_store w w2 \<and> s_data (schedObj w2 1) = D \<and>
      t \<in> set (availableTimeSlots_loop 540 720 []) \<and>
      fst (getRandomTimeSlot w2) = Some t \<and>
      isAvailable w2 2 (Some t) = Inr True \<and>
      getAvailableRoom 1 (Some t) w2 = Inr (room, w3) \<and>
      mutateSchedule (Some 1) w2 = Inr (r, w4))"
proof -
  have h: "(1::int) \<le> 2" "(720::int) = 540 + 60 * int 3" "(0::nat) < 3" by simp_all
  have "0 \<le> ((720::int) - 540) div 60" by simp
  from new_Data_total [OF this, of 2 "[''Quiz'', ''Wiring'']" example_world] obtain D w
    where d: "new_Data 2 [''Quiz'', ''Wiring''] 540 720 example_world = Inr (D, w)" by blast
  note th = first_room_always_available [OF d h]
  have r0: "roomNext example_world = 2" "schedNext example_world = 1"
    by (simp_all add: example_world_def)
  from new_Data_first_room [OF d h(1,2)] have sn: "schedNext w = 1" by (simp add: r0)
  from th have room: "availabilitySchedule (roomObj w 2) = [Some True, Some True, Some True]"
    by (simp add: r0 numeral_3_eq_3)
  from th same_store_refl [of w] obtain w2
    where i: "initialize (fst (new_ScheduleEvents D w)) (snd (new_ScheduleEvents D w)) = Inr w2"
    by blast
  have "added_schedule D (fst (new_ScheduleEvents D w)) w w2"
    by (rule initialize_new_added [OF _ i]) simp
  note ad = added_scheduleD [OF this]
  have a: "fst (new_ScheduleEvents D w) = 1" using ad(1) sn by simp
  have st: "same_store w w2" by (rule touches_same_store [OF ad(3)])
  have sd: "s_data (schedObj w2 1) = D" using ad(4) a by simp
  from th st obtain t where t: "t \<in> set (availableTimeSlots_loop 540 720 [])"
    "fst (getRandomTimeSlot w2) = Some t" by blast
  from th st t(1) have av: "isAvailable w2 2 (Some t) = Inr True" by (simp add: r0)
  from th st t(1) sd obtain room w3 where g: "getAvailableRoom 1 (Some t) w2 = Inr (room, w3)"
    by blast
  from th st sd obtain r w4 where m: "mutateSchedule (Some 1) w2 = Inr (r, w4)" by blast
  from h d room i st sd t av g m show ?thesis by blast
qed

end
